(* ===== verification/Prelude.thy ===== *)
theory Prelude
  imports Main "HOL-Library.Word" "HOL-Library.Monad_Syntax"
begin

text \<open>
  Shared vocabulary of the development: the machine types of the Rust sources, the parts of
  Rust's standard library the sources rely on (saturating and checked arithmetic, byte order
  conversions, \<open>Vec::retain_mut\<close>, the \<open>HashMap\<close> entry interface), and the generic lemmas
  about words, lists and maps that the component theories use.
\<close>

unbundle bit_operations_syntax

section \<open>Machine types\<close>

type_synonym u8 = "8 word"
type_synonym u16 = "16 word"
type_synonym u32 = "32 word"
type_synonym u64 = "64 word"

text \<open>A byte buffer: \<open>&[u8]\<close>, \<open>Vec<u8>\<close> and the contents of a \<open>PacketMut\<close>.\<close>

type_synonym bytes = "u8 list"

named_theorems rust_std \<open>unfolding rules for the parts of Rust's standard library\<close>

section \<open>Integer arithmetic of the standard library\<close>

definition saturating_sub :: "'a::len word \<Rightarrow> 'a word \<Rightarrow> 'a word" where
  [rust_std]: "saturating_sub a b = (if a < b then 0 else a - b)"

definition checked_add :: "'a::len word \<Rightarrow> 'a word \<Rightarrow> 'a word option" where
  [rust_std]: "checked_add a b = (if unat a + unat b < 2 ^ LENGTH('a) then Some (a + b) else None)"

definition overflowing_add :: "'a::len word \<Rightarrow> 'a word \<Rightarrow> 'a word \<times> bool" where
  [rust_std]: "overflowing_add a b = (a + b, 2 ^ LENGTH('a) \<le> unat a + unat b)"

lemma unat_saturating_sub: "unat (saturating_sub a b) = unat a - unat b"
  by (auto simp: saturating_sub_def word_less_nat_alt unat_sub word_le_nat_alt not_less)

lemma checked_add_Some:
  assumes "checked_add a b = Some c"
  shows "unat c = unat a + unat b"
  using assms by (auto simp: checked_add_def unat_word_ariths split: if_splits)

lemma unat_less_2pow: "unat (x :: 'a::len word) < 2 ^ LENGTH('a)"
  by (fact unsigned_less)

lemma unat_and_mask: "unat (x AND mask n) = unat x mod 2 ^ n"
  by (simp add: take_bit_eq_mask [symmetric] unsigned_take_bit_eq take_bit_eq_mod [where 'a = nat])

lemma unat_drop_bit: "unat (drop_bit n x) = unat x div 2 ^ n"
  by (simp add: unsigned_drop_bit_eq take_bit_eq_mod drop_bit_eq_div [where 'a = nat])

section \<open>Results\<close>

text \<open>
  A Rust operation that may panic returns a sum: \<open>Inl\<close> carries the panic, \<open>Inr\<close> the result.
\<close>

definition bind_res :: "'e + 'a \<Rightarrow> ('a \<Rightarrow> 'e + 'b) \<Rightarrow> 'e + 'b" where
  "bind_res r f = (case r of Inl e \<Rightarrow> Inl e | Inr x \<Rightarrow> f x)"

lemma bind_res_simps [simp]:
  "bind_res (Inl e) f = Inl e"
  "bind_res (Inr x) f = f x"
  by (simp_all add: bind_res_def)

lemma bind_res_Inr: "bind_res r f = Inr y \<longleftrightarrow> (\<exists>x. r = Inr x \<and> f x = Inr y)"
  by (auto simp: bind_res_def split: sum.splits)

section \<open>\<open>Vec::retain_mut\<close> with a stateful closure\<close>

text \<open>
  The closure sees each element once, in order; it may update the captured state and the
  element, and its verdict decides whether the (updated) element is kept.
\<close>

fun retain_mut :: "('s \<Rightarrow> 'a \<Rightarrow> 's \<times> 'b option) \<Rightarrow> 's \<Rightarrow> 'a list \<Rightarrow> 's \<times> 'b list" where
  "retain_mut f s [] = (s, [])"
| "retain_mut f s (x # xs) =
     (case f s x of
        (s', None) \<Rightarrow> retain_mut f s' xs
      | (s', Some y) \<Rightarrow> (case retain_mut f s' xs of (s'', ys) \<Rightarrow> (s'', y # ys)))"

text \<open>The elements (before the update) that the closure keeps.\<close>

fun kept :: "('s \<Rightarrow> 'a \<Rightarrow> 's \<times> 'b option) \<Rightarrow> 's \<Rightarrow> 'a list \<Rightarrow> 'a list" where
  "kept f s [] = []"
| "kept f s (x # xs) =
     (case f s x of (s', None) \<Rightarrow> kept f s' xs | (s', Some y) \<Rightarrow> x # kept f s' xs)"

lemma length_kept: "length (kept f s xs) = length (snd (retain_mut f s xs))"
  by (induction xs arbitrary: s) (auto split: prod.splits option.splits simp: case_prod_beta)

lemma set_kept: "set (kept f s xs) \<subseteq> set xs"
proof (induction xs arbitrary: s)
  case (Cons x xs)
  then show ?case by (cases "f s x"; cases "snd (f s x)") auto
qed simp

lemma retain_mut_length: "length (snd (retain_mut f s xs)) \<le> length xs"
proof (induction xs arbitrary: s)
  case (Cons x xs)
  obtain s' v where f: "f s x = (s', v)" by (cases "f s x")
  show ?case
    using Cons.IH [of s'] f by (cases v) (auto split: prod.splits)
qed simp

lemma retain_mut_append:
  "retain_mut f s (xs @ ys) =
     (case retain_mut f s xs of (s', us) \<Rightarrow>
        (case retain_mut f s' ys of (s'', vs) \<Rightarrow> (s'', us @ vs)))"
  by (induction xs arbitrary: s) (auto split: prod.splits option.splits)

text \<open>\<open>retain_mut\<close> with a closure that may panic, and the same run with panics skipped.\<close>

fun retain_mut_res :: "('s \<Rightarrow> 'a \<Rightarrow> 'e + 's \<times> 'b option) \<Rightarrow> 's \<Rightarrow> 'a list \<Rightarrow> 'e + 's \<times> 'b list" where
  "retain_mut_res f s [] = Inr (s, [])"
| "retain_mut_res f s (x # xs) =
     bind_res (f s x) (\<lambda>(s', v).
       bind_res (retain_mut_res f s' xs) (\<lambda>(s'', ys).
         Inr (s'', case v of None \<Rightarrow> ys | Some y \<Rightarrow> y # ys)))"

definition skip_panic :: "('s \<Rightarrow> 'a \<Rightarrow> 'e + 's \<times> 'b option) \<Rightarrow> 's \<Rightarrow> 'a \<Rightarrow> 's \<times> 'b option" where
  "skip_panic f s x = (case f s x of Inl _ \<Rightarrow> (s, None) | Inr r \<Rightarrow> r)"

lemma skip_panic_Inr: "f s x = Inr r \<Longrightarrow> skip_panic f s x = r"
  by (simp add: skip_panic_def)

lemma retain_mut_res_total:
  assumes "\<And>s x. I s \<Longrightarrow> \<exists>s' v. f s x = Inr (s', v) \<and> I s'" and "I s"
  shows "retain_mut_res f s xs = Inr (retain_mut (skip_panic f) s xs) \<and> I (fst (retain_mut (skip_panic f) s xs))"
  using assms(2)
proof (induction xs arbitrary: s)
  case (Cons x xs)
  obtain s' v where f: "f s x = Inr (s', v)" and "I s'" using assms(1) Cons.prems by blast
  with Cons.IH [of s'] show ?case by (auto simp: skip_panic_Inr split: prod.splits option.splits)
qed simp

lemma find_Some_set: "List.find P xs = Some y \<Longrightarrow> y \<in> set xs \<and> P y"
  by (induction xs) (auto split: if_splits)

section \<open>Readings of a stateful source\<close>

text \<open>The values an operation returns when it is called once per input, threading its state.\<close>

fun readings :: "('i \<Rightarrow> 's \<Rightarrow> 'o \<times> 's) \<Rightarrow> 's \<Rightarrow> 'i list \<Rightarrow> 'o list" where
  "readings f s [] = []"
| "readings f s (x # xs) = (case f x s of (y, s') \<Rightarrow> y # readings f s' xs)"

section \<open>\<open>HashMap\<close> entries holding vectors\<close>

text \<open>\<open>map.entry(k).or_default().extend(vs)\<close>.\<close>

definition entry_extend :: "('k \<rightharpoonup> 'v list) \<Rightarrow> 'k \<Rightarrow> 'v list \<Rightarrow> ('k \<rightharpoonup> 'v list)" where
  "entry_extend m k vs = m(k \<mapsto> (case m k of None \<Rightarrow> [] | Some us \<Rightarrow> us) @ vs)"

definition entry_list :: "('k \<rightharpoonup> 'v list) \<Rightarrow> 'k \<Rightarrow> 'v list" where
  "entry_list m k = (case m k of None \<Rightarrow> [] | Some vs \<Rightarrow> vs)"

lemma entry_list_extend [simp]:
  "entry_list (entry_extend m k vs) j = (if j = k then entry_list m k @ vs else entry_list m j)"
  by (simp add: entry_list_def entry_extend_def)

lemma entry_list_empty [simp]: "entry_list Map.empty k = []"
  by (simp add: entry_list_def)

lemma dom_entry_extend [simp]: "dom (entry_extend m k vs) = insert k (dom m)"
  by (auto simp: entry_extend_def)

section \<open>Byte order conversions\<close>

text \<open>
  \<open>to_le n w\<close> are the \<open>n\<close> bytes of \<open>w\<close> from the least significant one on;
  \<open>to_be\<close> is the network order.  \<open>of_le\<close> and \<open>of_be\<close> read them back.
\<close>

definition to_le :: "nat \<Rightarrow> 'a::len word \<Rightarrow> bytes" where
  "to_le n w = map (\<lambda>i. ucast (drop_bit (8 * i) w)) [0..<n]"

definition of_le :: "bytes \<Rightarrow> 'a::len word" where
  "of_le bs = foldr (\<lambda>b acc. ucast b OR push_bit 8 acc) bs 0"

definition to_be :: "nat \<Rightarrow> 'a::len word \<Rightarrow> bytes" where
  "to_be n w = rev (to_le n w)"

definition of_be :: "bytes \<Rightarrow> 'a::len word" where
  "of_be bs = of_le (rev bs)"

lemma length_to_le [simp]: "length (to_le n w) = n"
  by (simp add: to_le_def)

lemma length_to_be [simp]: "length (to_be n w) = n"
  by (simp add: to_be_def)

lemma of_le_Nil [simp]: "of_le [] = 0"
  by (simp add: of_le_def)

lemma of_le_Cons: "of_le (b # bs) = ucast b OR push_bit 8 (of_le bs)"
  by (simp add: of_le_def)

lemma to_le_Suc: "to_le (Suc n) w = ucast w # to_le n (drop_bit 8 w)"
proof -
  have "map (\<lambda>i. ucast (drop_bit (8 * i) w)) [0..<Suc n]
      = ucast w # map (\<lambda>i. ucast (drop_bit (8 * Suc i) w)) [0..<n]"
    by (simp add: upt_conv_Cons map_Suc_upt [symmetric] del: upt_Suc)
  also have "map (\<lambda>i. ucast (drop_bit (8 * Suc i) w)) [0..<n] = to_le n (drop_bit 8 w)"
    by (simp add: to_le_def add.commute)
  finally show ?thesis by (simp add: to_le_def)
qed

lemma of_le_to_le_take: "of_le (to_le n w) = take_bit (8 * n) w"
proof (induction n arbitrary: w)
  case 0
  then show ?case by (simp add: to_le_def)
next
  case (Suc n)
  have "of_le (to_le (Suc n) w) = ucast (ucast w :: u8) OR push_bit 8 (take_bit (8 * n) (drop_bit 8 w))"
    by (simp add: to_le_Suc of_le_Cons Suc.IH)
  also have "\<dots> = take_bit (8 * Suc n) w"
    by (rule bit_word_eqI) (auto simp: bit_simps)
  finally show ?case .
qed

lemma of_le_to_le [simp]:
  assumes "LENGTH('a) \<le> 8 * n"
  shows "of_le (to_le n w) = (w :: 'a::len word)"
  using assms by (simp add: of_le_to_le_take take_bit_word_eq_self)

lemma of_be_to_be [simp]:
  assumes "LENGTH('a) \<le> 8 * n"
  shows "of_be (to_be n w) = (w :: 'a::len word)"
  using assms by (simp add: of_be_def to_be_def)

lemma bit_of_le:
  "bit (of_le bs :: 'a::len word) i \<longleftrightarrow>
     i < LENGTH('a) \<and> i div 8 < length bs \<and> bit (bs ! (i div 8)) (i mod 8)"
proof (induction bs arbitrary: i)
  case Nil
  then show ?case by simp
next
  case (Cons b bs)
  show ?case
  proof (cases "i < 8")
    case True
    then show ?thesis by (auto simp: of_le_Cons bit_simps)
  next
    case False
    then have "i div 8 = Suc ((i - 8) div 8)" "(i - 8) mod 8 = i mod 8"
      by (simp_all add: le_div_geq le_mod_geq)
    moreover have "\<not> bit b i" using False by (auto dest: bit_imp_le_length)
    ultimately show ?thesis using False by (auto simp: of_le_Cons bit_simps Cons.IH)
  qed
qed

lemma to_le_of_le:
  assumes "8 * length bs \<le> LENGTH('a)"
  shows "to_le (length bs) (of_le bs :: 'a::len word) = bs"
proof (rule nth_equalityI)
  fix i assume "i < length (to_le (length bs) (of_le bs :: 'a word))"
  then have i: "i < length bs" by simp
  show "to_le (length bs) (of_le bs :: 'a word) ! i = bs ! i"
  proof (rule bit_word_eqI)
    fix j assume j: "j < LENGTH(8)"
    with i have "8 * i + j < 8 * length bs" by simp
    with assms have "8 * i + j < LENGTH('a)" by linarith
    with i j show "bit (to_le (length bs) (of_le bs :: 'a word) ! i) j = bit (bs ! i) j"
      by (simp add: to_le_def bit_simps bit_of_le)
  qed
qed simp

section \<open>Fixed layouts\<close>

text \<open>The field of \<open>n\<close> bytes at offset \<open>off\<close> of a packet.\<close>

definition field :: "nat \<Rightarrow> nat \<Rightarrow> bytes \<Rightarrow> bytes" where
  "field off n bs = take n (drop off bs)"

lemma length_field [simp]: "off + n \<le> length bs \<Longrightarrow> length (field off n bs) = n"
  by (simp add: field_def)

lemma field_0: "length a = n \<Longrightarrow> field 0 n (a @ bs) = a"
  by (simp add: field_def)

lemma field_append: "length a \<le> off \<Longrightarrow> field off n (a @ bs) = field (off - length a) n bs"
  by (simp add: field_def)

lemma field_Cons: "0 < off \<Longrightarrow> field off n (b # bs) = field (off - 1) n bs"
  by (cases off) (simp_all add: field_def)

lemma field_join: "off' = off + n \<Longrightarrow> field off n bs @ field off' m bs = field off (n + m) bs"
  by (simp add: field_def take_add add.commute [of off n])

lemma field_all: "length bs = n \<Longrightarrow> field 0 n bs = bs"
  by (simp add: field_def)

lemmas field_simps [simp] = field_0 field_append field_Cons field_all

end
