(* ===== verification/Crypto.thy ===== *)
theory Crypto
  imports Prelude
begin

text \<open>
  The cryptographic primitives come from crates outside the repository (\<open>blake2\<close>, \<open>hkdf\<close>,
  \<open>x25519_dalek\<close>, \<open>chacha20poly1305\<close>).  They are a parameter of the model: a record of
  functions that every definition using them takes as its first argument.  What the code relies
  on is stated as named predicates, each of them the documented behaviour of the crate.
\<close>

record crypto =
  blake2s :: "bytes \<Rightarrow> bytes"
  hkdf_blake2s :: "bytes \<Rightarrow> bytes \<Rightarrow> nat \<Rightarrow> bytes"
  x25519_public :: "bytes \<Rightarrow> bytes"
  x25519_dh :: "bytes \<Rightarrow> bytes \<Rightarrow> bytes"
  chacha_seal :: "bytes \<Rightarrow> bytes \<Rightarrow> bytes \<Rightarrow> bytes \<Rightarrow> bytes \<times> bytes"
  chacha_open :: "bytes \<Rightarrow> bytes \<Rightarrow> bytes \<Rightarrow> bytes \<Rightarrow> bytes \<Rightarrow> bytes option"
  blake2s_mac :: "bytes \<Rightarrow> bytes \<Rightarrow> bytes"
  xchacha_open :: "bytes \<Rightarrow> bytes \<Rightarrow> bytes \<Rightarrow> bytes \<Rightarrow> bytes option"

text \<open>X25519: both sides of an exchange compute the same shared secret.\<close>

definition dh_commutes :: "crypto \<Rightarrow> bool" where
  "dh_commutes C \<longleftrightarrow>
     (\<forall>a b. x25519_dh C a (x25519_public C b) = x25519_dh C b (x25519_public C a))"

text \<open>ChaCha20-Poly1305: opening what was sealed under the same key, nonce and data succeeds.\<close>

definition aead_correct :: "crypto \<Rightarrow> bool" where
  "aead_correct C \<longleftrightarrow>
     (\<forall>k n ad p. chacha_open C k n ad (fst (chacha_seal C k n ad p)) (snd (chacha_seal C k n ad p)) = Some p)"

text \<open>The fixed sizes of keys, ciphertexts, tags and MACs.\<close>

definition crypto_sizes :: "crypto \<Rightarrow> bool" where
  "crypto_sizes C \<longleftrightarrow>
     (\<forall>a. length (x25519_public C a) = 32) \<and>
     (\<forall>k n ad p. length (fst (chacha_seal C k n ad p)) = length p) \<and>
     (\<forall>k n ad p. length (snd (chacha_seal C k n ad p)) = 16) \<and>
     (\<forall>k d. length (blake2s_mac C k d) = 16)"

definition crypto_ok :: "crypto \<Rightarrow> bool" where
  "crypto_ok C \<longleftrightarrow> dh_commutes C \<and> aead_correct C \<and> crypto_sizes C"

lemma crypto_okD:
  assumes "crypto_ok C"
  shows "x25519_dh C a (x25519_public C b) = x25519_dh C b (x25519_public C a)"
    and "chacha_seal C k n ad p = (c, t) \<Longrightarrow> chacha_open C k n ad c t = Some p"
    and "length (x25519_public C a) = 32"
    and "chacha_seal C k n ad p = (c, t) \<Longrightarrow> length c = length p"
    and "chacha_seal C k n ad p = (c, t) \<Longrightarrow> length t = 16"
    and "length (blake2s_mac C k d) = 16"
  using assms
  unfolding crypto_ok_def dh_commutes_def aead_correct_def crypto_sizes_def
  by (metis fst_conv snd_conv)+

section \<open>The AEAD in place\<close>

text \<open>
  \<open>AeadInPlace::encrypt_in_place\<close> appends the 16-byte tag to the ciphertext;
  \<open>decrypt_in_place\<close> splits it off and fails on anything shorter.
\<close>

definition encrypt_in_place :: "crypto \<Rightarrow> bytes \<Rightarrow> bytes \<Rightarrow> bytes \<Rightarrow> bytes \<Rightarrow> bytes" where
  "encrypt_in_place C k n ad p = (case chacha_seal C k n ad p of (c, t) \<Rightarrow> c @ t)"

definition decrypt_in_place :: "crypto \<Rightarrow> bytes \<Rightarrow> bytes \<Rightarrow> bytes \<Rightarrow> bytes \<Rightarrow> bytes option" where
  "decrypt_in_place C k n ad buf =
     (if length buf < 16 then None
      else let m = length buf - 16 in chacha_open C k n ad (take m buf) (drop m buf))"

lemma decrypt_encrypt_in_place:
  assumes "crypto_ok C"
  shows "decrypt_in_place C k n ad (encrypt_in_place C k n ad p) = Some p"
proof -
  obtain c t where s: "chacha_seal C k n ad p = (c, t)" by (cases "chacha_seal C k n ad p")
  with crypto_okD(5) [OF assms s] crypto_okD(2) [OF assms s] show ?thesis
    by (simp add: encrypt_in_place_def decrypt_in_place_def Let_def)
qed

lemma length_encrypt_in_place:
  assumes "crypto_ok C"
  shows "length (encrypt_in_place C k n ad p) = length p + 16"
proof -
  obtain c t where s: "chacha_seal C k n ad p = (c, t)" by (cases "chacha_seal C k n ad p")
  with crypto_okD(4,5) [OF assms s] show ?thesis by (simp add: encrypt_in_place_def)
qed

section \<open>A concrete instance\<close>

text \<open>
  The predicates can hold together: a computable instance with a commutative exchange and an
  authenticated identity cipher.  It is used only to apply theorems to concrete inputs.
\<close>

definition pad_to :: "nat \<Rightarrow> bytes \<Rightarrow> bytes" where
  "pad_to n bs = take n (bs @ replicate n 0)"

definition checksum :: "bytes \<Rightarrow> u8" where
  "checksum bs = foldl (\<lambda>acc b. acc * 31 + b + 1) 7 bs"

definition sample_crypto :: crypto where
  "sample_crypto =
     \<lparr>blake2s = (\<lambda>bs. replicate 32 (checksum bs)),
      hkdf_blake2s = (\<lambda>salt ikm n. map (\<lambda>i. checksum (salt @ ikm) + of_nat (i div 32)) [0..<n]),
      x25519_public = (\<lambda>a. pad_to 32 a),
      x25519_dh = (\<lambda>a b. map2 (+) (pad_to 32 a) (pad_to 32 b)),
      chacha_seal = (\<lambda>k n ad p. (p, replicate 16 (checksum (k @ n @ ad @ p)))),
      chacha_open = (\<lambda>k n ad c t. if t = replicate 16 (checksum (k @ n @ ad @ c)) then Some c else None),
      blake2s_mac = (\<lambda>k d. replicate 16 (checksum (k @ d))),
      xchacha_open = (\<lambda>k n ad m. if length m = 32 then Some (take 16 m) else None)\<rparr>"

lemma length_pad_to [simp]: "length (pad_to n bs) = n"
  by (simp add: pad_to_def)

lemma pad_to_length [simp]: "length bs = n \<Longrightarrow> pad_to n bs = bs"
  by (simp add: pad_to_def)

lemma sample_crypto_ok: "crypto_ok sample_crypto"
proof -
  have "pad_to 32 (pad_to 32 b) = pad_to 32 b" for b by simp
  moreover have "map2 (+) xs ys = map2 (+) ys xs" for xs ys :: bytes
    by (rule nth_equalityI) (simp_all add: add.commute)
  ultimately show ?thesis
    by (simp add: crypto_ok_def dh_commutes_def aead_correct_def crypto_sizes_def sample_crypto_def)
qed

end
