(* ===== verification/Noise.thy ===== *)
theory Noise
  imports Crypto
begin

text \<open>
  The Noise handshakes of \<open>ts_noise\<close>: the symmetric state and its operations (\<open>core.rs\<close>), the
  wire messages (\<open>messages.rs\<close>), the IKpsk2 pattern that WireGuard uses (\<open>ikpsk2.rs\<close>) and the
  IK pattern of the control protocol (\<open>ik.rs\<close>).  Random ephemeral keys are arguments.  The main
  results are that both sides of a handshake end with mirrored session keys and that the
  responder learns the initiator's static key and payload.
\<close>

section \<open>The symmetric state\<close>

record State =
  hash :: bytes
  chaining_key :: bytes

record StateWithAead =
  state :: State
  aead :: bytes

record Session =
  send_key :: bytes
  recv_key :: bytes

record X25519KeyPair =
  kp_private :: bytes
  kp_public :: bytes

definition keypair :: "crypto \<Rightarrow> bytes \<Rightarrow> X25519KeyPair" where
  "keypair C k = \<lparr>kp_private = k, kp_public = x25519_public C k\<rparr>"

text \<open>\<open>must_hkdf::<N>\<close>: output \<open>i\<close> of \<open>n\<close> 32-byte values.\<close>

definition must_hkdf :: "crypto \<Rightarrow> nat \<Rightarrow> bytes \<Rightarrow> bytes \<Rightarrow> nat \<Rightarrow> bytes" where
  "must_hkdf C n ck key i = take 32 (drop (32 * i) (hkdf_blake2s C ck key (32 * n)))"

definition State_new :: "crypto \<Rightarrow> bytes \<Rightarrow> State" where
  "State_new C protocol_name =
     (let init = blake2s C protocol_name in \<lparr>hash = init, chaining_key = init\<rparr>)"

definition mix_hash_gather :: "crypto \<Rightarrow> bytes list \<Rightarrow> State \<Rightarrow> State" where
  "mix_hash_gather C ds st = st\<lparr>hash := blake2s C (hash st @ concat ds)\<rparr>"

definition mix_hash :: "crypto \<Rightarrow> bytes \<Rightarrow> State \<Rightarrow> State" where
  "mix_hash C d st = mix_hash_gather C [d] st"

definition mix_hash_and_key :: "crypto \<Rightarrow> bytes \<Rightarrow> State \<Rightarrow> State" where
  "mix_hash_and_key C pub st =
     (let st1 = mix_hash C pub st
      in \<lparr>hash = hash st1, chaining_key = must_hkdf C 1 (chaining_key st1) pub 0\<rparr>)"

definition mix_dh :: "crypto \<Rightarrow> bytes \<Rightarrow> bytes \<Rightarrow> State \<Rightarrow> StateWithAead" where
  "mix_dh C priv pub st =
     (let shared = x25519_dh C priv pub
      in \<lparr>state = \<lparr>hash = hash st, chaining_key = must_hkdf C 2 (chaining_key st) shared 0\<rparr>,
          aead = must_hkdf C 2 (chaining_key st) shared 1\<rparr>)"

definition mix_dh_aead :: "crypto \<Rightarrow> bytes \<Rightarrow> bytes \<Rightarrow> StateWithAead \<Rightarrow> StateWithAead" where
  "mix_dh_aead C priv pub sa = mix_dh C priv pub (state sa)"

definition mix_psk :: "crypto \<Rightarrow> bytes \<Rightarrow> StateWithAead \<Rightarrow> StateWithAead" where
  "mix_psk C psk sa =
     (let ck = chaining_key (state sa);
          h = must_hkdf C 3 ck psk 1
      in \<lparr>state = mix_hash C h \<lparr>hash = hash (state sa), chaining_key = must_hkdf C 3 ck psk 0\<rparr>,
          aead = must_hkdf C 3 ck psk 2\<rparr>)"

definition seal :: "crypto \<Rightarrow> bytes \<Rightarrow> StateWithAead \<Rightarrow> bytes \<times> bytes \<times> State" where
  "seal C cleartext sa =
     (case chacha_seal C (aead sa) (replicate 12 0) (hash (state sa)) cleartext of
        (c, t) \<Rightarrow> (c, t, mix_hash_gather C [c, t] (state sa)))"

definition open_aead :: "crypto \<Rightarrow> bytes \<Rightarrow> bytes \<Rightarrow> StateWithAead \<Rightarrow> (bytes \<times> State) option" where
  "open_aead C ciphertext tag sa =
     (let st = mix_hash_gather C [ciphertext, tag] (state sa)
      in case chacha_open C (aead sa) (replicate 12 0) (hash (state sa)) ciphertext tag of
           None \<Rightarrow> None
         | Some p \<Rightarrow> Some (p, st))"

definition finish_as_initiator :: "crypto \<Rightarrow> State \<Rightarrow> Session" where
  "finish_as_initiator C st =
     \<lparr>send_key = must_hkdf C 2 (chaining_key st) [] 0, recv_key = must_hkdf C 2 (chaining_key st) [] 1\<rparr>"

definition finish_as_responder :: "crypto \<Rightarrow> State \<Rightarrow> Session" where
  "finish_as_responder C st =
     \<lparr>send_key = must_hkdf C 2 (chaining_key st) [] 1, recv_key = must_hkdf C 2 (chaining_key st) [] 0\<rparr>"

section \<open>Wire messages\<close>

record Init =
  ephemeral_pub :: bytes
  static_pub :: bytes
  static_pub_tag :: bytes
  payload :: bytes
  payload_tag :: bytes

record Resp =
  resp_ephemeral_pub :: bytes
  auth_tag :: bytes

text \<open>
  \<open>size_of::<Init<P>>()\<close> for a payload of \<open>p\<close> bytes; \<open>mut_from_bytes\<close> accepts exactly that
  length.
\<close>

definition init_size :: "nat \<Rightarrow> nat" where "init_size p = 32 + 32 + 16 + p + 16"
definition resp_size :: nat where "resp_size = 32 + 16"

definition Init_bytes :: "Init \<Rightarrow> bytes" where
  "Init_bytes m = ephemeral_pub m @ static_pub m @ static_pub_tag m @ payload m @ payload_tag m"

definition Init_from_bytes :: "nat \<Rightarrow> bytes \<Rightarrow> Init option" where
  "Init_from_bytes p bs =
     (if length bs = init_size p then
        Some \<lparr>ephemeral_pub = take 32 bs, static_pub = take 32 (drop 32 bs),
              static_pub_tag = take 16 (drop 64 bs), payload = take p (drop 80 bs),
              payload_tag = drop (80 + p) bs\<rparr>
      else None)"

definition Resp_bytes :: "Resp \<Rightarrow> bytes" where
  "Resp_bytes m = resp_ephemeral_pub m @ auth_tag m"

definition Resp_from_bytes :: "bytes \<Rightarrow> Resp option" where
  "Resp_from_bytes bs =
     (if length bs = resp_size then
        Some \<lparr>resp_ephemeral_pub = take 32 bs, auth_tag = drop 32 bs\<rparr>
      else None)"

lemma Init_roundtrip:
  assumes "length (ephemeral_pub m) = 32" "length (static_pub m) = 32"
    "length (static_pub_tag m) = 16" "length (payload m) = p" "length (payload_tag m) = 16"
  shows "Init_from_bytes p (Init_bytes m) = Some m" and "length (Init_bytes m) = init_size p"
  using assms by (simp_all add: Init_from_bytes_def Init_bytes_def init_size_def)

lemma Resp_roundtrip:
  assumes "length (resp_ephemeral_pub m) = 32" "length (auth_tag m) = 16"
  shows "Resp_from_bytes (Resp_bytes m) = Some m" and "length (Resp_bytes m) = resp_size"
  using assms by (simp_all add: Resp_from_bytes_def Resp_bytes_def resp_size_def)

section \<open>IKpsk2\<close>

definition PROTOCOL_IKpsk2 :: bytes where
  "PROTOCOL_IKpsk2 = map of_char ''Noise_IKpsk2_25519_ChaChaPoly_BLAKE2s''"

record ReceivedHandshake =
  rh_state :: State
  peer_ephemeral_pub :: bytes
  peer_static_pub :: bytes

record SentHandshake =
  sh_state :: State
  my_ephemeral :: bytes

definition Received_new ::
  "crypto \<Rightarrow> nat \<Rightarrow> bytes \<Rightarrow> bytes \<Rightarrow> X25519KeyPair \<Rightarrow> (ReceivedHandshake \<times> bytes) option" where
  "Received_new C psize packet prologue my_static = do {
     m \<leftarrow> Init_from_bytes psize packet;
     let st = mix_hash_and_key C (ephemeral_pub m)
                (mix_hash C (kp_public my_static)
                  (mix_hash C prologue (State_new C PROTOCOL_IKpsk2)));
     (static, st1) \<leftarrow> open_aead C (static_pub m) (static_pub_tag m)
                        (mix_dh C (kp_private my_static) (ephemeral_pub m) st);
     (pl, st2) \<leftarrow> open_aead C (payload m) (payload_tag m)
                    (mix_dh C (kp_private my_static) static st1);
     Some (\<lparr>rh_state = st2, peer_ephemeral_pub = ephemeral_pub m, peer_static_pub = static\<rparr>, pl)
   }"

definition Received_finish ::
  "crypto \<Rightarrow> ReceivedHandshake \<Rightarrow> bytes \<Rightarrow> X25519KeyPair \<Rightarrow> bytes \<times> Session" where
  "Received_finish C rh psk my_eph =
     (let sa = mix_psk C psk
                 (mix_dh_aead C (kp_private my_eph) (peer_static_pub rh)
                   (mix_dh C (kp_private my_eph) (peer_ephemeral_pub rh)
                     (mix_hash_and_key C (kp_public my_eph) (rh_state rh))))
      in case seal C [] sa of
           (_, tag, st) \<Rightarrow>
             (Resp_bytes \<lparr>resp_ephemeral_pub = kp_public my_eph, auth_tag = tag\<rparr>, finish_as_responder C st))"

definition Sent_new ::
  "crypto \<Rightarrow> X25519KeyPair \<Rightarrow> X25519KeyPair \<Rightarrow> bytes \<Rightarrow> bytes \<Rightarrow> bytes \<Rightarrow> SentHandshake \<times> bytes" where
  "Sent_new C my_static my_eph peer_static prologue pl =
     (let st = mix_hash_and_key C (kp_public my_eph)
                 (mix_hash C peer_static
                   (mix_hash C prologue (State_new C PROTOCOL_IKpsk2)))
      in case seal C (kp_public my_static) (mix_dh C (kp_private my_eph) peer_static st) of
           (static, static_tag, st1) \<Rightarrow>
             (case seal C pl (mix_dh C (kp_private my_static) peer_static st1) of
                (pl', pl_tag, st2) \<Rightarrow>
                  (\<lparr>sh_state = st2, my_ephemeral = kp_private my_eph\<rparr>,
                   Init_bytes \<lparr>ephemeral_pub = kp_public my_eph, static_pub = static,
                     static_pub_tag = static_tag, payload = pl', payload_tag = pl_tag\<rparr>)))"

definition try_finish ::
  "crypto \<Rightarrow> SentHandshake \<Rightarrow> bytes \<Rightarrow> X25519KeyPair \<Rightarrow> bytes \<Rightarrow> SentHandshake + Session" where
  "try_finish C sh packet my_static psk =
     (case Resp_from_bytes packet of
        None \<Rightarrow> Inl sh
      | Some m \<Rightarrow>
          (let sa = mix_psk C psk
                 (mix_dh_aead C (kp_private my_static) (resp_ephemeral_pub m)
                   (mix_dh C (my_ephemeral sh) (resp_ephemeral_pub m)
                     (mix_hash_and_key C (resp_ephemeral_pub m) (sh_state sh))))
           in case open_aead C [] (auth_tag m) sa of
                None \<Rightarrow> Inl sh
              | Some (_, st) \<Rightarrow> Inr (finish_as_initiator C st)))"

section \<open>IK\<close>

text \<open>
  The IK pattern has the same partial-handshake structs, an empty payload and no pre-shared key;
  ephemeral keys are hashed but not mixed into the chaining key.
\<close>

definition PROTOCOL_IK :: bytes where
  "PROTOCOL_IK = map of_char ''Noise_IK_25519_ChaChaPoly_BLAKE2s''"

definition IK_Received_new ::
  "crypto \<Rightarrow> bytes \<Rightarrow> bytes \<Rightarrow> X25519KeyPair \<Rightarrow> ReceivedHandshake option" where
  "IK_Received_new C packet prologue my_static = do {
     m \<leftarrow> Init_from_bytes 0 packet;
     let st = mix_hash C (ephemeral_pub m)
                (mix_hash C (kp_public my_static)
                  (mix_hash C prologue (State_new C PROTOCOL_IK)));
     (static, st1) \<leftarrow> open_aead C (static_pub m) (static_pub_tag m)
                        (mix_dh C (kp_private my_static) (ephemeral_pub m) st);
     (_, st2) \<leftarrow> open_aead C [] (payload_tag m)
                    (mix_dh C (kp_private my_static) static st1);
     Some \<lparr>rh_state = st2, peer_ephemeral_pub = ephemeral_pub m, peer_static_pub = static\<rparr>
   }"

definition IK_Received_finish ::
  "crypto \<Rightarrow> ReceivedHandshake \<Rightarrow> X25519KeyPair \<Rightarrow> bytes \<times> Session" where
  "IK_Received_finish C rh my_eph =
     (let sa = mix_dh_aead C (kp_private my_eph) (peer_static_pub rh)
                 (mix_dh C (kp_private my_eph) (peer_ephemeral_pub rh)
                   (mix_hash C (kp_public my_eph) (rh_state rh)))
      in case seal C [] sa of
           (_, tag, st) \<Rightarrow>
             (Resp_bytes \<lparr>resp_ephemeral_pub = kp_public my_eph, auth_tag = tag\<rparr>, finish_as_responder C st))"

definition IK_Sent_new ::
  "crypto \<Rightarrow> X25519KeyPair \<Rightarrow> X25519KeyPair \<Rightarrow> bytes \<Rightarrow> bytes \<Rightarrow> SentHandshake \<times> bytes" where
  "IK_Sent_new C my_static my_eph peer_static prologue =
     (let st = mix_hash C (kp_public my_eph)
                 (mix_hash C peer_static
                   (mix_hash C prologue (State_new C PROTOCOL_IK)))
      in case seal C (kp_public my_static) (mix_dh C (kp_private my_eph) peer_static st) of
           (static, static_tag, st1) \<Rightarrow>
             (case seal C [] (mix_dh C (kp_private my_static) peer_static st1) of
                (_, pl_tag, st2) \<Rightarrow>
                  (\<lparr>sh_state = st2, my_ephemeral = kp_private my_eph\<rparr>,
                   Init_bytes \<lparr>ephemeral_pub = kp_public my_eph, static_pub = static,
                     static_pub_tag = static_tag, payload = [], payload_tag = pl_tag\<rparr>)))"

definition IK_try_finish ::
  "crypto \<Rightarrow> SentHandshake \<Rightarrow> bytes \<Rightarrow> X25519KeyPair \<Rightarrow> SentHandshake + Session" where
  "IK_try_finish C sh packet my_static =
     (case Resp_from_bytes packet of
        None \<Rightarrow> Inl sh
      | Some m \<Rightarrow>
          (let sa = mix_dh_aead C (kp_private my_static) (resp_ephemeral_pub m)
                   (mix_dh C (my_ephemeral sh) (resp_ephemeral_pub m)
                     (mix_hash C (resp_ephemeral_pub m) (sh_state sh)))
           in case open_aead C [] (auth_tag m) sa of
                None \<Rightarrow> Inl sh
              | Some (_, st) \<Rightarrow> Inr (finish_as_initiator C st)))"

section \<open>Agreement\<close>

lemma keypair_simps [simp]:
  "kp_private (keypair C k) = k" "kp_public (keypair C k) = x25519_public C k"
  by (simp_all add: keypair_def)

lemma mix_dh_agree:
  assumes "crypto_ok C"
  shows "mix_dh C a (x25519_public C b) st = mix_dh C b (x25519_public C a) st"
  unfolding mix_dh_def using crypto_okD(1) [OF assms, of a b] by simp

lemma open_seal:
  assumes "crypto_ok C" and "seal C p sa = (c, t, st)"
  shows "open_aead C c t sa = Some (p, st)" and "length c = length p" and "length t = 16"
proof -
  obtain c' t' where s: "chacha_seal C (aead sa) (replicate 12 0) (hash (state sa)) p = (c', t')"
    by fastforce
  with assms(2) have "c' = c" "t' = t" "st = mix_hash_gather C [c, t] (state sa)"
    by (auto simp: seal_def)
  with s crypto_okD(2,4,5) [OF assms(1) s]
  show "open_aead C c t sa = Some (p, st)" "length c = length p" "length t = 16"
    by (simp_all add: open_aead_def Let_def)
qed

lemma open_seal_empty:
  assumes "crypto_ok C" and "seal C [] sa = (c, t, st)"
  shows "open_aead C [] t sa = Some ([], st)"
  using open_seal [OF assms] by simp

text \<open>The first message: the responder reaches the initiator's symmetric state.\<close>

lemma IKpsk2_init_received:
  assumes ok: "crypto_ok C" and "length pl = psize"
    and sent: "Sent_new C (keypair C s) (keypair C e) (x25519_public C r) pro pl = (sh, packet)"
  shows "Received_new C psize packet pro (keypair C r) =
           Some (\<lparr>rh_state = sh_state sh, peer_ephemeral_pub = x25519_public C e,
                  peer_static_pub = x25519_public C s\<rparr>, pl)"
    and "my_ephemeral sh = e" and "length packet = init_size psize"
proof -
  define st where "st = mix_hash_and_key C (x25519_public C e)
    (mix_hash C (x25519_public C r) (mix_hash C pro (State_new C PROTOCOL_IKpsk2)))"
  obtain c t st1 where s1: "seal C (x25519_public C s) (mix_dh C e (x25519_public C r) st) = (c, t, st1)"
    by (metis surj_pair)
  obtain c' t' st2 where s2: "seal C pl (mix_dh C s (x25519_public C r) st1) = (c', t', st2)"
    by (metis surj_pair)
  let ?m = "\<lparr>ephemeral_pub = x25519_public C e, static_pub = c, static_pub_tag = t,
     payload = c', payload_tag = t'\<rparr>"
  note o1 = open_seal [OF ok s1, unfolded mix_dh_agree [OF ok, of e r]]
  note o2 = open_seal [OF ok s2, unfolded mix_dh_agree [OF ok, of s r]]
  from sent s1 s2 have sh: "sh = \<lparr>sh_state = st2, my_ephemeral = e\<rparr>" and packet: "packet = Init_bytes ?m"
    by (auto simp: Sent_new_def st_def [symmetric] Let_def)
  have rt: "Init_from_bytes psize packet = Some ?m" "length packet = init_size psize"
    unfolding packet using o1(2,3) o2(2,3) assms(2) crypto_okD(3) [OF ok]
    by (auto intro!: Init_roundtrip)
  show "Received_new C psize packet pro (keypair C r) =
           Some (\<lparr>rh_state = sh_state sh, peer_ephemeral_pub = x25519_public C e,
                  peer_static_pub = x25519_public C s\<rparr>, pl)"
    using rt(1) o1(1) o2(1) by (simp add: Received_new_def st_def [symmetric] sh)
  show "my_ephemeral sh = e" by (simp add: sh)
  show "length packet = init_size psize" by (rule rt(2))
qed

lemma IKpsk2_response_finishes:
  assumes ok: "crypto_ok C"
    and fin: "Received_finish C \<lparr>rh_state = st, peer_ephemeral_pub = x25519_public C e,
                peer_static_pub = x25519_public C s\<rparr> psk (keypair C f) = (packet, sess)"
  shows "try_finish C \<lparr>sh_state = st, my_ephemeral = e\<rparr> packet (keypair C s) psk =
           Inr \<lparr>send_key = recv_key sess, recv_key = send_key sess\<rparr>"
    and "length packet = resp_size"
proof -
  define sa where "sa = mix_psk C psk (mix_dh_aead C f (x25519_public C s)
     (mix_dh C f (x25519_public C e) (mix_hash_and_key C (x25519_public C f) st)))"
  have sa': "sa = mix_psk C psk (mix_dh_aead C s (x25519_public C f)
     (mix_dh C e (x25519_public C f) (mix_hash_and_key C (x25519_public C f) st)))"
    unfolding sa_def mix_dh_aead_def mix_dh_agree [OF ok, of f] ..
  obtain c t st' where s: "seal C [] sa = (c, t, st')" by (metis surj_pair)
  let ?m = "\<lparr>resp_ephemeral_pub = x25519_public C f, auth_tag = t\<rparr>"
  from fin s have packet: "packet = Resp_bytes ?m" and sess: "sess = finish_as_responder C st'"
    by (auto simp: Received_finish_def sa_def [symmetric] Let_def)
  have rt: "Resp_from_bytes packet = Some ?m" "length packet = resp_size"
    unfolding packet using open_seal(3) [OF ok s] crypto_okD(3) [OF ok]
    by (auto intro!: Resp_roundtrip)
  show "try_finish C \<lparr>sh_state = st, my_ephemeral = e\<rparr> packet (keypair C s) psk =
           Inr \<lparr>send_key = recv_key sess, recv_key = send_key sess\<rparr>"
    using rt(1) open_seal_empty [OF ok s]
    by (simp add: try_finish_def sa' [symmetric] Let_def sess finish_as_initiator_def finish_as_responder_def)
  show "length packet = resp_size" by (rule rt(2))
qed

lemma IK_init_received:
  assumes ok: "crypto_ok C"
    and sent: "IK_Sent_new C (keypair C s) (keypair C e) (x25519_public C r) pro = (sh, packet)"
  shows "IK_Received_new C packet pro (keypair C r) =
           Some \<lparr>rh_state = sh_state sh, peer_ephemeral_pub = x25519_public C e,
                 peer_static_pub = x25519_public C s\<rparr>"
    and "my_ephemeral sh = e" and "length packet = init_size 0"
proof -
  define st where "st = mix_hash C (x25519_public C e)
    (mix_hash C (x25519_public C r) (mix_hash C pro (State_new C PROTOCOL_IK)))"
  obtain c t st1 where s1: "seal C (x25519_public C s) (mix_dh C e (x25519_public C r) st) = (c, t, st1)"
    by (metis surj_pair)
  obtain c' t' st2 where s2: "seal C [] (mix_dh C s (x25519_public C r) st1) = (c', t', st2)"
    by (metis surj_pair)
  let ?m = "\<lparr>ephemeral_pub = x25519_public C e, static_pub = c, static_pub_tag = t,
     payload = [], payload_tag = t'\<rparr>"
  note o1 = open_seal [OF ok s1, unfolded mix_dh_agree [OF ok, of e r]]
  note o2 = open_seal_empty [OF ok s2, unfolded mix_dh_agree [OF ok, of s r]]
  from sent s1 s2 have sh: "sh = \<lparr>sh_state = st2, my_ephemeral = e\<rparr>" and packet: "packet = Init_bytes ?m"
    by (auto simp: IK_Sent_new_def st_def [symmetric] Let_def)
  have rt: "Init_from_bytes 0 packet = Some ?m" "length packet = init_size 0"
    unfolding packet using o1(2,3) open_seal(3) [OF ok s2] crypto_okD(3) [OF ok]
    by (auto intro!: Init_roundtrip)
  show "IK_Received_new C packet pro (keypair C r) =
           Some \<lparr>rh_state = sh_state sh, peer_ephemeral_pub = x25519_public C e,
                 peer_static_pub = x25519_public C s\<rparr>"
    using rt(1) o1(1) o2 by (simp add: IK_Received_new_def st_def [symmetric] sh)
  show "my_ephemeral sh = e" by (simp add: sh)
  show "length packet = init_size 0" by (rule rt(2))
qed

lemma IK_response_finishes:
  assumes ok: "crypto_ok C"
    and fin: "IK_Received_finish C \<lparr>rh_state = st, peer_ephemeral_pub = x25519_public C e,
                peer_static_pub = x25519_public C s\<rparr> (keypair C f) = (packet, sess)"
  shows "IK_try_finish C \<lparr>sh_state = st, my_ephemeral = e\<rparr> packet (keypair C s) =
           Inr \<lparr>send_key = recv_key sess, recv_key = send_key sess\<rparr>"
proof -
  define sa where "sa = mix_dh_aead C f (x25519_public C s)
     (mix_dh C f (x25519_public C e) (mix_hash C (x25519_public C f) st))"
  have sa': "sa = mix_dh_aead C s (x25519_public C f)
     (mix_dh C e (x25519_public C f) (mix_hash C (x25519_public C f) st))"
    unfolding sa_def mix_dh_aead_def mix_dh_agree [OF ok, of f] ..
  obtain c t st' where s: "seal C [] sa = (c, t, st')" by (metis surj_pair)
  let ?m = "\<lparr>resp_ephemeral_pub = x25519_public C f, auth_tag = t\<rparr>"
  from fin s have packet: "packet = Resp_bytes ?m" and sess: "sess = finish_as_responder C st'"
    by (auto simp: IK_Received_finish_def sa_def [symmetric] Let_def)
  have "Resp_from_bytes packet = Some ?m"
    unfolding packet using open_seal(3) [OF ok s] crypto_okD(3) [OF ok]
    by (auto intro!: Resp_roundtrip)
  then show ?thesis
    using open_seal_empty [OF ok s]
    by (simp add: IK_try_finish_def sa' [symmetric] Let_def sess finish_as_initiator_def finish_as_responder_def)
qed

text \<open>
  C16. A complete IKpsk2 handshake between two honest parties with the same pre-shared key and
  prologue succeeds at every step: the responder accepts the initiation, learns exactly the
  initiator's static public key and payload, and the initiator accepts the response and ends with
  the responder's session keys mirrored.
\<close>

theorem IKpsk2_agreement:
  assumes "crypto_ok C" and "length pl = psize"
  shows "let (sh, init) = Sent_new C (keypair C s) (keypair C e) (x25519_public C r) pro pl
         in \<exists>rh. Received_new C psize init pro (keypair C r) = Some (rh, pl) \<and>
              peer_static_pub rh = x25519_public C s \<and>
              (let (resp, sess) = Received_finish C rh psk (keypair C f)
               in try_finish C sh resp (keypair C s) psk =
                    Inr \<lparr>send_key = recv_key sess, recv_key = send_key sess\<rparr>)"
proof -
  obtain sh init where sent: "Sent_new C (keypair C s) (keypair C e) (x25519_public C r) pro pl = (sh, init)"
    by fastforce
  let ?rh = "\<lparr>rh_state = sh_state sh, peer_ephemeral_pub = x25519_public C e,
     peer_static_pub = x25519_public C s\<rparr>"
  obtain resp sess where fin: "Received_finish C ?rh psk (keypair C f) = (resp, sess)" by fastforce
  note recv = IKpsk2_init_received [OF assms sent]
  have "sh = \<lparr>sh_state = sh_state sh, my_ephemeral = e\<rparr>" using recv(2) by simp
  with IKpsk2_response_finishes(1) [OF assms(1) fin] recv(1) sent fin show ?thesis by simp
qed

theorem IKpsk2_agreement_witness:
  "let (sh, init) = Sent_new sample_crypto (keypair sample_crypto [1, 2]) (keypair sample_crypto [3])
        (x25519_public sample_crypto [4, 5]) [9] [7, 8]
   in \<exists>rh. Received_new sample_crypto 2 init [9] (keypair sample_crypto [4, 5]) = Some (rh, [7, 8]) \<and>
        peer_static_pub rh = x25519_public sample_crypto [1, 2] \<and>
        (let (resp, sess) = Received_finish sample_crypto rh [6] (keypair sample_crypto [10])
         in try_finish sample_crypto sh resp (keypair sample_crypto [1, 2]) [6] =
              Inr \<lparr>send_key = recv_key sess, recv_key = send_key sess\<rparr>)"
  by (rule IKpsk2_agreement [OF sample_crypto_ok]) simp

text \<open>
  The same for the IK handshake of the control protocol: both sides of an honest run accept,
  the responder learns the initiator's static key, and the session keys are mirrored.
\<close>

theorem IK_agreement:
  assumes "crypto_ok C"
  shows "let (sh, init) = IK_Sent_new C (keypair C s) (keypair C e) (x25519_public C r) pro
         in \<exists>rh. IK_Received_new C init pro (keypair C r) = Some rh \<and>
              peer_static_pub rh = x25519_public C s \<and>
              (let (resp, sess) = IK_Received_finish C rh (keypair C f)
               in IK_try_finish C sh resp (keypair C s) =
                    Inr \<lparr>send_key = recv_key sess, recv_key = send_key sess\<rparr>)"
proof -
  obtain sh init where sent: "IK_Sent_new C (keypair C s) (keypair C e) (x25519_public C r) pro = (sh, init)"
    by fastforce
  let ?rh = "\<lparr>rh_state = sh_state sh, peer_ephemeral_pub = x25519_public C e,
     peer_static_pub = x25519_public C s\<rparr>"
  obtain resp sess where fin: "IK_Received_finish C ?rh (keypair C f) = (resp, sess)" by fastforce
  note recv = IK_init_received [OF assms sent]
  have "sh = \<lparr>sh_state = sh_state sh, my_ephemeral = e\<rparr>" using recv(2) by simp
  with IK_response_finishes [OF assms fin] recv(1) sent fin show ?thesis by simp
qed

theorem IK_agreement_witness:
  "let (sh, init) = IK_Sent_new sample_crypto (keypair sample_crypto [1, 2]) (keypair sample_crypto [3])
        (x25519_public sample_crypto [4, 5]) [9]
   in \<exists>rh. IK_Received_new sample_crypto init [9] (keypair sample_crypto [4, 5]) = Some rh \<and>
        peer_static_pub rh = x25519_public sample_crypto [1, 2] \<and>
        (let (resp, sess) = IK_Received_finish sample_crypto rh (keypair sample_crypto [10])
         in IK_try_finish sample_crypto sh resp (keypair sample_crypto [1, 2]) =
              Inr \<lparr>send_key = recv_key sess, recv_key = send_key sess\<rparr>)"
  by (rule IK_agreement [OF sample_crypto_ok])

end
