(* ===== verification/Wg_Messages.thy ===== *)
theory Wg_Messages
  imports Prelude Noise
begin

text \<open>
  The WireGuard wire messages of \<open>wireguard/messages.rs\<close>: fixed layouts with little-endian
  integers, the dispatch on the type byte and the receiver id.  A packed struct is a record, its
  \<open>IntoBytes\<close> image the concatenation of its fields, and \<open>try_ref_from_bytes\<close> (or
  \<open>_prefix\<close>) a parser.  Shared and mutable views of a packet parse alike.
\<close>

type_synonym SessionId = u32

datatype MessageType = HandshakeInitiation_t | HandshakeResponse_t | CookieReply_t | TransportData_t

fun MessageType_code :: "MessageType \<Rightarrow> u8" where
  "MessageType_code HandshakeInitiation_t = 1"
| "MessageType_code HandshakeResponse_t = 2"
| "MessageType_code CookieReply_t = 3"
| "MessageType_code TransportData_t = 4"

definition MessageType_try_from_prefix :: "bytes \<Rightarrow> MessageType option" where
  "MessageType_try_from_prefix raw =
     (case raw of
        [] \<Rightarrow> None
      | b # _ \<Rightarrow>
          if b = 1 then Some HandshakeInitiation_t else if b = 2 then Some HandshakeResponse_t
          else if b = 3 then Some CookieReply_t else if b = 4 then Some TransportData_t else None)"

record HandshakeInitiation =
  hi_msg_type :: MessageType
  hi_reserved :: bytes
  hi_sender_id :: SessionId
  hi_noise :: bytes
  hi_mac1 :: bytes
  hi_mac2 :: bytes

record HandshakeResponse =
  hr_msg_type :: MessageType
  hr_reserved :: bytes
  hr_sender_id :: SessionId
  hr_receiver_id :: SessionId
  hr_noise :: bytes
  hr_mac1 :: bytes
  hr_mac2 :: bytes

record TransportDataHeader =
  td_msg_type :: MessageType
  td_reserved :: bytes
  td_receiver_id :: SessionId
  td_nonce :: u64

record CookieReply =
  cr_msg_type :: MessageType
  cr_reserved :: bytes
  cr_receiver_id :: SessionId
  cr_nonce :: bytes
  cr_cookie_sealed :: bytes

definition HandshakeInitiation_default :: HandshakeInitiation where
  "HandshakeInitiation_default =
     \<lparr>hi_msg_type = HandshakeInitiation_t, hi_reserved = replicate 3 0, hi_sender_id = 0,
      hi_noise = replicate (init_size 12) 0, hi_mac1 = replicate 16 0, hi_mac2 = replicate 16 0\<rparr>"

definition HandshakeResponse_default :: HandshakeResponse where
  "HandshakeResponse_default =
     \<lparr>hr_msg_type = HandshakeResponse_t, hr_reserved = replicate 3 0, hr_sender_id = 0, hr_receiver_id = 0,
      hr_noise = replicate resp_size 0, hr_mac1 = replicate 16 0, hr_mac2 = replicate 16 0\<rparr>"

definition TransportDataHeader_default :: TransportDataHeader where
  "TransportDataHeader_default =
     \<lparr>td_msg_type = TransportData_t, td_reserved = replicate 3 0, td_receiver_id = 0, td_nonce = 0\<rparr>"

definition CookieReply_default :: CookieReply where
  "CookieReply_default =
     \<lparr>cr_msg_type = TransportData_t, cr_reserved = replicate 3 0, cr_receiver_id = 0,
      cr_nonce = replicate 24 0, cr_cookie_sealed = replicate 32 0\<rparr>"

section \<open>Layouts\<close>

definition HandshakeInitiation_bytes :: "HandshakeInitiation \<Rightarrow> bytes" where
  "HandshakeInitiation_bytes m =
     [MessageType_code (hi_msg_type m)] @ hi_reserved m @ to_le 4 (hi_sender_id m) @ hi_noise m @
     hi_mac1 m @ hi_mac2 m"

definition HandshakeInitiation_from_bytes :: "bytes \<Rightarrow> HandshakeInitiation option" where
  "HandshakeInitiation_from_bytes raw =
     (if length raw \<noteq> 148 then None
      else map_option (\<lambda>t.
        \<lparr>hi_msg_type = t, hi_reserved = field 1 3 raw, hi_sender_id = of_le (field 4 4 raw),
         hi_noise = field 8 108 raw, hi_mac1 = field 116 16 raw, hi_mac2 = field 132 16 raw\<rparr>)
        (MessageType_try_from_prefix raw))"

definition HandshakeResponse_bytes :: "HandshakeResponse \<Rightarrow> bytes" where
  "HandshakeResponse_bytes m =
     [MessageType_code (hr_msg_type m)] @ hr_reserved m @ to_le 4 (hr_sender_id m) @
     to_le 4 (hr_receiver_id m) @ hr_noise m @ hr_mac1 m @ hr_mac2 m"

definition HandshakeResponse_from_bytes :: "bytes \<Rightarrow> HandshakeResponse option" where
  "HandshakeResponse_from_bytes raw =
     (if length raw \<noteq> 92 then None
      else map_option (\<lambda>t.
        \<lparr>hr_msg_type = t, hr_reserved = field 1 3 raw, hr_sender_id = of_le (field 4 4 raw),
         hr_receiver_id = of_le (field 8 4 raw), hr_noise = field 12 48 raw,
         hr_mac1 = field 60 16 raw, hr_mac2 = field 76 16 raw\<rparr>)
        (MessageType_try_from_prefix raw))"

definition TransportDataHeader_bytes :: "TransportDataHeader \<Rightarrow> bytes" where
  "TransportDataHeader_bytes m =
     [MessageType_code (td_msg_type m)] @ td_reserved m @ to_le 4 (td_receiver_id m) @ to_le 8 (td_nonce m)"

definition TransportDataHeader_from_prefix :: "bytes \<Rightarrow> TransportDataHeader option" where
  "TransportDataHeader_from_prefix raw =
     (if length raw < 16 then None
      else map_option (\<lambda>t.
        \<lparr>td_msg_type = t, td_reserved = field 1 3 raw, td_receiver_id = of_le (field 4 4 raw),
         td_nonce = of_le (field 8 8 raw)\<rparr>)
        (MessageType_try_from_prefix raw))"

definition CookieReply_bytes :: "CookieReply \<Rightarrow> bytes" where
  "CookieReply_bytes m =
     [MessageType_code (cr_msg_type m)] @ cr_reserved m @ to_le 4 (cr_receiver_id m) @ cr_nonce m @
     cr_cookie_sealed m"

definition CookieReply_from_bytes :: "bytes \<Rightarrow> CookieReply option" where
  "CookieReply_from_bytes raw =
     (if length raw \<noteq> 64 then None
      else map_option (\<lambda>t.
        \<lparr>cr_msg_type = t, cr_reserved = field 1 3 raw, cr_receiver_id = of_le (field 4 4 raw),
         cr_nonce = field 8 24 raw, cr_cookie_sealed = field 32 32 raw\<rparr>)
        (MessageType_try_from_prefix raw))"

datatype Message =
    HandshakeInitiation_m HandshakeInitiation
  | HandshakeResponse_m HandshakeResponse
  | TransportDataHeader_m TransportDataHeader
  | CookieReply_m CookieReply

definition Message_try_from :: "bytes \<Rightarrow> Message option" where
  "Message_try_from raw =
     (case MessageType_try_from_prefix raw of
        None \<Rightarrow> None
      | Some HandshakeInitiation_t \<Rightarrow> map_option HandshakeInitiation_m (HandshakeInitiation_from_bytes raw)
      | Some HandshakeResponse_t \<Rightarrow> map_option HandshakeResponse_m (HandshakeResponse_from_bytes raw)
      | Some TransportData_t \<Rightarrow> map_option TransportDataHeader_m (TransportDataHeader_from_prefix raw)
      | Some CookieReply_t \<Rightarrow> map_option CookieReply_m (CookieReply_from_bytes raw))"

fun receiver_id :: "Message \<Rightarrow> SessionId option" where
  "receiver_id (HandshakeInitiation_m _) = None"
| "receiver_id (HandshakeResponse_m resp) = Some (hr_receiver_id resp)"
| "receiver_id (TransportDataHeader_m data) = Some (td_receiver_id data)"
| "receiver_id (CookieReply_m cookie) = Some (cr_receiver_id cookie)"

section \<open>Parsing inverts printing\<close>

lemma MessageType_prefix_Cons [simp]: "MessageType_try_from_prefix (MessageType_code t # bs) = Some t"
  by (cases t) (simp_all add: MessageType_try_from_prefix_def)

lemma MessageType_prefix_num [simp]:
  "MessageType_try_from_prefix (1 # bs) = Some HandshakeInitiation_t"
  "MessageType_try_from_prefix (2 # bs) = Some HandshakeResponse_t"
  "MessageType_try_from_prefix (3 # bs) = Some CookieReply_t"
  "MessageType_try_from_prefix (4 # bs) = Some TransportData_t"
  by (simp_all add: MessageType_try_from_prefix_def)

lemma MessageType_prefixE:
  assumes "MessageType_try_from_prefix raw = Some t"
  obtains bs where "raw = MessageType_code t # bs"
  using assms by (auto simp: MessageType_try_from_prefix_def split: list.splits if_splits)

lemma MessageType_field:
  assumes "MessageType_try_from_prefix raw = Some t"
  shows "MessageType_code t # field (Suc 0) n raw = field 0 (Suc n) raw"
  using assms by (auto elim!: MessageType_prefixE simp: field_def)

lemma to_le_field:
  "off + 4 \<le> length raw \<Longrightarrow> to_le 4 (of_le (field off 4 raw) :: u32) = field off 4 raw"
  "off + 8 \<le> length raw \<Longrightarrow> to_le 8 (of_le (field off 8 raw) :: u64) = field off 8 raw"
  using to_le_of_le [where 'a = 32, of "field off 4 raw"] to_le_of_le [where 'a = 64, of "field off 8 raw"]
  by simp_all

lemma field_join3: "off' = off + n \<Longrightarrow> field off n bs @ field off' m bs @ r = field off (n + m) bs @ r"
  by (simp add: field_join flip: append_assoc)

lemma field_whole [simp]: "field 0 (length bs) bs = bs"
  by (simp add: field_def)

lemmas layout = field_join field_join3 to_le_field

definition hi_sized :: "HandshakeInitiation \<Rightarrow> bool" where
  "hi_sized m \<longleftrightarrow> length (hi_reserved m) = 3 \<and> length (hi_noise m) = 108 \<and>
     length (hi_mac1 m) = 16 \<and> length (hi_mac2 m) = 16"

definition hr_sized :: "HandshakeResponse \<Rightarrow> bool" where
  "hr_sized m \<longleftrightarrow> length (hr_reserved m) = 3 \<and> length (hr_noise m) = 48 \<and>
     length (hr_mac1 m) = 16 \<and> length (hr_mac2 m) = 16"

definition td_sized :: "TransportDataHeader \<Rightarrow> bool" where
  "td_sized m \<longleftrightarrow> length (td_reserved m) = 3"

definition cr_sized :: "CookieReply \<Rightarrow> bool" where
  "cr_sized m \<longleftrightarrow> length (cr_reserved m) = 3 \<and> length (cr_nonce m) = 24 \<and> length (cr_cookie_sealed m) = 32"

lemma HandshakeInitiation_layout:
  "HandshakeInitiation_from_bytes raw = Some m \<longleftrightarrow> hi_sized m \<and> raw = HandshakeInitiation_bytes m"
proof
  assume p: "HandshakeInitiation_from_bytes raw = Some m"
  then obtain t where t: "MessageType_try_from_prefix raw = Some t" and len: "length raw = 148"
    by (auto simp: HandshakeInitiation_from_bytes_def split: if_splits)
  with p have m: "m = \<lparr>hi_msg_type = t, hi_reserved = field 1 3 raw, hi_sender_id = of_le (field 4 4 raw),
         hi_noise = field 8 108 raw, hi_mac1 = field 116 16 raw, hi_mac2 = field 132 16 raw\<rparr>"
    by (simp add: HandshakeInitiation_from_bytes_def)
  have "HandshakeInitiation_bytes m = raw"
    using len by (simp add: m HandshakeInitiation_bytes_def layout MessageType_field [OF t])
  then show "hi_sized m \<and> raw = HandshakeInitiation_bytes m"
    using len by (simp add: m hi_sized_def)
next
  assume "hi_sized m \<and> raw = HandshakeInitiation_bytes m"
  then show "HandshakeInitiation_from_bytes raw = Some m"
    by (simp add: hi_sized_def HandshakeInitiation_from_bytes_def HandshakeInitiation_bytes_def)
qed

lemma HandshakeResponse_layout:
  "HandshakeResponse_from_bytes raw = Some m \<longleftrightarrow> hr_sized m \<and> raw = HandshakeResponse_bytes m"
proof
  assume p: "HandshakeResponse_from_bytes raw = Some m"
  then obtain t where t: "MessageType_try_from_prefix raw = Some t" and len: "length raw = 92"
    by (auto simp: HandshakeResponse_from_bytes_def split: if_splits)
  with p have m: "m = \<lparr>hr_msg_type = t, hr_reserved = field 1 3 raw, hr_sender_id = of_le (field 4 4 raw),
         hr_receiver_id = of_le (field 8 4 raw), hr_noise = field 12 48 raw,
         hr_mac1 = field 60 16 raw, hr_mac2 = field 76 16 raw\<rparr>"
    by (simp add: HandshakeResponse_from_bytes_def)
  have "HandshakeResponse_bytes m = raw"
    using len by (simp add: m HandshakeResponse_bytes_def layout MessageType_field [OF t])
  then show "hr_sized m \<and> raw = HandshakeResponse_bytes m"
    using len by (simp add: m hr_sized_def)
next
  assume "hr_sized m \<and> raw = HandshakeResponse_bytes m"
  then show "HandshakeResponse_from_bytes raw = Some m"
    by (simp add: hr_sized_def HandshakeResponse_from_bytes_def HandshakeResponse_bytes_def)
qed

lemma TransportDataHeader_layout:
  "TransportDataHeader_from_prefix raw = Some m \<longleftrightarrow>
     td_sized m \<and> (\<exists>body. raw = TransportDataHeader_bytes m @ body)"
proof
  assume p: "TransportDataHeader_from_prefix raw = Some m"
  then obtain t where t: "MessageType_try_from_prefix raw = Some t" and len: "16 \<le> length raw"
    by (auto simp: TransportDataHeader_from_prefix_def split: if_splits)
  with p have m: "m = \<lparr>td_msg_type = t, td_reserved = field 1 3 raw, td_receiver_id = of_le (field 4 4 raw),
         td_nonce = of_le (field 8 8 raw)\<rparr>"
    by (simp add: TransportDataHeader_from_prefix_def)
  have "TransportDataHeader_bytes m = field 0 16 raw"
    using len by (simp add: m TransportDataHeader_bytes_def layout MessageType_field [OF t])
  then have "raw = TransportDataHeader_bytes m @ drop 16 raw" by (simp add: field_def)
  then show "td_sized m \<and> (\<exists>body. raw = TransportDataHeader_bytes m @ body)"
    using len by (auto simp: m td_sized_def)
next
  assume "td_sized m \<and> (\<exists>body. raw = TransportDataHeader_bytes m @ body)"
  then show "TransportDataHeader_from_prefix raw = Some m"
    by (auto simp: td_sized_def TransportDataHeader_from_prefix_def TransportDataHeader_bytes_def)
qed

lemma CookieReply_layout:
  "CookieReply_from_bytes raw = Some m \<longleftrightarrow> cr_sized m \<and> raw = CookieReply_bytes m"
proof
  assume p: "CookieReply_from_bytes raw = Some m"
  then obtain t where t: "MessageType_try_from_prefix raw = Some t" and len: "length raw = 64"
    by (auto simp: CookieReply_from_bytes_def split: if_splits)
  with p have m: "m = \<lparr>cr_msg_type = t, cr_reserved = field 1 3 raw, cr_receiver_id = of_le (field 4 4 raw),
         cr_nonce = field 8 24 raw, cr_cookie_sealed = field 32 32 raw\<rparr>"
    by (simp add: CookieReply_from_bytes_def)
  have "CookieReply_bytes m = raw"
    using len by (simp add: m CookieReply_bytes_def layout MessageType_field [OF t])
  then show "cr_sized m \<and> raw = CookieReply_bytes m"
    using len by (simp add: m cr_sized_def)
next
  assume "cr_sized m \<and> raw = CookieReply_bytes m"
  then show "CookieReply_from_bytes raw = Some m"
    by (simp add: cr_sized_def CookieReply_from_bytes_def CookieReply_bytes_def)
qed

fun Message_bytes :: "Message \<Rightarrow> bytes" where
  "Message_bytes (HandshakeInitiation_m m) = HandshakeInitiation_bytes m"
| "Message_bytes (HandshakeResponse_m m) = HandshakeResponse_bytes m"
| "Message_bytes (TransportDataHeader_m m) = TransportDataHeader_bytes m"
| "Message_bytes (CookieReply_m m) = CookieReply_bytes m"

text \<open>A message whose type byte is that of its struct and whose arrays have their sizes.\<close>

fun message_wf :: "Message \<Rightarrow> bool" where
  "message_wf (HandshakeInitiation_m m) = (hi_msg_type m = HandshakeInitiation_t \<and> hi_sized m)"
| "message_wf (HandshakeResponse_m m) = (hr_msg_type m = HandshakeResponse_t \<and> hr_sized m)"
| "message_wf (TransportDataHeader_m m) = (td_msg_type m = TransportData_t \<and> td_sized m)"
| "message_wf (CookieReply_m m) = (cr_msg_type m = CookieReply_t \<and> cr_sized m)"

fun is_transport :: "Message \<Rightarrow> bool" where
  "is_transport (TransportDataHeader_m _) = True"
| "is_transport _ = False"

text \<open>
  C28. Parsing and printing WireGuard messages are inverse to each other: a packet parses to a
  message exactly if it is that message's bytes, the message has the type byte of its struct and
  arrays of the right sizes, and only transport data carries a body after its header.  Any other
  packet is rejected.
\<close>

theorem Message_parse_print:
  "Message_try_from raw = Some m \<longleftrightarrow>
     message_wf m \<and> (\<exists>body. raw = Message_bytes m @ body \<and> (body = [] \<or> is_transport m))"
proof (cases "MessageType_try_from_prefix raw")
  case None
  have "raw \<noteq> Message_bytes m @ body" for body
  proof
    assume "raw = Message_bytes m @ body"
    with None show False
      by (cases m) (simp_all add: HandshakeInitiation_bytes_def HandshakeResponse_bytes_def
          TransportDataHeader_bytes_def CookieReply_bytes_def)
  qed
  with None show ?thesis by (simp add: Message_try_from_def)
next
  case (Some t)
  have "Message_try_from raw = Some m \<longleftrightarrow>
     (case m of
        HandshakeInitiation_m h \<Rightarrow> t = HandshakeInitiation_t \<and> HandshakeInitiation_from_bytes raw = Some h
      | HandshakeResponse_m h \<Rightarrow> t = HandshakeResponse_t \<and> HandshakeResponse_from_bytes raw = Some h
      | TransportDataHeader_m h \<Rightarrow> t = TransportData_t \<and> TransportDataHeader_from_prefix raw = Some h
      | CookieReply_m h \<Rightarrow> t = CookieReply_t \<and> CookieReply_from_bytes raw = Some h)"
    using Some by (cases t; cases m) (auto simp: Message_try_from_def)
  also have "\<dots> \<longleftrightarrow> message_wf m \<and> (\<exists>body. raw = Message_bytes m @ body \<and> (body = [] \<or> is_transport m))"
    unfolding HandshakeInitiation_layout HandshakeResponse_layout TransportDataHeader_layout CookieReply_layout
    using Some
    by (cases m) (auto simp: HandshakeInitiation_bytes_def HandshakeResponse_bytes_def
          TransportDataHeader_bytes_def CookieReply_bytes_def)
  finally show ?thesis .
qed

lemma Message_try_from_transport [simp]:
  assumes "td_msg_type h = TransportData_t" and "td_sized h"
  shows "Message_try_from (TransportDataHeader_bytes h @ body) = Some (TransportDataHeader_m h)"
proof -
  have "TransportDataHeader_from_prefix (TransportDataHeader_bytes h @ body) = Some h"
    unfolding TransportDataHeader_layout using assms by blast
  then show ?thesis using assms by (simp add: Message_try_from_def TransportDataHeader_bytes_def)
qed

lemma Message_try_from_initiation [simp]:
  assumes "hi_msg_type h = HandshakeInitiation_t" and "hi_sized h"
  shows "Message_try_from (HandshakeInitiation_bytes h) = Some (HandshakeInitiation_m h)"
proof -
  have "HandshakeInitiation_from_bytes (HandshakeInitiation_bytes h) = Some h"
    unfolding HandshakeInitiation_layout using assms by blast
  then show ?thesis using assms by (simp add: Message_try_from_def HandshakeInitiation_bytes_def)
qed

lemma Message_try_from_response [simp]:
  assumes "hr_msg_type h = HandshakeResponse_t" and "hr_sized h"
  shows "Message_try_from (HandshakeResponse_bytes h) = Some (HandshakeResponse_m h)"
proof -
  have "HandshakeResponse_from_bytes (HandshakeResponse_bytes h) = Some h"
    unfolding HandshakeResponse_layout using assms by blast
  then show ?thesis using assms by (simp add: Message_try_from_def HandshakeResponse_bytes_def)
qed

text \<open>
  The \<open>Default\<close> of \<open>CookieReply\<close> carries the transport data type byte, so its own bytes do
  not parse as a cookie reply.
\<close>

theorem CookieReply_default_is_not_a_cookie:
  "Message_try_from (CookieReply_bytes CookieReply_default) =
     Some (TransportDataHeader_m TransportDataHeader_default)"
  by code_simp

end
