(* ===== verification/Replay_Window.thy ===== *)
theory Replay_Window
  imports Prelude
begin

text \<open>
  The RFC 6479 replay window of \<open>ts_tunnel/src/wireguard/replay.rs\<close>: a ring of four 64-bit
  blocks addressed by masking the counter.  The theory models the operations on machine words,
  relates a window to the set of counters accepted so far, and shows that the ring implements
  the abstract sliding window: a counter is accepted exactly when it is new and no older than
  the window, and marking an accepted counter never panics.
\<close>

section \<open>The model\<close>

record ReplayWindow =
  rw_last :: u64
  rw_blocks :: "u64 list"

definition TOTAL_BITS :: u64 where "TOTAL_BITS = 256"
definition N_BLOCKS :: u64 where "N_BLOCKS = TOTAL_BITS div 64"
definition BIT_IDX_BITMASK :: u64 where "BIT_IDX_BITMASK = 64 - 1"
definition BIT_IDX_SHIFT :: nat where "BIT_IDX_SHIFT = 6"
definition BLOCK_IDX_BITMASK :: u64 where "BLOCK_IDX_BITMASK = N_BLOCKS - 1"
definition WINDOW_SIZE :: u64 where "WINDOW_SIZE = (N_BLOCKS - 1) * 64"

lemmas rw_consts = TOTAL_BITS_def N_BLOCKS_def BIT_IDX_BITMASK_def BIT_IDX_SHIFT_def
  BLOCK_IDX_BITMASK_def WINDOW_SIZE_def

definition ReplayWindow_default :: ReplayWindow where
  "ReplayWindow_default = \<lparr>rw_last = 0, rw_blocks = replicate (unat N_BLOCKS) 0\<rparr>"

definition smallest_valid :: "ReplayWindow \<Rightarrow> u64" where
  "smallest_valid w = saturating_sub (rw_last w) (WINDOW_SIZE - 1)"

definition block_idx_unbounded :: "u64 \<Rightarrow> u64" where
  "block_idx_unbounded counter = drop_bit BIT_IDX_SHIFT counter"

definition bit_idx :: "u64 \<Rightarrow> u64" where
  "bit_idx counter = counter AND BIT_IDX_BITMASK"

definition block_idx_and_bit_mask :: "u64 \<Rightarrow> nat \<times> u64" where
  "block_idx_and_bit_mask counter =
     (let block_idx = block_idx_unbounded counter AND BLOCK_IDX_BITMASK
      in (unat block_idx, push_bit (unat (bit_idx counter)) 1))"

definition ReplayWindow_check :: "ReplayWindow \<Rightarrow> u64 \<Rightarrow> bool" where
  "ReplayWindow_check w counter =
     (if rw_last w < counter then True
      else if counter < smallest_valid w then False
      else let (block_idx, bit_mask) = block_idx_and_bit_mask counter
           in (rw_blocks w ! block_idx) AND bit_mask = 0)"

datatype replay_panic = SetTooOld u64 u64 | SetTwice u64

text \<open>\<open>for i in cur_block..new_block\<close>: zero the block after each index of the range.\<close>

fun zero_blocks :: "u64 list \<Rightarrow> nat list \<Rightarrow> u64 list" where
  "zero_blocks bs [] = bs"
| "zero_blocks bs (i # is) =
     (let idx = (of_nat i + 1) AND BLOCK_IDX_BITMASK in zero_blocks (bs[unat idx := 0]) is)"

text \<open>The block of \<open>set\<close> that slides the window forward.\<close>

definition advance :: "ReplayWindow \<Rightarrow> u64 \<Rightarrow> ReplayWindow" where
  "advance w counter =
     (if rw_last w < counter then
        let cur_block = block_idx_unbounded (rw_last w);
            new_block = block_idx_unbounded counter;
            delta = new_block - cur_block
        in \<lparr>rw_last = counter,
            rw_blocks = (if N_BLOCKS \<le> delta then replicate (unat N_BLOCKS) 0
                         else zero_blocks (rw_blocks w) [unat cur_block..<unat new_block])\<rparr>
      else w)"

definition ReplayWindow_set :: "ReplayWindow \<Rightarrow> u64 \<Rightarrow> replay_panic + ReplayWindow" where
  "ReplayWindow_set w counter =
     (if counter < smallest_valid w then Inl (SetTooOld counter (smallest_valid w))
      else
        let w1 = advance w counter;
            (block_idx, bit_mask) = block_idx_and_bit_mask counter;
            block = rw_blocks w1 ! block_idx
        in if block AND bit_mask \<noteq> 0 then Inl (SetTwice counter)
           else Inr (w1\<lparr>rw_blocks := (rw_blocks w1)[block_idx := block OR bit_mask]\<rparr>))"

definition check_and_set :: "ReplayWindow \<Rightarrow> u64 \<Rightarrow> replay_panic + bool \<times> ReplayWindow" where
  "check_and_set w counter =
     (let accept = ReplayWindow_check w counter
      in if accept then bind_res (ReplayWindow_set w counter) (\<lambda>w'. Inr (accept, w'))
         else Inr (accept, w))"

section \<open>Reading the ring as natural numbers\<close>

lemma unat_and_consts [simp]:
  "unat (x AND 63 :: u64) = unat x mod 64"
  "unat (x AND 3 :: u64) = unat x mod 4"
  using unat_and_mask [of x 6] unat_and_mask [of x 2] by (simp_all add: mask_eq_exp_minus_1)

lemma unat_block [simp]: "unat (block_idx_unbounded c) = unat c div 64"
  by (simp add: block_idx_unbounded_def rw_consts unat_drop_bit)

lemma unat_bit_idx [simp]: "unat (bit_idx c) = unat c mod 64"
  by (simp add: bit_idx_def rw_consts)

lemma block_idx_and_bit_mask_eq:
  "block_idx_and_bit_mask c = (unat c div 64 mod 4, push_bit (unat c mod 64) 1)"
  by (simp add: block_idx_and_bit_mask_def rw_consts)

lemma unat_smallest_valid: "unat (smallest_valid w) = unat (rw_last w) - 191"
  by (simp add: smallest_valid_def unat_saturating_sub rw_consts)

lemma zero_blocks_nth:
  assumes "length bs = 4" and "k < 4" and "\<forall>i\<in>set is. i + 1 < 2 ^ 64"
  shows "zero_blocks bs is ! k = (if \<exists>i\<in>set is. (i + 1) mod 4 = k then 0 else bs ! k)"
  using assms
proof (induction "is" arbitrary: bs)
  case (Cons i "is")
  have "unat ((of_nat i + 1 :: u64) AND 3) = (i + 1) mod 4"
  proof -
    have "unat (of_nat (i + 1) :: u64) = i + 1"
      using Cons.prems(3) by (subst unat_of_nat) (simp add: mod_less)
    then show ?thesis by (simp add: add.commute)
  qed
  with Cons show ?case by (auto simp: rw_consts Let_def nth_list_update)
qed simp

lemma length_zero_blocks [simp]: "length (zero_blocks bs is) = length bs"
  by (induction bs "is" rule: zero_blocks.induct) (simp_all add: Let_def)

section \<open>The window and the counters it has accepted\<close>

text \<open>
  \<open>in_ring L d\<close>: block number \<open>unat d div 64\<close> is one of the four blocks that end in block
  \<open>L\<close>; \<open>ring_bit\<close> reads the bit of a counter.  \<open>rw_seen w S\<close> relates a window to the set \<open>S\<close>
  of all counters accepted so far, including those that already left the window.
\<close>

definition in_ring :: "nat \<Rightarrow> u64 \<Rightarrow> bool" where
  "in_ring L d \<longleftrightarrow> unat d div 64 \<le> L \<and> L < unat d div 64 + 4"

definition ring_bit :: "u64 list \<Rightarrow> u64 \<Rightarrow> bool" where
  "ring_bit bs d = bit (bs ! (unat d div 64 mod 4)) (unat d mod 64)"

definition rw_seen :: "ReplayWindow \<Rightarrow> u64 set \<Rightarrow> bool" where
  "rw_seen w S \<longleftrightarrow>
     length (rw_blocks w) = 4 \<and> (\<forall>c\<in>S. c \<le> rw_last w) \<and>
     (\<forall>d. in_ring (unat (rw_last w) div 64) d \<longrightarrow> ring_bit (rw_blocks w) d = (d \<in> S))"

lemma rw_seenD:
  assumes "rw_seen w S"
  shows "length (rw_blocks w) = 4" and "c \<in> S \<Longrightarrow> unat c \<le> unat (rw_last w)"
    and "in_ring (unat (rw_last w) div 64) d \<Longrightarrow> ring_bit (rw_blocks w) d = (d \<in> S)"
  using assms by (auto simp: rw_seen_def word_le_nat_alt)

lemma rw_seen_default: "rw_seen ReplayWindow_default {}"
  by (auto simp: rw_seen_def ReplayWindow_default_def rw_consts ring_bit_def in_ring_def)

lemma slot_inj:
  fixes a b L :: nat
  assumes "a \<le> L" "L < a + 4" "b \<le> L" "L < b + 4" "a mod 4 = b mod 4"
  shows "a = b"
proof -
  have "a = 4 * (a div 4) + a mod 4" "b = 4 * (b div 4) + b mod 4" by simp_all
  moreover have "a div 4 = b div 4"
    by (rule linorder_cases [of "a div 4" "b div 4"]) (use calculation assms in linarith)+
  ultimately show ?thesis using assms by simp
qed

lemma unat_eq_by_block:
  "unat a div 64 = unat b div 64 \<Longrightarrow> unat a mod 64 = unat b mod 64 \<Longrightarrow> a = (b :: u64)"
  by (metis div_mult_mod_eq unsigned_word_eqI)

lemma block_and_mask_zero_iff:
  "(bs ! fst (block_idx_and_bit_mask c)) AND snd (block_idx_and_bit_mask c) = 0
     \<longleftrightarrow> \<not> ring_bit bs c"
  by (simp add: block_idx_and_bit_mask_eq ring_bit_def and_exp_eq_0_iff_not_bit)

lemma check_iff:
  assumes "rw_seen w S"
  shows "ReplayWindow_check w c \<longleftrightarrow> c \<notin> S \<and> unat (rw_last w) < unat c + 192"
proof (cases "rw_last w < c")
  case True
  then show ?thesis
    using rw_seenD(2) [OF assms, of c]
    by (auto simp: ReplayWindow_check_def word_less_nat_alt)
next
  case False
  then have le: "unat c \<le> unat (rw_last w)" by (simp add: word_less_nat_alt)
  have old: "c < smallest_valid w \<longleftrightarrow> \<not> unat (rw_last w) < unat c + 192"
    using le by (auto simp: word_less_nat_alt unat_smallest_valid)
  have ring: "unat (rw_last w) < unat c + 192 \<Longrightarrow> in_ring (unat (rw_last w) div 64) c"
    using le by (simp add: in_ring_def div_le_mono)
  show ?thesis
    using False old ring rw_seenD(3) [OF assms, of c] block_and_mask_zero_iff [of "rw_blocks w" c]
    by (auto simp: ReplayWindow_check_def split: prod.splits)
qed

text \<open>Setting the bit of a counter inside the ring adds exactly that counter.\<close>

lemma ring_mark:
  assumes len: "length bs = 4" and ring: "\<And>d. in_ring L d \<Longrightarrow> ring_bit bs d = (d \<in> S)"
    and c: "in_ring L c" and d: "in_ring L d"
  shows "ring_bit (bs[fst (block_idx_and_bit_mask c) :=
            (bs ! fst (block_idx_and_bit_mask c)) OR snd (block_idx_and_bit_mask c)]) d
         = (d \<in> insert c S)"
proof (cases "unat d div 64 mod 4 = unat c div 64 mod 4")
  case True
  then have blk: "unat d div 64 = unat c div 64"
    using c d by (auto simp: in_ring_def intro: slot_inj [of _ L])
  have "(unat d mod 64 = unat c mod 64) = (d = c)"
    using blk unat_eq_by_block by auto
  with ring [OF d] len True show ?thesis
    by (auto simp: block_idx_and_bit_mask_eq ring_bit_def bit_simps)
next
  case False
  then have "d \<noteq> c" by auto
  with False ring [OF d] len show ?thesis
    by (simp add: block_idx_and_bit_mask_eq ring_bit_def)
qed

text \<open>Moving the head forward clears exactly the blocks that re-enter the ring.\<close>

lemma ring_advance:
  assumes seen: "rw_seen w S" and d: "in_ring (unat (rw_last (advance w c)) div 64) d"
  shows "ring_bit (rw_blocks (advance w c)) d = (d \<in> S)"
proof (cases "rw_last w < c")
  case new: True
  let ?cur = "unat (rw_last w) div 64" and ?new = "unat c div 64" and ?d = "unat d div 64"
  from d new have d: "in_ring ?new d" by (simp add: advance_def Let_def)
  have le: "?cur \<le> ?new"
    using new by (simp add: word_less_nat_alt div_le_mono)
  have delta: "N_BLOCKS \<le> block_idx_unbounded c - block_idx_unbounded (rw_last w) \<longleftrightarrow> ?cur + 4 \<le> ?new"
    using le by (auto simp: word_le_nat_alt unat_sub rw_consts)
  have blocks: "rw_blocks (advance w c) = (if ?cur + 4 \<le> ?new then replicate (unat N_BLOCKS) 0
      else zero_blocks (rw_blocks w) [?cur..<?new])"
    using new delta by (simp add: advance_def Let_def)
  have late: "d \<notin> S" if "?cur < ?d"
    using rw_seenD(2) [OF seen, of d] that div_le_mono [of "unat d" "unat (rw_last w)" 64] by auto
  show ?thesis
  proof (cases "?cur + 4 \<le> ?new")
    case True
    with d late blocks show ?thesis
      by (auto simp: in_ring_def ring_bit_def rw_consts)
  next
    case False
    have zero: "zero_blocks (rw_blocks w) [?cur..<?new] ! (?d mod 4)
        = (if \<exists>i\<in>{?cur..<?new}. (i + 1) mod 4 = ?d mod 4 then 0 else rw_blocks w ! (?d mod 4))"
    proof (subst zero_blocks_nth)
      have "?new < 2 ^ 58" using unat_less_2pow [of c] by simp
      then show "\<forall>i\<in>set [?cur..<?new]. i + 1 < 2 ^ 64" by auto
    qed (use rw_seenD(1) [OF seen] in auto)
    show ?thesis
    proof (cases "?cur < ?d")
      case True
      then have "?d - 1 \<in> {?cur..<?new}" and "(?d - 1) + 1 = ?d"
        using d by (auto simp: in_ring_def)
      with zero have "zero_blocks (rw_blocks w) [?cur..<?new] ! (?d mod 4) = 0" by metis
      with late [OF True] blocks False show ?thesis by (simp add: ring_bit_def)
    next
      case old: False
      have "(i + 1) mod 4 \<noteq> ?d mod 4" if "i \<in> {?cur..<?new}" for i
        using slot_inj [of "i + 1" ?new ?d] that old d False by (auto simp: in_ring_def)
      with zero have "zero_blocks (rw_blocks w) [?cur..<?new] ! (?d mod 4) = rw_blocks w ! (?d mod 4)"
        by auto
      moreover have "in_ring ?cur d" using old d le by (auto simp: in_ring_def)
      ultimately show ?thesis
        using blocks False rw_seenD(3) [OF seen] by (simp add: ring_bit_def)
    qed
  qed
next
  case False
  with assms show ?thesis by (auto simp: advance_def rw_seen_def)
qed

lemma set_seen:
  assumes seen: "rw_seen w S" and ok: "ReplayWindow_check w c"
  shows "\<exists>w'. ReplayWindow_set w c = Inr w' \<and> rw_seen w' (insert c S) \<and> rw_last w' = max (rw_last w) c"
proof -
  define w1 where "w1 = advance w c"
  have new: "c \<notin> S" and win: "unat (rw_last w) < unat c + 192"
    using check_iff [OF seen] ok by auto
  have last: "rw_last w1 = max (rw_last w) c"
    by (auto simp: w1_def advance_def Let_def max_def)
  have len: "length (rw_blocks w1) = 4"
    using rw_seenD(1) [OF seen] by (simp add: w1_def advance_def Let_def rw_consts)
  have ring: "ring_bit (rw_blocks w1) d = (d \<in> S)" if "in_ring (unat (rw_last w1) div 64) d" for d
    using that ring_advance [OF seen] by (simp add: w1_def)
  have c_in: "in_ring (unat (rw_last w1) div 64) c"
    using win by (auto simp: in_ring_def last max_def word_le_nat_alt div_le_mono)
  let ?k = "fst (block_idx_and_bit_mask c)" and ?m = "snd (block_idx_and_bit_mask c)"
  let ?w' = "w1\<lparr>rw_blocks := (rw_blocks w1)[?k := (rw_blocks w1 ! ?k) OR ?m]\<rparr>"
  have "\<not> c < smallest_valid w"
    using win by (simp add: word_less_nat_alt unat_smallest_valid)
  moreover have "(rw_blocks w1 ! ?k) AND ?m = 0"
    using ring [OF c_in] new block_and_mask_zero_iff by blast
  ultimately have "ReplayWindow_set w c = Inr ?w'"
    by (simp add: ReplayWindow_set_def Let_def w1_def case_prod_beta)
  moreover have "rw_seen ?w' (insert c S)"
    unfolding rw_seen_def
  proof (intro conjI allI impI ballI)
    fix d assume "d \<in> insert c S"
    with rw_seenD(2) [OF seen, of d] show "d \<le> rw_last ?w'"
      by (auto simp: last word_le_nat_alt max_def)
  qed (use len ring_mark [OF len ring c_in] in auto)
  ultimately show ?thesis using last by auto
qed

section \<open>The interface sessions rely on\<close>

text \<open>
  What a receiver needs of a replay filter: a counter it lets through is one it has not seen,
  and marking a counter it lets through succeeds and records it.  The client lemma covers a
  receiver that filters a batch with a stateful closure, marking what it keeps.
\<close>

locale replay_guard =
  fixes fresh :: 'w
    and check :: "'w \<Rightarrow> 'c \<Rightarrow> bool"
    and mark :: "'w \<Rightarrow> 'c \<Rightarrow> 'e + 'w"
    and seen :: "'w \<Rightarrow> 'c set \<Rightarrow> bool"
  assumes seen_fresh: "seen fresh {}"
    and check_new: "seen w S \<Longrightarrow> check w c \<Longrightarrow> c \<notin> S"
    and mark_seen: "seen w S \<Longrightarrow> check w c \<Longrightarrow> \<exists>w'. mark w c = Inr w' \<and> seen w' (insert c S)"
begin

lemma guarded_retain:
  assumes step: "\<And>s x s' v. f s x = (s', v) \<Longrightarrow>
      (case v of None \<Rightarrow> win s' = win s
       | Some y \<Rightarrow> check (win s) (ctr x) \<and> mark (win s) (ctr x) = Inr (win s'))"
    and "seen (win s) S"
  shows "distinct (map ctr (kept f s xs)) \<and> ctr ` set (kept f s xs) \<inter> S = {} \<and>
         seen (win (fst (retain_mut f s xs))) (S \<union> ctr ` set (kept f s xs))"
  using assms(2)
proof (induction xs arbitrary: s S)
  case (Cons x xs)
  obtain s' v where fx: "f s x = (s', v)" by (cases "f s x")
  show ?case
  proof (cases v)
    case None
    with fx step [OF fx] Cons.IH [of s' S] Cons.prems show ?thesis by simp
  next
    case (Some y)
    with step [OF fx] have c: "check (win s) (ctr x)" and m: "mark (win s) (ctr x) = Inr (win s')"
      by auto
    from mark_seen [OF Cons.prems c] m have "seen (win s') (insert (ctr x) S)" by auto
    from Cons.IH [OF this] check_new [OF Cons.prems c] fx Some show ?thesis
      by (auto split: prod.splits)
  qed
qed simp

end

interpretation rw: replay_guard ReplayWindow_default ReplayWindow_check ReplayWindow_set rw_seen
  using rw_seen_default check_iff set_seen by unfold_locales blast+

section \<open>Runs of the window\<close>

text \<open>Presenting a sequence of counters to a window, and the verdicts it gives.\<close>

fun rw_run :: "ReplayWindow \<Rightarrow> u64 list \<Rightarrow> replay_panic + bool list \<times> ReplayWindow" where
  "rw_run w [] = Inr ([], w)"
| "rw_run w (c # cs) =
     bind_res (check_and_set w c) (\<lambda>(v, w').
       bind_res (rw_run w' cs) (\<lambda>(vs, w''). Inr (v # vs, w'')))"

text \<open>
  The abstract sliding window over unbounded naturals: the highest counter and the set of all
  counters accepted so far, with no ring and no words.
\<close>

fun window_spec :: "nat \<Rightarrow> nat set \<Rightarrow> nat list \<Rightarrow> bool list" where
  "window_spec hi S [] = []"
| "window_spec hi S (c # cs) =
     (if c \<notin> S \<and> hi < c + 192 then True # window_spec (max hi c) (insert c S) cs
      else False # window_spec hi S cs)"

lemma unat_max: "unat (max a b) = max (unat a) (unat b)"
  by (simp add: max_def word_le_nat_alt)

lemma rw_run_spec:
  assumes "rw_seen w S"
  shows "\<exists>w'. rw_run w cs = Inr (window_spec (unat (rw_last w)) (unat ` S) (map unat cs), w')"
  using assms
proof (induction cs arbitrary: w S)
  case (Cons c cs)
  note chk = check_iff [OF Cons.prems, of c]
  have S: "unat c \<in> unat ` S \<longleftrightarrow> c \<in> S" by (auto dest: unsigned_word_eqI)
  show ?case
  proof (cases "ReplayWindow_check w c")
    case True
    with set_seen [OF Cons.prems True] obtain w' where w': "ReplayWindow_set w c = Inr w'"
      "rw_seen w' (insert c S)" "rw_last w' = max (rw_last w) c" by auto
    from Cons.IH [OF w'(2)] w' True chk S show ?thesis
      by (auto simp: check_and_set_def unat_max)
  next
    case False
    with Cons.IH [OF Cons.prems] chk S show ?thesis by (auto simp: check_and_set_def)
  qed
qed simp

lemma window_spec_distinct:
  "length (window_spec hi S cs) = length cs \<and>
   (\<forall>i < length cs. window_spec hi S cs ! i \<longrightarrow> cs ! i \<notin> S) \<and>
   (\<forall>i j. i < j \<longrightarrow> j < length cs \<longrightarrow> window_spec hi S cs ! i \<longrightarrow> window_spec hi S cs ! j \<longrightarrow> cs ! i \<noteq> cs ! j)"
proof (induction cs arbitrary: hi S)
  case (Cons c cs)
  show ?case
    using Cons.IH [of "max hi c" "insert c S"] Cons.IH [of hi S]
    by (auto simp: nth_Cons split: nat.splits)
qed simp

text \<open>
  C14. The word-level ring buffer computes the abstract sliding window: for every sequence of
  64-bit counters presented to a fresh window, no call panics and the verdicts are those of the
  specification, which accepts a counter exactly when it was not accepted before and lies less
  than 192 behind the highest accepted one.
\<close>

theorem replay_window_refines_spec:
  "\<exists>w'. rw_run ReplayWindow_default cs = Inr (window_spec 0 {} (map unat cs), w')"
  using rw_run_spec [OF rw_seen_default, of cs] by (simp add: ReplayWindow_default_def)

text \<open>
  No counter is accepted twice: in any run of a fresh window, two positions that were both
  accepted carry different counters.
\<close>

theorem replay_accepts_at_most_once:
  assumes "rw_run ReplayWindow_default cs = Inr (vs, w')"
    and "i < j" and "j < length cs" and "vs ! i" and "vs ! j"
  shows "cs ! i \<noteq> cs ! j"
proof -
  from assms(1) rw_run_spec [OF rw_seen_default, of cs]
  have "vs = window_spec 0 {} (map unat cs)" by (auto simp: ReplayWindow_default_def)
  with assms have "map unat cs ! i \<noteq> map unat cs ! j"
    using window_spec_distinct [of 0 "{}" "map unat cs"] by auto
  with assms(2,3) show ?thesis by auto
qed

theorem replay_accepts_at_most_once_witness:
  "\<exists>vs w'. rw_run ReplayWindow_default [5, 700, 5, 600, 600] = Inr (vs, w') \<and> vs ! 1 \<and> vs ! 3
     \<and> [5, 700, 5, 600, 600 :: u64] ! 1 \<noteq> [5, 700, 5, 600, 600] ! 3"
proof -
  obtain w' where r: "rw_run ReplayWindow_default [5, 700, 5, 600, 600]
      = Inr ([True, True, False, True, False], w')"
    using rw_run_spec [OF rw_seen_default, of "[5, 700, 5, 600, 600]"]
    by (auto simp: ReplayWindow_default_def)
  have "[5, 700, 5, 600, 600 :: u64] ! 1 \<noteq> [5, 700, 5, 600, 600] ! 3"
    by (rule replay_accepts_at_most_once [OF r]) simp_all
  with r show ?thesis by auto
qed

end
