(* ===== verification/Scheduler.thy ===== *)
theory Scheduler
  imports Prelude "HOL-Library.Multiset"
begin

text \<open>
  The event scheduler of \<open>ts_time/src/lib.rs\<close>.  An \<open>Instant\<close> is a nanosecond count; the
  identity of an \<open>Arc<FutureEvent>\<close> is a number that the scheduler hands out, and a
  \<open>Handle\<close> is that number: upgrading its weak reference succeeds exactly while the event is
  in the queue.  The queue is sorted by descending start time and is searched by bisection; the
  theory shows that this representation behaves as a plain set of pending events and that the
  announced wake-up time serves every event within its range.
\<close>

section \<open>The model\<close>

type_synonym instant = int

text \<open>The range of \<open>Instant\<close> on the 64-bit platforms: seconds in an \<open>i64\<close> and nanoseconds.\<close>

definition INSTANT_MIN :: int where "INSTANT_MIN = - (2 ^ 63) * 10 ^ 9"
definition INSTANT_MAX :: int where "INSTANT_MAX = (2 ^ 63 - 1) * 10 ^ 9 + 999999999"

definition instant_checked :: "int \<Rightarrow> instant option" where
  "instant_checked t = (if INSTANT_MIN \<le> t \<and> t \<le> INSTANT_MAX then Some t else None)"

definition duration_since :: "instant \<Rightarrow> instant \<Rightarrow> nat" where
  "duration_since later earlier = nat (later - earlier)"

definition duration_from_secs :: "nat \<Rightarrow> nat" where
  "duration_from_secs s = s * 10 ^ 9"

definition duration_from_millis :: "nat \<Rightarrow> nat" where
  "duration_from_millis ms = ms * 10 ^ 6"

record TimeRange =
  tr_start :: instant
  tr_end :: instant

definition TimeRange_new :: "instant \<Rightarrow> instant \<Rightarrow> TimeRange option" where
  "TimeRange_new s e = (if s \<le> e then Some \<lparr>tr_start = s, tr_end = e\<rparr> else None)"

definition new_around :: "instant \<Rightarrow> nat \<Rightarrow> TimeRange option" where
  "new_around t plus_minus =
     TimeRange_new
       (case instant_checked (t - int plus_minus) of None \<Rightarrow> t | Some s \<Rightarrow> s)
       (case instant_checked (t + int plus_minus) of None \<Rightarrow> t | Some e \<Rightarrow> e)"

definition TimeRange_contains :: "TimeRange \<Rightarrow> instant \<Rightarrow> bool" where
  "TimeRange_contains r t \<longleftrightarrow> tr_start r \<le> t \<and> t \<le> tr_end r"

record 'e FutureEvent =
  ev_id :: nat
  ev_when :: TimeRange
  ev_what :: 'e

abbreviation ev_start :: "'e FutureEvent \<Rightarrow> instant" where
  "ev_start e \<equiv> tr_start (ev_when e)"

record 'e Scheduler =
  sched_events :: "'e FutureEvent list"
  sched_next :: nat

type_synonym handle = nat

definition Scheduler_default :: "'e Scheduler" where
  "Scheduler_default = \<lparr>sched_events = [], sched_next = 0\<rparr>"

definition partition_point :: "'e FutureEvent list \<Rightarrow> instant \<Rightarrow> nat" where
  "partition_point events t = length (takeWhile (\<lambda>e. t < ev_start e) events)"

fun find_from :: "'e FutureEvent list \<Rightarrow> 'e FutureEvent \<Rightarrow> nat \<Rightarrow> nat option" where
  "find_from [] event i = None"
| "find_from (other # rest) event i =
     (if ev_start other \<noteq> ev_start event then None
      else if ev_id event = ev_id other then Some i
      else find_from rest event (Suc i))"

definition Scheduler_find :: "'e FutureEvent list \<Rightarrow> 'e FutureEvent \<Rightarrow> nat option" where
  "Scheduler_find events event =
     (let idx = partition_point events (ev_start event) in find_from (drop idx events) event idx)"

definition insert_at :: "nat \<Rightarrow> 'a \<Rightarrow> 'a list \<Rightarrow> 'a list" where
  "insert_at i x xs = take i xs @ x # drop i xs"

definition remove_at :: "nat \<Rightarrow> 'a list \<Rightarrow> 'a list" where
  "remove_at i xs = take i xs @ drop (Suc i) xs"

definition Scheduler_add :: "TimeRange \<Rightarrow> 'e \<Rightarrow> 'e Scheduler \<Rightarrow> handle \<times> 'e Scheduler" where
  "Scheduler_add r e s =
     (let event = \<lparr>ev_id = sched_next s, ev_when = r, ev_what = e\<rparr>;
          idx = partition_point (sched_events s) (tr_start r)
      in (sched_next s, s\<lparr>sched_events := insert_at idx event (sched_events s),
                          sched_next := Suc (sched_next s)\<rparr>))"

definition Scheduler_clear :: "'e Scheduler \<Rightarrow> 'e Scheduler" where
  "Scheduler_clear s = s\<lparr>sched_events := []\<rparr>"

definition Scheduler_dispatch :: "instant \<Rightarrow> 'e Scheduler \<Rightarrow> 'e list \<times> 'e Scheduler" where
  "Scheduler_dispatch now s =
     (let idx = partition_point (sched_events s) now;
          to_dispatch = drop idx (sched_events s)
      in (map ev_what (rev to_dispatch), s\<lparr>sched_events := take idx (sched_events s)\<rparr>))"

fun dispatch_range_end :: "instant \<Rightarrow> 'e FutureEvent list \<Rightarrow> instant" where
  "dispatch_range_end e [] = e"
| "dispatch_range_end e (ev # evs) =
     (if e < ev_start ev then e else dispatch_range_end (min e (tr_end (ev_when ev))) evs)"

definition next_dispatch_range :: "'e Scheduler \<Rightarrow> TimeRange option" where
  "next_dispatch_range s =
     (case rev (sched_events s) of
        [] \<Rightarrow> None
      | ev # evs \<Rightarrow>
          TimeRange_new (ev_start ev) (dispatch_range_end (tr_end (ev_when ev)) evs))"

definition next_dispatch :: "'e Scheduler \<Rightarrow> instant option" where
  "next_dispatch s = map_option tr_end (next_dispatch_range s)"

definition upgrade :: "'e Scheduler \<Rightarrow> handle \<Rightarrow> 'e FutureEvent option" where
  "upgrade s h = List.find (\<lambda>e. ev_id e = h) (sched_events s)"

definition Handle_cancel :: "handle \<Rightarrow> 'e Scheduler \<Rightarrow> 'e Scheduler" where
  "Handle_cancel h s =
     (case upgrade s h of
        None \<Rightarrow> s
      | Some event \<Rightarrow>
          (case Scheduler_find (sched_events s) event of
             None \<Rightarrow> s
           | Some idx \<Rightarrow> s\<lparr>sched_events := remove_at idx (sched_events s)\<rparr>))"

definition Handle_reschedule :: "handle \<Rightarrow> TimeRange \<Rightarrow> 'e Scheduler \<Rightarrow> handle option \<times> 'e Scheduler" where
  "Handle_reschedule h r s =
     (case upgrade s h of
        None \<Rightarrow> (None, s)
      | Some event \<Rightarrow>
          (case Scheduler_find (sched_events s) event of
             None \<Rightarrow> (None, s)
           | Some idx \<Rightarrow>
               (let events = remove_at idx (sched_events s);
                    idx' = partition_point events (tr_start r)
                in (Some h, s\<lparr>sched_events := insert_at idx' (event\<lparr>ev_when := r\<rparr>) events\<rparr>))))"

section \<open>The queue invariant\<close>

definition sorted_desc :: "'e FutureEvent list \<Rightarrow> bool" where
  "sorted_desc = sorted_wrt (\<lambda>a b. ev_start b \<le> ev_start a)"

definition sched_inv :: "'e Scheduler \<Rightarrow> bool" where
  "sched_inv s \<longleftrightarrow>
     sorted_desc (sched_events s) \<and> distinct (map ev_id (sched_events s)) \<and>
     (\<forall>e\<in>set (sched_events s). ev_id e < sched_next s) \<and>
     (\<forall>e\<in>set (sched_events s). ev_start e \<le> tr_end (ev_when e))"

definition pending :: "'e Scheduler \<Rightarrow> (handle \<times> TimeRange \<times> 'e) set" where
  "pending s = (\<lambda>e. (ev_id e, ev_when e, ev_what e)) ` set (sched_events s)"

lemma new_around_Some:
  "\<exists>r. new_around t d = Some r \<and> tr_start r \<le> t \<and> t \<le> tr_end r"
  by (auto simp: new_around_def TimeRange_new_def instant_checked_def)

lemma sorted_desc_append:
  "sorted_desc (xs @ ys) \<longleftrightarrow>
     sorted_desc xs \<and> sorted_desc ys \<and> (\<forall>x\<in>set xs. \<forall>y\<in>set ys. ev_start y \<le> ev_start x)"
  by (simp add: sorted_desc_def sorted_wrt_append)

lemma take_partition_point: "e \<in> set (take (partition_point es t) es) \<Longrightarrow> t < ev_start e"
  by (metis (no_types, lifting) partition_point_def set_takeWhileD takeWhile_eq_take)

lemma drop_partition_point:
  assumes "sorted_desc es" and "e \<in> set (drop (partition_point es t) es)"
  shows "ev_start e \<le> t"
  using assms
proof (induction es)
  case (Cons x xs)
  then show ?case
    by (cases "t < ev_start x") (fastforce simp: partition_point_def sorted_desc_def)+
qed simp

lemma partition_split:
  assumes "sorted_desc es"
  shows "take (partition_point es t) es = filter (\<lambda>e. t < ev_start e) es"
    and "drop (partition_point es t) es = filter (\<lambda>e. ev_start e \<le> t) es"
proof -
  let ?p = "partition_point es t"
  have "filter Q es = filter Q (take ?p es) @ filter Q (drop ?p es)" for Q
    by (metis append_take_drop_id filter_append)
  moreover have "filter (\<lambda>e. t < ev_start e) (take ?p es) = take ?p es"
    "filter (\<lambda>e. ev_start e \<le> t) (take ?p es) = []"
    using take_partition_point [of _ es t] by (fastforce simp: filter_id_conv filter_empty_conv)+
  moreover have "filter (\<lambda>e. t < ev_start e) (drop ?p es) = []"
    "filter (\<lambda>e. ev_start e \<le> t) (drop ?p es) = drop ?p es"
    using drop_partition_point [OF assms, of _ t] by (fastforce simp: filter_id_conv filter_empty_conv)+
  ultimately show "take ?p es = filter (\<lambda>e. t < ev_start e) es"
    and "drop ?p es = filter (\<lambda>e. ev_start e \<le> t) es" by simp_all
qed

lemma sorted_insert_at:
  assumes "sorted_desc es"
  shows "sorted_desc (insert_at (partition_point es (ev_start e)) e es)"
proof -
  let ?p = "partition_point es (ev_start e)"
  have "sorted_desc (take ?p es @ drop ?p es)" using assms by simp
  then have "sorted_desc (take ?p es)" "sorted_desc (drop ?p es)"
    and ts: "\<forall>x\<in>set (take ?p es). \<forall>y\<in>set (drop ?p es). ev_start y \<le> ev_start x"
    unfolding sorted_desc_append by auto
  moreover have "sorted_desc (e # drop ?p es)"
    using calculation(2) drop_partition_point [OF assms] by (simp add: sorted_desc_def)
  ultimately show ?thesis
    using take_partition_point [of _ es "ev_start e"]
    by (fastforce simp: insert_at_def sorted_desc_append simp del: append_take_drop_id)
qed

section \<open>Bisection finds what a linear search finds\<close>

lemma find_from_event:
  assumes "sorted_desc es" and "\<forall>e\<in>set es. ev_start e \<le> ev_start event"
    and "event \<in> set es" and "distinct (map ev_id es)"
  shows "\<exists>j < length es. find_from es event i = Some (i + j) \<and> es ! j = event"
  using assms
proof (induction es arbitrary: i)
  case (Cons x xs)
  show ?case
  proof (cases "x = event")
    case True
    then show ?thesis by (intro exI [of _ 0]) simp
  next
    case False
    with Cons.prems have mem: "event \<in> set xs" by auto
    with Cons.prems have "ev_start x = ev_start event" "ev_id x \<noteq> ev_id event"
      by (auto simp: sorted_desc_def intro: antisym)
    moreover from Cons.IH [of "Suc i"] Cons.prems mem obtain j where "j < length xs"
      "find_from xs event (Suc i) = Some (Suc i + j)" "xs ! j = event" by (auto simp: sorted_desc_def)
    ultimately show ?thesis by (intro exI [of _ "Suc j"]) auto
  qed
qed simp

lemma Scheduler_find_event:
  assumes "sorted_desc es" and "event \<in> set es" and "distinct (map ev_id es)"
  shows "\<exists>i < length es. Scheduler_find es event = Some i \<and> es ! i = event"
proof -
  let ?p = "partition_point es (ev_start event)"
  have "event \<in> set (drop ?p es)"
    using assms(2) by (simp add: partition_split [OF assms(1)])
  moreover have "sorted_desc (drop ?p es)"
    using assms(1) append_take_drop_id [of ?p es] sorted_desc_append by metis
  moreover have "distinct (map ev_id (drop ?p es))"
    using assms(3) by (metis distinct_drop drop_map)
  moreover have "\<forall>e\<in>set (drop ?p es). ev_start e \<le> ev_start event"
    using drop_partition_point [OF assms(1)] by blast
  ultimately obtain j where "j < length (drop ?p es)"
    "find_from (drop ?p es) event ?p = Some (?p + j)" "drop ?p es ! j = event"
    using find_from_event by blast
  then show ?thesis
    by (intro exI [of _ "?p + j"]) (auto simp: Scheduler_find_def Let_def)
qed

lemma remove_at_filter:
  assumes "distinct (map ev_id es)" and "i < length es"
  shows "remove_at i es = filter (\<lambda>e. ev_id e \<noteq> ev_id (es ! i)) es"
proof -
  have es: "es = take i es @ es ! i # drop (Suc i) es"
    using assms(2) by (simp add: id_take_nth_drop)
  then have "distinct (map ev_id (take i es @ es ! i # drop (Suc i) es))"
    using assms(1) by simp
  then have "filter (\<lambda>e. ev_id e \<noteq> ev_id (es ! i)) (take i es) = take i es"
    "filter (\<lambda>e. ev_id e \<noteq> ev_id (es ! i)) (drop (Suc i) es) = drop (Suc i) es"
    by (auto simp: filter_id_conv image_iff)
  then show ?thesis by (subst (3) es) (simp add: remove_at_def)
qed

lemma upgrade_Some_iff:
  assumes "sched_inv s"
  shows "upgrade s h = Some e \<longleftrightarrow> e \<in> set (sched_events s) \<and> ev_id e = h"
proof
  assume "upgrade s h = Some e"
  then show "e \<in> set (sched_events s) \<and> ev_id e = h"
    by (auto simp: upgrade_def dest: find_Some_set)
next
  assume e: "e \<in> set (sched_events s) \<and> ev_id e = h"
  then obtain e' where e': "upgrade s h = Some e'"
    by (cases "upgrade s h") (auto simp: upgrade_def find_None_iff)
  moreover have "inj_on ev_id (set (sched_events s))"
    using assms by (simp add: sched_inv_def distinct_map)
  ultimately show "upgrade s h = Some e"
    using e by (auto simp: upgrade_def inj_on_def dest: find_Some_set)
qed

lemma upgrade_None_iff: "upgrade s h = None \<longleftrightarrow> h \<notin> ev_id ` set (sched_events s)"
  by (auto simp: upgrade_def find_None_iff)

lemma cancel_events:
  assumes "sched_inv s"
  shows "sched_events (Handle_cancel h s) = filter (\<lambda>e. ev_id e \<noteq> h) (sched_events s)"
proof (cases "upgrade s h")
  case None
  then have "filter (\<lambda>e. ev_id e \<noteq> h) (sched_events s) = sched_events s"
    by (auto simp: upgrade_None_iff filter_id_conv)
  with None show ?thesis by (simp add: Handle_cancel_def)
next
  case (Some event)
  with upgrade_Some_iff [OF assms] have ev: "event \<in> set (sched_events s)" "ev_id event = h" by auto
  with assms obtain i where "i < length (sched_events s)" "sched_events s ! i = event"
    "Scheduler_find (sched_events s) event = Some i"
    using Scheduler_find_event by (auto simp: sched_inv_def)
  with assms ev Some show ?thesis
    by (simp add: Handle_cancel_def sched_inv_def remove_at_filter)
qed

section \<open>Every operation keeps the invariant\<close>

lemma set_insert_at [simp]: "set (insert_at i x xs) = insert x (set xs)"
  by (simp add: insert_at_def) (metis append_take_drop_id set_append)

lemma mset_insert_at [simp]: "mset (insert_at i x xs) = add_mset x (mset xs)"
  by (simp add: insert_at_def) (metis append_take_drop_id mset_append union_code)

lemma distinct_insert_at:
  "distinct (map f (insert_at i x xs)) \<longleftrightarrow> f x \<notin> f ` set xs \<and> distinct (map f xs)"
proof -
  have "mset (map f (insert_at i x xs)) = mset (map f (x # xs))" by simp
  then have "distinct (map f (insert_at i x xs)) \<longleftrightarrow> distinct (map f (x # xs))"
    by (metis mset_eq_imp_distinct_iff)
  then show ?thesis by simp
qed

lemma sorted_desc_filter: "sorted_desc es \<Longrightarrow> sorted_desc (filter P es)"
  by (simp add: sorted_desc_def sorted_wrt_filter)

lemma sched_inv_subset:
  assumes "sched_inv s"
  shows "sched_inv (s\<lparr>sched_events := filter P (sched_events s)\<rparr>)"
  using assms by (auto simp: sched_inv_def sorted_desc_filter distinct_map_filter)

lemma sched_inv_default: "sched_inv Scheduler_default"
  by (simp add: sched_inv_def Scheduler_default_def sorted_desc_def)

lemma sched_inv_add:
  assumes "sched_inv s" and "tr_start r \<le> tr_end r"
  shows "sched_inv (snd (Scheduler_add r e s))"
proof -
  let ?ev = "\<lparr>ev_id = sched_next s, ev_when = r, ev_what = e\<rparr>"
  have "sorted_desc (insert_at (partition_point (sched_events s) (tr_start r)) ?ev (sched_events s))"
    using sorted_insert_at [of "sched_events s" ?ev] assms(1) by (simp add: sched_inv_def)
  with assms show ?thesis
    by (force simp: sched_inv_def Scheduler_add_def Let_def distinct_insert_at less_Suc_eq)
qed

lemma sched_inv_dispatch:
  assumes "sched_inv s"
  shows "sched_inv (snd (Scheduler_dispatch now s))"
  using sched_inv_subset [OF assms] assms
  by (simp add: Scheduler_dispatch_def Let_def partition_split(1) sched_inv_def)

lemma cancel_eq:
  assumes "sched_inv s"
  shows "Handle_cancel h s = s\<lparr>sched_events := filter (\<lambda>e. ev_id e \<noteq> h) (sched_events s)\<rparr>"
proof -
  have "sched_next (Handle_cancel h s) = sched_next s"
    by (simp add: Handle_cancel_def split: option.splits)
  with cancel_events [OF assms, of h] show ?thesis by (cases s; cases "Handle_cancel h s") auto
qed

lemma sched_inv_cancel: "sched_inv s \<Longrightarrow> sched_inv (Handle_cancel h s)"
  by (simp add: cancel_eq sched_inv_subset)

lemma reschedule_eq:
  assumes "sched_inv s" and "e \<in> set (sched_events s)" and "ev_id e = h"
  shows "Handle_reschedule h r s =
    (let events = filter (\<lambda>e. ev_id e \<noteq> h) (sched_events s)
     in (Some h, s\<lparr>sched_events :=
          insert_at (partition_point events (tr_start r)) (e\<lparr>ev_when := r\<rparr>) events\<rparr>))"
proof -
  have up: "upgrade s h = Some e" using assms upgrade_Some_iff by blast
  obtain i where "i < length (sched_events s)" "sched_events s ! i = e"
    "Scheduler_find (sched_events s) e = Some i"
    using assms Scheduler_find_event by (auto simp: sched_inv_def)
  with assms up show ?thesis
    by (simp add: Handle_reschedule_def sched_inv_def remove_at_filter Let_def)
qed

lemma reschedule_lapsed: "h \<notin> ev_id ` set (sched_events s) \<Longrightarrow> Handle_reschedule h r s = (None, s)"
  by (simp add: Handle_reschedule_def upgrade_None_iff [THEN iffD2])

lemma sched_inv_reschedule:
  assumes "sched_inv s" and "tr_start r \<le> tr_end r"
  shows "sched_inv (snd (Handle_reschedule h r s))"
proof (cases "h \<in> ev_id ` set (sched_events s)")
  case True
  then obtain e where e: "e \<in> set (sched_events s)" "ev_id e = h" by auto
  let ?es = "filter (\<lambda>e. ev_id e \<noteq> h) (sched_events s)"
  have "sorted_desc (insert_at (partition_point ?es (tr_start r)) (e\<lparr>ev_when := r\<rparr>) ?es)"
    using sorted_insert_at [of ?es "e\<lparr>ev_when := r\<rparr>"] assms(1)
    by (simp add: sched_inv_def sorted_desc_filter)
  then show ?thesis
    using assms e
    by (auto simp: reschedule_eq [OF assms(1) e] Let_def sched_inv_def distinct_insert_at
        distinct_map_filter)
next
  case False
  with assms(1) show ?thesis by (simp add: reschedule_lapsed)
qed

section \<open>The interface the data plane relies on\<close>

text \<open>
  A client's calls: scheduling an event, cancelling a handle, dispatching at an instant.  A call
  spares the event of handle \<open>h\<close> when it neither cancels it nor dispatches at or after its
  start.
\<close>

datatype 'e queue_op = QAdd TimeRange 'e | QCancel handle | QDispatch instant

fun queue_run ::
  "(TimeRange \<Rightarrow> 'e \<Rightarrow> 'q \<Rightarrow> handle \<times> 'q) \<Rightarrow> (handle \<Rightarrow> 'q \<Rightarrow> 'q) \<Rightarrow> (instant \<Rightarrow> 'q \<Rightarrow> 'e list \<times> 'q)
   \<Rightarrow> 'q \<Rightarrow> 'e queue_op list \<Rightarrow> 'q" where
  "queue_run add cancel dispatch q [] = q"
| "queue_run add cancel dispatch q (QAdd r e # ops) = queue_run add cancel dispatch (snd (add r e q)) ops"
| "queue_run add cancel dispatch q (QCancel h # ops) = queue_run add cancel dispatch (cancel h q) ops"
| "queue_run add cancel dispatch q (QDispatch now # ops) =
     queue_run add cancel dispatch (snd (dispatch now q)) ops"

fun op_spares :: "handle \<Rightarrow> instant \<Rightarrow> 'e queue_op \<Rightarrow> bool" where
  "op_spares h t (QAdd r e) \<longleftrightarrow> tr_start r \<le> tr_end r"
| "op_spares h t (QCancel h') \<longleftrightarrow> h' \<noteq> h"
| "op_spares h t (QDispatch now) \<longleftrightarrow> now < t"

locale event_queue =
  fixes add :: "TimeRange \<Rightarrow> 'e \<Rightarrow> 'q \<Rightarrow> handle \<times> 'q"
    and cancel :: "handle \<Rightarrow> 'q \<Rightarrow> 'q"
    and dispatch :: "instant \<Rightarrow> 'q \<Rightarrow> 'e list \<times> 'q"
    and pend :: "'q \<Rightarrow> (handle \<times> TimeRange \<times> 'e) set"
    and inv :: "'q \<Rightarrow> bool"
  assumes add_inv: "inv q \<Longrightarrow> tr_start r \<le> tr_end r \<Longrightarrow> inv (snd (add r e q))"
    and add_pend: "inv q \<Longrightarrow> pend (snd (add r e q)) = insert (fst (add r e q), r, e) (pend q)"
    and add_fresh: "inv q \<Longrightarrow> (fst (add r e q), r', e') \<notin> pend q"
    and cancel_inv: "inv q \<Longrightarrow> inv (cancel h q)"
    and cancel_pend: "inv q \<Longrightarrow> pend (cancel h q) = {x \<in> pend q. fst x \<noteq> h}"
    and dispatch_inv: "inv q \<Longrightarrow> inv (snd (dispatch now q))"
    and dispatch_pend:
      "inv q \<Longrightarrow> pend (snd (dispatch now q)) = {x \<in> pend q. now < tr_start (fst (snd x))}"
    and dispatch_out:
      "inv q \<Longrightarrow> set (fst (dispatch now q)) = {e. \<exists>h r. (h, r, e) \<in> pend q \<and> tr_start r \<le> now}"
begin

lemma pending_until_due:
  assumes "inv q" and "(h, r, e) \<in> pend q" and "list_all (op_spares h (tr_start r)) ops"
  shows "inv (queue_run add cancel dispatch q ops) \<and> (h, r, e) \<in> pend (queue_run add cancel dispatch q ops)"
  using assms
proof (induction ops arbitrary: q)
  case (Cons x ops)
  show ?case
  proof (cases x)
    case (QAdd r' e')
    with Cons show ?thesis by (simp add: add_inv add_pend)
  next
    case (QCancel h')
    with Cons show ?thesis by (simp add: cancel_inv cancel_pend)
  next
    case (QDispatch now)
    with Cons show ?thesis by (simp add: dispatch_inv dispatch_pend)
  qed
qed simp

lemma delivered_when_due:
  assumes "inv q" and "tr_start r \<le> tr_end r"
    and "list_all (op_spares (fst (add r e q)) (tr_start r)) ops" and "tr_start r \<le> now"
  shows "e \<in> set (fst (dispatch now (queue_run add cancel dispatch (snd (add r e q)) ops)))"
proof -
  have "inv (snd (add r e q))" "(fst (add r e q), r, e) \<in> pend (snd (add r e q))"
    using assms by (simp_all add: add_inv add_pend)
  from pending_until_due [OF this assms(3)] assms(4) show ?thesis
    by (auto simp: dispatch_out)
qed

end

lemma pending_add:
  "pending (snd (Scheduler_add r e s)) = insert (fst (Scheduler_add r e s), r, e) (pending s)"
  by (simp add: pending_def Scheduler_add_def Let_def)

lemma pending_dispatch:
  assumes "sched_inv s"
  shows "pending (snd (Scheduler_dispatch now s)) = {x \<in> pending s. now < tr_start (fst (snd x))}"
  using assms
  by (auto simp: pending_def Scheduler_dispatch_def Let_def partition_split sched_inv_def)

lemma dispatch_events:
  assumes "sched_inv s"
  shows "fst (Scheduler_dispatch now s) =
      map ev_what (rev (filter (\<lambda>e. ev_start e \<le> now) (sched_events s)))"
  using assms by (simp add: Scheduler_dispatch_def Let_def partition_split sched_inv_def)

lemma pending_fresh: "sched_inv s \<Longrightarrow> (fst (Scheduler_add r e s), r', e') \<notin> pending s"
  by (auto simp: Scheduler_add_def Let_def pending_def sched_inv_def)

lemma pending_cancel: "sched_inv s \<Longrightarrow> pending (Handle_cancel h s) = {x \<in> pending s. fst x \<noteq> h}"
  by (simp add: pending_def cancel_events Compr_image_eq)

lemma set_dispatch:
  assumes "sched_inv s"
  shows "set (fst (Scheduler_dispatch now s)) = {e. \<exists>h r. (h, r, e) \<in> pending s \<and> tr_start r \<le> now}"
proof -
  have "set (fst (Scheduler_dispatch now s)) = ev_what ` {e \<in> set (sched_events s). ev_start e \<le> now}"
    by (simp add: dispatch_events [OF assms])
  also have "\<dots> = {e. \<exists>h r. (h, r, e) \<in> pending s \<and> tr_start r \<le> now}"
  proof (intro set_eqI iffI)
    fix e assume "e \<in> ev_what ` {e \<in> set (sched_events s). ev_start e \<le> now}"
    then obtain ev where ev: "ev \<in> set (sched_events s)" "ev_start ev \<le> now" "e = ev_what ev" by auto
    then have "(ev_id ev, ev_when ev, e) \<in> pending s" by (simp add: pending_def)
    with ev(2) show "e \<in> {e. \<exists>h r. (h, r, e) \<in> pending s \<and> tr_start r \<le> now}" by blast
  qed (auto simp: pending_def)
  finally show ?thesis .
qed

interpretation sq: event_queue Scheduler_add Handle_cancel Scheduler_dispatch pending sched_inv
  by unfold_locales
     (rule sched_inv_add pending_add pending_fresh sched_inv_cancel pending_cancel
        sched_inv_dispatch pending_dispatch set_dispatch; assumption)+

section \<open>Properties\<close>

lemma Min_insert_min:
  "finite A \<Longrightarrow> Min (insert (min a b) A) = Min (insert a (insert b A))"
  by (cases "A = {}") (simp_all add: min.assoc)

lemma dispatch_range_end_Min:
  assumes "sorted_wrt (\<lambda>a b. ev_start a \<le> ev_start b) evs"
    and "\<forall>ev\<in>set evs. ev_start ev \<le> tr_end (ev_when ev)"
  shows "dispatch_range_end e evs = Min (insert e ((tr_end \<circ> ev_when) ` set evs))"
  using assms
proof (induction evs arbitrary: e)
  case (Cons ev evs)
  show ?case
  proof (cases "e < ev_start ev")
    case True
    have "e \<le> tr_end (ev_when x)" if "x \<in> set (ev # evs)" for x
      using that Cons.prems True by fastforce
    then have "Min (insert e ((tr_end \<circ> ev_when) ` set (ev # evs))) = e"
      by (intro Min_eqI) auto
    with True show ?thesis by simp
  next
    case False
    with Cons have "dispatch_range_end e (ev # evs)
        = Min (insert (min e (tr_end (ev_when ev))) ((tr_end \<circ> ev_when) ` set evs))" by simp
    then show ?thesis by (simp only: Min_insert_min finite_imageI finite_set image_insert
        list.simps o_def)
  qed
qed simp

text \<open>
  C21. A scheduled event is neither lost nor delayed: whatever other events are scheduled,
  cancelled or dispatched in between, the first dispatch at or after the start of its range
  returns it.
\<close>

theorem scheduled_event_is_delivered:
  assumes "sched_inv s" and "tr_start r \<le> tr_end r"
    and "list_all (op_spares (fst (Scheduler_add r e s)) (tr_start r)) ops" and "tr_start r \<le> now"
  shows "e \<in> set (fst (Scheduler_dispatch now
      (queue_run Scheduler_add Handle_cancel Scheduler_dispatch (snd (Scheduler_add r e s)) ops)))"
  by (rule sq.delivered_when_due [OF assms])

theorem scheduled_event_is_delivered_witness:
  "CHR ''x'' \<in> set (fst (Scheduler_dispatch 7
      (queue_run Scheduler_add Handle_cancel Scheduler_dispatch
        (snd (Scheduler_add \<lparr>tr_start = 5, tr_end = 9\<rparr> (CHR ''x'') Scheduler_default))
        [QAdd \<lparr>tr_start = 5, tr_end = 6\<rparr> (CHR ''y''), QDispatch 4, QCancel 1])))"
  by (rule scheduled_event_is_delivered [OF sched_inv_default])
     (simp_all add: Scheduler_add_def Scheduler_default_def Let_def)

text \<open>
  Dispatching splits the queue: the returned events are exactly the due ones, each once, in
  order of their start times, and the rest stay queued.
\<close>

theorem dispatch_partitions_queue:
  assumes "sched_inv s" and "Scheduler_dispatch now s = (out, s')"
  shows "\<exists>due. out = map ev_what due \<and> sorted_wrt (\<lambda>a b. ev_start a \<le> ev_start b) due \<and>
           (\<forall>e\<in>set due. ev_start e \<le> now) \<and> (\<forall>e\<in>set (sched_events s'). now < ev_start e) \<and>
           mset (sched_events s) = mset due + mset (sched_events s')"
proof (intro exI conjI)
  let ?due = "rev (filter (\<lambda>e. ev_start e \<le> now) (sched_events s))"
  have sorted: "sorted_desc (sched_events s)" using assms(1) by (simp add: sched_inv_def)
  have s': "sched_events s' = filter (\<lambda>e. now < ev_start e) (sched_events s)"
    using assms(2) partition_split(1) [OF sorted]
    by (auto simp: Scheduler_dispatch_def Let_def)
  show "out = map ev_what ?due"
    using dispatch_events [OF assms(1), of now] assms(2) by simp
  show "sorted_wrt (\<lambda>a b. ev_start a \<le> ev_start b) ?due"
    using sorted_desc_filter [OF sorted] by (simp add: sorted_desc_def sorted_wrt_rev)
  show "mset (sched_events s) = mset ?due + mset (sched_events s')"
    unfolding s' mset_rev mset_filter
    using multiset_partition [of "mset (sched_events s)" "\<lambda>e. ev_start e \<le> now"]
    by (simp add: not_le)
  show "\<forall>e\<in>set ?due. ev_start e \<le> now" "\<forall>e\<in>set (sched_events s'). now < ev_start e"
    by (auto simp: s')
qed

theorem dispatch_partitions_queue_witness:
  "\<exists>due. [CHR ''x''] = map ev_what due \<and> mset [\<lparr>ev_id = 0, ev_when = \<lparr>tr_start = 5, tr_end = 9\<rparr>, ev_what = CHR ''x''\<rparr>]
     = mset due"
proof -
  let ?s = "snd (Scheduler_add \<lparr>tr_start = 5, tr_end = 9\<rparr> (CHR ''x'') Scheduler_default)"
  have inv: "sched_inv ?s" by (rule sched_inv_add [OF sched_inv_default]) simp
  have "Scheduler_dispatch 7 ?s = ([CHR ''x''], ?s\<lparr>sched_events := []\<rparr>)"
    by (simp add: Scheduler_dispatch_def Scheduler_add_def Scheduler_default_def Let_def
        partition_point_def insert_at_def)
  from dispatch_partitions_queue [OF inv this] show ?thesis
    by (auto simp: Scheduler_add_def Scheduler_default_def Let_def partition_point_def insert_at_def)
qed

text \<open>
  Cancelling through a handle removes exactly that event, although it is located by bisection;
  on a lapsed handle it does nothing.
\<close>

theorem cancel_removes_exactly_one:
  assumes "sched_inv s"
  shows "pending (Handle_cancel h s) = {x \<in> pending s. fst x \<noteq> h} \<and> sched_inv (Handle_cancel h s)"
  using assms sq.cancel_pend sq.cancel_inv by blast

theorem cancel_removes_exactly_one_witness:
  "let s = snd (Scheduler_add \<lparr>tr_start = 5, tr_end = 9\<rparr> ''b'' (snd (Scheduler_add \<lparr>tr_start = 2, tr_end = 3\<rparr> ''a'' Scheduler_default)))
   in sched_inv s \<and> pending (Handle_cancel 0 s) = {x \<in> pending s. fst x \<noteq> 0} \<and> sched_inv (Handle_cancel 0 s)"
proof -
  let ?s = "snd (Scheduler_add \<lparr>tr_start = 5, tr_end = 9\<rparr> ''b'' (snd (Scheduler_add \<lparr>tr_start = 2, tr_end = 3\<rparr> ''a'' Scheduler_default)))"
  have "sched_inv ?s" by (intro sched_inv_add sched_inv_default) simp_all
  with cancel_removes_exactly_one [OF this, of 0] show ?thesis by (simp add: Let_def)
qed

text \<open>
  The wake-up time announced by \<open>next_dispatch\<close> is the earliest deadline of all pending
  events, although the code only scans a prefix of the queue: dispatching then finds every due
  event inside its range and at least one event due.
\<close>

theorem next_dispatch_is_earliest_deadline:
  assumes "sched_inv s" and "sched_events s \<noteq> []"
  shows "next_dispatch s = Some (Min ((tr_end \<circ> ev_when) ` set (sched_events s)))"
proof -
  obtain ev evs where rev: "rev (sched_events s) = ev # evs"
    using assms(2) by (cases "rev (sched_events s)") auto
  from arg_cong [OF rev, of set] have set: "set (sched_events s) = insert ev (set evs)" by simp
  have "sorted_wrt (\<lambda>a b. ev_start a \<le> ev_start b) (rev (sched_events s))"
    using assms(1) by (simp add: sched_inv_def sorted_desc_def sorted_wrt_rev)
  then have asc: "sorted_wrt (\<lambda>a b. ev_start a \<le> ev_start b) evs"
    and first: "\<forall>x\<in>set evs. ev_start ev \<le> ev_start x" by (simp_all add: rev)
  have ends: "\<forall>x\<in>set (sched_events s). ev_start x \<le> tr_end (ev_when x)"
    using assms(1) by (simp add: sched_inv_def)
  let ?m = "Min (insert (tr_end (ev_when ev)) ((tr_end \<circ> ev_when) ` set evs))"
  have dl: "dispatch_range_end (tr_end (ev_when ev)) evs = ?m"
    using dispatch_range_end_Min [OF asc] ends set by auto
  have "ev_start ev \<le> ?m"
    using first ends set by (auto intro: order_trans)
  with dl rev set show ?thesis
    by (simp add: next_dispatch_def next_dispatch_range_def TimeRange_new_def)
qed

theorem next_dispatch_is_earliest_deadline_witness:
  "next_dispatch (snd (Scheduler_add \<lparr>tr_start = 5, tr_end = 9\<rparr> (CHR ''x'') Scheduler_default)) = Some 9"
proof -
  let ?s = "snd (Scheduler_add \<lparr>tr_start = 5, tr_end = 9\<rparr> (CHR ''x'') Scheduler_default)"
  have inv: "sched_inv ?s" by (rule sched_inv_add [OF sched_inv_default]) simp
  have evs: "sched_events ?s = [\<lparr>ev_id = 0, ev_when = \<lparr>tr_start = 5, tr_end = 9\<rparr>, ev_what = CHR ''x''\<rparr>]"
    by (simp add: Scheduler_add_def Scheduler_default_def Let_def partition_point_def insert_at_def)
  from next_dispatch_is_earliest_deadline [OF inv] evs show ?thesis by simp
qed

end
