(* ===== verification/Wg_Macs.thy ===== *)
theory Wg_Macs
  imports Wg_Messages Replay_Window Scheduler
begin

text \<open>
  Handshake MACs and cookies (\<open>wireguard/macs.rs\<close>).  \<open>Instant::now()\<close> is an argument.  The
  possible panics of the WireGuard backend are collected in one type.
\<close>

datatype wg_fault =
    ReplayFault replay_panic
  | PacketTooSmall
  | NonceExhausted
  | SessionNotInUse SessionId
  | NodeKeyNotInUse bytes
  | NodeKeyCollision
  | CannotEncrypt
  | EmptyTimeRange
  | SessionIdsStarved

definition MAC1_LABEL :: bytes where "MAC1_LABEL = map of_char ''mac1----''"
definition MAC2_LABEL :: bytes where "MAC2_LABEL = map of_char ''cookie--''"

definition COOKIE_ROTATION_TIME :: nat where
  "COOKIE_ROTATION_TIME = duration_from_secs 120"

definition mac1_key :: "crypto \<Rightarrow> bytes \<Rightarrow> bytes" where
  "mac1_key C key = blake2s C (MAC1_LABEL @ key)"

definition mac2_key :: "crypto \<Rightarrow> bytes \<Rightarrow> bytes" where
  "mac2_key C key = blake2s C (MAC2_LABEL @ key)"

record Mac2Cookie =
  mc_key :: bytes
  mc_expiry :: instant

record MACSender =
  ms_mac1_key :: bytes
  ms_mac2_key :: bytes
  ms_cookie :: "Mac2Cookie option"

record MACReceiver =
  mr_mac1_key :: bytes

definition MACSender_new :: "crypto \<Rightarrow> bytes \<Rightarrow> MACSender" where
  "MACSender_new C peer_key =
     \<lparr>ms_mac1_key = mac1_key C peer_key, ms_mac2_key = mac2_key C peer_key, ms_cookie = None\<rparr>"

definition write_macs :: "crypto \<Rightarrow> instant \<Rightarrow> MACSender \<Rightarrow> bytes \<Rightarrow> wg_fault + bytes \<times> bytes" where
  "write_macs C now s pkt =
     (if length pkt < 32 then Inl PacketTooSmall
      else
        let data = take (length pkt - 32) pkt;
            mac1 = blake2s_mac C (ms_mac1_key s) data;
            mac2 = (case ms_cookie s of
                      Some c \<Rightarrow> if mc_expiry c > now then blake2s_mac C (mc_key c) (data @ mac1) else replicate 16 0
                    | None \<Rightarrow> replicate 16 0)
        in Inr (mac1, data @ mac1 @ mac2))"

definition receive_cookie :: "crypto \<Rightarrow> instant \<Rightarrow> CookieReply \<Rightarrow> bytes \<Rightarrow> MACSender \<Rightarrow> MACSender" where
  "receive_cookie C now cookie handshake_mac s =
     (case xchacha_open C (ms_mac2_key s) (cr_nonce cookie) handshake_mac (cr_cookie_sealed cookie) of
        None \<Rightarrow> s
      | Some key \<Rightarrow> s\<lparr>ms_cookie := Some \<lparr>mc_key = key, mc_expiry = now + int COOKIE_ROTATION_TIME\<rparr>\<rparr>)"

definition MACReceiver_new :: "crypto \<Rightarrow> bytes \<Rightarrow> MACReceiver" where
  "MACReceiver_new C my_key = \<lparr>mr_mac1_key = mac1_key C my_key\<rparr>"

definition verify_macs :: "crypto \<Rightarrow> MACReceiver \<Rightarrow> bytes \<Rightarrow> bool" where
  "verify_macs C r pkt =
     (if length pkt < 32 then False
      else
        let data = take (length pkt - 32) pkt;
            mac1 = field (length pkt - 32) 16 pkt;
            mac2 = drop (length pkt - 16) pkt
        in if mac1 \<noteq> blake2s_mac C (mr_mac1_key r) data then False
           else if mac2 \<noteq> replicate 16 0 then False
           else True)"

section \<open>Properties\<close>

lemma write_macs_total: "32 \<le> length pkt \<Longrightarrow> \<exists>m p. write_macs C now s pkt = Inr (m, p)"
  by (simp add: write_macs_def Let_def)

definition cookie_live :: "instant \<Rightarrow> MACSender \<Rightarrow> bool" where
  "cookie_live now s = (case ms_cookie s of Some c \<Rightarrow> mc_expiry c > now | None \<Rightarrow> False)"

lemma write_macs_Inr:
  assumes "32 \<le> length pkt"
  shows "write_macs C now s pkt =
    (let data = take (length pkt - 32) pkt;
         mac1 = blake2s_mac C (ms_mac1_key s) data
     in Inr (mac1, data @ mac1 @
          (if cookie_live now s then blake2s_mac C (mc_key (the (ms_cookie s))) (data @ mac1)
           else replicate 16 0)))"
  using assms by (auto simp: write_macs_def cookie_live_def Let_def split: option.splits)

lemma verify_macs_append:
  assumes "length m1 = 16" and "length m2 = 16"
  shows "verify_macs C r (data @ m1 @ m2) \<longleftrightarrow> m1 = blake2s_mac C (mr_mac1_key r) data \<and> m2 = replicate 16 0"
  using assms by (auto simp: verify_macs_def Let_def field_def)

text \<open>
  A packet whose MACs were written for a peer is accepted by that peer exactly if the
  sender holds no live cookie (or its cookie MAC happens to be zero): the receiver insists on a
  zero second MAC, so a sender that did learn a cookie is refused until the cookie expires.
\<close>

theorem verify_written_macs:
  assumes "crypto_ok C" and "32 \<le> length pkt" and "ms_mac1_key s = mac1_key C key"
  shows "\<exists>mac1 pkt'. write_macs C now s pkt = Inr (mac1, pkt') \<and>
     length pkt' = length pkt \<and> take (length pkt - 32) pkt' = take (length pkt - 32) pkt \<and>
     (verify_macs C (MACReceiver_new C key) pkt' \<longleftrightarrow>
        (cookie_live now s \<longrightarrow>
          blake2s_mac C (mc_key (the (ms_cookie s))) (take (length pkt - 32) pkt @ mac1) = replicate 16 0))"
  using assms(2,3) crypto_okD(6) [OF assms(1)]
  by (simp add: write_macs_Inr Let_def verify_macs_append MACReceiver_new_def)

theorem verify_written_macs_witness:
  "\<exists>mac1 pkt'. write_macs sample_crypto 5 (MACSender_new sample_crypto [1, 2]) (replicate 40 7) = Inr (mac1, pkt') \<and>
     length pkt' = length (replicate 40 (7 :: u8)) \<and>
     take (length (replicate 40 (7 :: u8)) - 32) pkt' = take (length (replicate 40 (7 :: u8)) - 32) (replicate 40 7) \<and>
     (verify_macs sample_crypto (MACReceiver_new sample_crypto [1, 2]) pkt' \<longleftrightarrow>
        (cookie_live 5 (MACSender_new sample_crypto [1, 2]) \<longrightarrow>
          blake2s_mac sample_crypto (mc_key (the (ms_cookie (MACSender_new sample_crypto [1, 2]))))
            (take (length (replicate 40 (7 :: u8)) - 32) (replicate 40 7) @ mac1) = replicate 16 0))"
  by (rule verify_written_macs [OF sample_crypto_ok]) (simp_all add: MACSender_new_def)

end
