(* ===== verification/Packet.thy ===== *)
theory Packet
  imports Prelude
begin

text \<open>
  Packets (\<open>ts_packet/src/lib.rs\<close>).  A \<open>PacketMut\<close> is its bytes; operations that the
  underlying \<open>BytesMut\<close> refuses by a panic return \<^term>\<open>None\<close>.  \<open>grow_front\<close> is written
  as the code has it: resize, copy within, fill.
\<close>

datatype IpAddr = V4 bytes | V6 bytes

definition PacketMut_new :: "nat \<Rightarrow> bytes" where
  "PacketMut_new n = replicate n 0"

definition resize :: "nat \<Rightarrow> u8 \<Rightarrow> bytes \<Rightarrow> bytes" where
  "resize n b bs = take n bs @ replicate (n - length bs) b"

text \<open>\<open>slice::copy_within(..n, dest)\<close> and \<open>slice[..n].fill(b)\<close>, in range.\<close>

definition copy_within :: "nat \<Rightarrow> nat \<Rightarrow> bytes \<Rightarrow> bytes" where
  "copy_within n dest bs = take dest bs @ take n bs @ drop (dest + n) bs"

definition fill_front :: "nat \<Rightarrow> u8 \<Rightarrow> bytes \<Rightarrow> bytes" where
  "fill_front n b bs = replicate n b @ drop n bs"

definition write_front :: "bytes \<Rightarrow> bytes \<Rightarrow> bytes" where
  "write_front src bs = src @ drop (length src) bs"

definition grow_front :: "nat \<Rightarrow> bytes \<Rightarrow> bytes" where
  "grow_front len p =
     (let existing_len = length p
      in fill_front len 0 (copy_within existing_len len (resize (existing_len + len) 0 p)))"

definition extend_from_slice :: "bytes \<Rightarrow> bytes \<Rightarrow> bytes" where
  "extend_from_slice sl p = p @ sl"

definition extend_front_from_slice :: "bytes \<Rightarrow> bytes \<Rightarrow> bytes" where
  "extend_front_from_slice sl p = write_front sl (grow_front (length sl) p)"

definition truncate :: "nat \<Rightarrow> bytes \<Rightarrow> bytes" where
  "truncate count p = take count p"

definition truncate_front :: "nat \<Rightarrow> bytes \<Rightarrow> bytes option" where
  "truncate_front count p = (if count \<le> length p then Some (drop count p) else None)"

definition get_ip_family :: "bytes \<Rightarrow> nat option" where
  "get_ip_family p =
     (case p of
        [] \<Rightarrow> None
      | b # _ \<Rightarrow> if drop_bit 4 b = 4 then Some 4 else if drop_bit 4 b = 6 then Some 6 else None)"

definition ipv4_at :: "nat \<Rightarrow> bytes \<Rightarrow> IpAddr option" where
  "ipv4_at idx p = (if idx + 4 \<le> length p then Some (V4 (field idx 4 p)) else None)"

definition ipv6_at :: "nat \<Rightarrow> bytes \<Rightarrow> IpAddr option" where
  "ipv6_at idx p = (if idx + 16 \<le> length p then Some (V6 (field idx 16 p)) else None)"

definition get_src_addr :: "bytes \<Rightarrow> IpAddr option" where
  "get_src_addr p =
     (case get_ip_family p of
        None \<Rightarrow> None
      | Some f \<Rightarrow> if f = 4 then ipv4_at 12 p else if f = 6 then ipv6_at 8 p else None)"

definition get_dst_addr :: "bytes \<Rightarrow> IpAddr option" where
  "get_dst_addr p =
     (case get_ip_family p of
        None \<Rightarrow> None
      | Some f \<Rightarrow> if f = 4 then ipv4_at 16 p else if f = 6 then ipv6_at 24 p else None)"

text \<open>
  The two size queries of the \<open>bytes\<close> traits.  \<open>BytesMut::remaining_mut\<close> is what is left up to
  \<open>usize::MAX\<close>; \<open>Buf::remaining\<close> of a packet calls it.
\<close>

definition remaining_mut :: "bytes \<Rightarrow> u64" where
  "remaining_mut p = - 1 - of_nat (length p)"

definition Buf_remaining :: "bytes \<Rightarrow> u64" where
  "Buf_remaining p = remaining_mut p"

definition Buf_chunk :: "bytes \<Rightarrow> bytes" where
  "Buf_chunk p = p"

lemma grow_front_eq [simp]: "grow_front n p = replicate n 0 @ p"
proof -
  have "drop n (take n q @ p @ drop (n + length p) q) = p" if "length q = n + length p" for q :: bytes
    using that by simp
  then show ?thesis
    by (simp add: grow_front_def Let_def fill_front_def copy_within_def resize_def)
qed

lemma extend_front_eq [simp]: "extend_front_from_slice sl p = sl @ p"
  by (simp add: extend_front_from_slice_def write_front_def)

lemma truncate_front_append [simp]: "length h = n \<Longrightarrow> truncate_front n (h @ p) = Some p"
  by (simp add: truncate_front_def)

end
