(* ===== verification/Wg_Session.thy ===== *)
theory Wg_Session
  imports Wg_Macs Packet "HOL-Library.Sublist"
begin

text \<open>
  Transport sessions (\<open>wireguard/session.rs\<close>): the nonce generator, encryption of batches with
  their headers, and decryption under the replay window.  The mutex around the nonce is the
  explicit session state; a panic is a \<open>wg_fault\<close>.  A packet for another receiver is refused, as
  in a release build.
\<close>

section \<open>Nonces\<close>

record NonceGenerator =
  ng_nonce :: u64

record NonceIter =
  ni_cur :: u64
  ni_end :: u64

text \<open>\<open>num as u64\<close> is exact, so \<open>checked_add\<close> fails exactly if the sum leaves 64 bits.\<close>

definition batch :: "NonceGenerator \<Rightarrow> nat \<Rightarrow> wg_fault + NonceIter \<times> NonceGenerator" where
  "batch g num =
     (if unat (ng_nonce g) + num < 2 ^ 64
      then let e = ng_nonce g + of_nat num
           in Inr (\<lparr>ni_cur = ng_nonce g, ni_end = e\<rparr>, g\<lparr>ng_nonce := e\<rparr>)
      else Inl NonceExhausted)"

definition NonceIter_next :: "NonceIter \<Rightarrow> (u64 \<times> NonceIter) option" where
  "NonceIter_next it =
     (if ni_cur it = ni_end it then None else Some (ni_cur it, it\<lparr>ni_cur := ni_cur it + 1\<rparr>))"

definition Nonce_bytes :: "u64 \<Rightarrow> bytes" where
  "Nonce_bytes counter = to_le 4 (0 :: u32) @ to_le 8 counter"

section \<open>Sending\<close>

record TransmitSession =
  ts_cipher :: bytes
  ts_nonce :: NonceGenerator
  ts_id :: SessionId
  ts_created :: instant

definition TransmitSession_new :: "bytes \<Rightarrow> SessionId \<Rightarrow> instant \<Rightarrow> TransmitSession" where
  "TransmitSession_new key i now =
     \<lparr>ts_cipher = key, ts_nonce = \<lparr>ng_nonce = 0\<rparr>, ts_id = i, ts_created = now\<rparr>"

definition encrypt_one :: "crypto \<Rightarrow> TransmitSession \<Rightarrow> u64 \<Rightarrow> bytes \<Rightarrow> bytes" where
  "encrypt_one C s nonce packet =
     (let sealed = encrypt_in_place C (ts_cipher s) (Nonce_bytes nonce) [] packet;
          header = TransportDataHeader_default\<lparr>td_receiver_id := ts_id s, td_nonce := nonce\<rparr>
      in write_front (TransportDataHeader_bytes header) (grow_front 16 sealed))"

text \<open>\<open>packets.zip(nonce)\<close>: the loop stops when either side is exhausted.\<close>

fun encrypt_loop :: "crypto \<Rightarrow> TransmitSession \<Rightarrow> NonceIter \<Rightarrow> bytes list \<Rightarrow> bytes list" where
  "encrypt_loop C s it [] = []"
| "encrypt_loop C s it (p # ps) =
     (case NonceIter_next it of
        None \<Rightarrow> p # ps
      | Some (n, it') \<Rightarrow> encrypt_one C s n p # encrypt_loop C s it' ps)"

definition encrypt :: "crypto \<Rightarrow> TransmitSession \<Rightarrow> bytes list \<Rightarrow> wg_fault + TransmitSession \<times> bytes list" where
  "encrypt C s packets =
     bind_res (batch (ts_nonce s) (length packets)) (\<lambda>(it, g).
       Inr (s\<lparr>ts_nonce := g\<rparr>, encrypt_loop C s it packets))"

definition stale :: "TransmitSession \<Rightarrow> instant \<Rightarrow> bool" where
  "stale s now = (duration_since now (ts_created s) > duration_from_secs 120)"

definition ts_expired :: "TransmitSession \<Rightarrow> instant \<Rightarrow> bool" where
  "ts_expired s now = (duration_since now (ts_created s) > duration_from_secs 240)"

section \<open>Receiving\<close>

record ReceiveSession =
  rs_cipher :: bytes
  rs_id :: SessionId
  rs_created :: instant
  rs_window :: ReplayWindow

definition ReceiveSession_new :: "bytes \<Rightarrow> SessionId \<Rightarrow> instant \<Rightarrow> ReceiveSession" where
  "ReceiveSession_new key i now =
     \<lparr>rs_cipher = key, rs_id = i, rs_created = now, rs_window = ReplayWindow_default\<rparr>"

definition decrypt_one :: "crypto \<Rightarrow> ReceiveSession \<Rightarrow> bytes \<Rightarrow> wg_fault + ReceiveSession \<times> bytes option" where
  "decrypt_one C s pkt =
     (case TransportDataHeader_from_prefix pkt of
        None \<Rightarrow> Inr (s, None)
      | Some header \<Rightarrow>
          if td_receiver_id header \<noteq> rs_id s then Inr (s, None)
          else
            let counter = td_nonce header
            in if \<not> ReplayWindow_check (rs_window s) counter then Inr (s, None)
               else case truncate_front 16 pkt of
                      None \<Rightarrow> Inl PacketTooSmall
                    | Some body \<Rightarrow>
                        (case decrypt_in_place C (rs_cipher s) (Nonce_bytes counter) [] body of
                           None \<Rightarrow> Inr (s, None)
                         | Some plain \<Rightarrow>
                             (case ReplayWindow_set (rs_window s) counter of
                                Inl e \<Rightarrow> Inl (ReplayFault e)
                              | Inr w \<Rightarrow> Inr (s\<lparr>rs_window := w\<rparr>, Some plain))))"

definition decrypt :: "crypto \<Rightarrow> ReceiveSession \<Rightarrow> bytes list \<Rightarrow> wg_fault + ReceiveSession \<times> bytes list" where
  "decrypt C s packets = retain_mut_res (decrypt_one C) s packets"

definition rs_expired :: "ReceiveSession \<Rightarrow> instant \<Rightarrow> bool" where
  "rs_expired s now = (duration_since now (rs_created s) > duration_from_secs 240)"

text \<open>Successive calls on one session.\<close>

fun encrypt_run :: "crypto \<Rightarrow> TransmitSession \<Rightarrow> bytes list list \<Rightarrow> wg_fault + TransmitSession \<times> bytes list list" where
  "encrypt_run C s [] = Inr (s, [])"
| "encrypt_run C s (b # bs) =
     bind_res (encrypt C s b) (\<lambda>(s', out).
       bind_res (encrypt_run C s' bs) (\<lambda>(s'', outs). Inr (s'', out # outs)))"

fun decrypt_run :: "crypto \<Rightarrow> ReceiveSession \<Rightarrow> bytes list list \<Rightarrow> wg_fault + ReceiveSession \<times> bytes list list" where
  "decrypt_run C s [] = Inr (s, [])"
| "decrypt_run C s (b # bs) =
     bind_res (decrypt C s b) (\<lambda>(s', out).
       bind_res (decrypt_run C s' bs) (\<lambda>(s'', outs). Inr (s'', out # outs)))"

definition packet_counter :: "bytes \<Rightarrow> u64 option" where
  "packet_counter pkt = map_option td_nonce (TransportDataHeader_from_prefix pkt)"

section \<open>Encryption\<close>

lemma of_nat_u64_eq:
  "n < 2 ^ 64 \<Longrightarrow> m < 2 ^ 64 \<Longrightarrow> of_nat n = (of_nat m :: u64) \<longleftrightarrow> n = m"
  by (simp add: word_of_nat_eq_iff take_bit_nat_eq_self)

lemma unat_u64: "n < 2 ^ 64 \<Longrightarrow> unat (of_nat n :: u64) = n"
  by (simp add: unat_of_nat)

lemma encrypt_one_eq:
  "encrypt_one C s n p =
     TransportDataHeader_bytes (TransportDataHeader_default\<lparr>td_receiver_id := ts_id s, td_nonce := n\<rparr>) @
     encrypt_in_place C (ts_cipher s) (Nonce_bytes n) [] p"
  by (simp add: encrypt_one_def Let_def write_front_def TransportDataHeader_bytes_def TransportDataHeader_default_def)

lemma encrypt_one_header:
  "TransportDataHeader_from_prefix (encrypt_one C s n p) =
     Some (TransportDataHeader_default\<lparr>td_receiver_id := ts_id s, td_nonce := n\<rparr>)"
  unfolding TransportDataHeader_layout encrypt_one_eq
  by (auto simp: td_sized_def TransportDataHeader_default_def)

lemma packet_counter_encrypt_one [simp]: "packet_counter (encrypt_one C s n p) = Some n"
  by (simp add: packet_counter_def encrypt_one_header)

lemma encrypt_one_cong:
  "ts_cipher s = ts_cipher t \<Longrightarrow> ts_id s = ts_id t \<Longrightarrow> encrypt_one C s = encrypt_one C t"
  by (intro ext) (simp add: encrypt_one_def)

lemma encrypt_loop_eq:
  "n + length ps < 2 ^ 64 \<Longrightarrow>
   encrypt_loop C s \<lparr>ni_cur = of_nat n, ni_end = of_nat (n + length ps)\<rparr> ps =
     map2 (encrypt_one C s) (map of_nat [n..<n + length ps]) ps"
proof (induction ps arbitrary: n)
  case (Cons p ps)
  from Cons.prems have "(of_nat n :: u64) \<noteq> of_nat (n + length (p # ps))"
    by (subst of_nat_u64_eq) simp_all
  moreover have "[n..<n + length (p # ps)] = n # [Suc n..<Suc n + length ps]" by (simp add: upt_conv_Cons del: upt_Suc)
  ultimately show ?case
    using Cons.IH [of "Suc n"] Cons.prems by (simp add: NonceIter_next_def add.commute del: upt_Suc)
qed simp

definition counter_of :: "TransmitSession \<Rightarrow> nat" where
  "counter_of s = unat (ng_nonce (ts_nonce s))"

lemma counter_of_upd: "n < 2 ^ 64 \<Longrightarrow> counter_of (s\<lparr>ts_nonce := \<lparr>ng_nonce = of_nat n\<rparr>\<rparr>) = n"
  by (simp add: counter_of_def unat_u64)

lemma encrypt_eq:
  "encrypt C s ps =
     (if counter_of s + length ps < 2 ^ 64
      then Inr (s\<lparr>ts_nonce := \<lparr>ng_nonce = of_nat (counter_of s + length ps)\<rparr>\<rparr>,
             map2 (encrypt_one C s) (map of_nat [counter_of s..<counter_of s + length ps]) ps)
      else Inl NonceExhausted)"
  using encrypt_loop_eq [of "counter_of s" ps C s]
  by (simp add: encrypt_def batch_def Let_def counter_of_def)

lemma counter_of_encrypt:
  assumes "encrypt C s ps = Inr (s', out)"
  shows "counter_of s' = counter_of s + length ps" and "counter_of s' < 2 ^ 64"
    and "ts_cipher s' = ts_cipher s" and "ts_id s' = ts_id s" and "ts_created s' = ts_created s"
    and "length out = length ps"
proof -
  from assms have "counter_of s + length ps < 2 ^ 64"
    and s': "s' = s\<lparr>ts_nonce := \<lparr>ng_nonce = of_nat (counter_of s + length ps)\<rparr>\<rparr>"
    by (auto simp: encrypt_eq split: if_splits)
  then show "counter_of s' = counter_of s + length ps" "counter_of s' < 2 ^ 64"
    by (simp_all only: s' counter_of_upd)
qed (use assms in \<open>auto simp: encrypt_eq split: if_splits\<close>)

lemma encrypt_counters:
  assumes "encrypt C s ps = Inr (s', out)"
  shows "map packet_counter out = map (Some \<circ> of_nat) [counter_of s..<counter_of s + length ps]"
proof -
  have "map packet_counter (map2 (encrypt_one C s) ns ps) = map Some ns" if "length ns = length ps" for ns
    using that by (induction ns ps rule: list_induct2) simp_all
  from this [of "map of_nat [counter_of s..<counter_of s + length ps]"] assms show ?thesis
    by (auto simp: encrypt_eq split: if_splits)
qed

lemma encrypt_run_counters:
  "case encrypt_run C s bs of
     Inl e \<Rightarrow> e = NonceExhausted \<and> 2 ^ 64 \<le> counter_of s + length (concat bs)
   | Inr (s', outs) \<Rightarrow>
       counter_of s' = counter_of s + length (concat bs) \<and> map length outs = map length bs \<and>
       counter_of s' < 2 ^ 64 \<and>
       map packet_counter (concat outs) = map (Some \<circ> of_nat) [counter_of s..<counter_of s']"
proof (induction bs arbitrary: s)
  case Nil
  have "counter_of s < 2 ^ 64" unfolding counter_of_def using unat_less_2pow [of "ng_nonce (ts_nonce s)"] by simp
  then show ?case by simp
next
  case (Cons b bs)
  show ?case
  proof (cases "encrypt C s b")
    case (Inl e)
    then show ?thesis by (auto simp: encrypt_eq split: if_splits)
  next
    case (Inr r)
    obtain s' out where r: "encrypt C s b = Inr (s', out)" using Inr by (cases r) auto
    note c = counter_of_encrypt [OF r] and m = encrypt_counters [OF r]
    have "[counter_of s..<counter_of s' + k] = [counter_of s..<counter_of s'] @ [counter_of s'..<counter_of s' + k]" for k
      by (rule upt_add_eq_append) (simp add: c(1))
    with Cons.IH [of s'] r c m show ?thesis
      by (auto split: sum.splits prod.splits simp: add.assoc)
  qed
qed

text \<open>
  C3. However the traffic of a session is cut into batches, the counters put on the wire are
  \<open>0, 1, 2, \<dots>\<close> in order, so no AEAD nonce is ever used twice under a session key; the only way to
  fail is the deliberate panic once \<open>2^64\<close> counters are used up.
\<close>

theorem session_nonces_never_repeat:
  "case encrypt_run C (TransmitSession_new k i now) bs of
     Inl e \<Rightarrow> e = NonceExhausted \<and> 2 ^ 64 \<le> length (concat bs)
   | Inr (s, outs) \<Rightarrow>
       map length outs = map length bs \<and>
       map packet_counter (concat outs) = map (Some \<circ> of_nat) [0..<length (concat bs)] \<and>
       distinct (map packet_counter (concat outs))"
proof -
  have "counter_of (TransmitSession_new k i now) = 0" by (simp add: counter_of_def TransmitSession_new_def)
  moreover have "distinct (map (Some \<circ> of_nat :: nat \<Rightarrow> u64 option) [0..<n])" if "n < 2 ^ 64" for n
    using that by (auto simp: distinct_map inj_on_def of_nat_u64_eq)
  ultimately show ?thesis
    using encrypt_run_counters [where C = C and s = "TransmitSession_new k i now" and bs = bs]
    by (auto split: sum.splits prod.splits)
qed

section \<open>Decryption\<close>

definition rs_inv :: "ReceiveSession \<Rightarrow> bool" where
  "rs_inv s \<longleftrightarrow> (\<exists>S. rw_seen (rs_window s) S)"

lemma rs_inv_new [simp]: "rs_inv (ReceiveSession_new k i t)"
  unfolding rs_inv_def ReceiveSession_new_def using rw_seen_default by auto

lemma header_length: "TransportDataHeader_from_prefix pkt = Some h \<Longrightarrow> 16 \<le> length pkt"
  by (simp add: TransportDataHeader_from_prefix_def split: if_splits)

text \<open>The verdict on one packet, as the AEAD and the window decide it.\<close>

lemma decrypt_one_cases:
  assumes "decrypt_one C s pkt = r"
  obtains "r = Inr (s, None)"
  | h plain where "TransportDataHeader_from_prefix pkt = Some h" and "td_receiver_id h = rs_id s"
      and "ReplayWindow_check (rs_window s) (td_nonce h)"
      and "decrypt_in_place C (rs_cipher s) (Nonce_bytes (td_nonce h)) [] (drop 16 pkt) = Some plain"
      and "r = (case ReplayWindow_set (rs_window s) (td_nonce h) of
                  Inl e \<Rightarrow> Inl (ReplayFault e) | Inr w \<Rightarrow> Inr (s\<lparr>rs_window := w\<rparr>, Some plain))"
  using assms unfolding decrypt_one_def Let_def truncate_front_def
  by (auto split: option.splits if_splits dest: header_length)

lemma decrypt_one_total:
  assumes "rs_inv s"
  shows "\<exists>s' v. decrypt_one C s pkt = Inr (s', v) \<and>
     rs_inv s' \<and> rs_cipher s' = rs_cipher s \<and> rs_id s' = rs_id s \<and> rs_created s' = rs_created s"
proof (cases rule: decrypt_one_cases [OF refl, of C s pkt])
  case 1
  with assms show ?thesis by simp
next
  case (2 h plain)
  from assms obtain S where S: "rw_seen (rs_window s) S" by (auto simp: rs_inv_def)
  from set_seen [OF S 2(3)] obtain w where "ReplayWindow_set (rs_window s) (td_nonce h) = Inr w"
    "rw_seen w (insert (td_nonce h) S)" by blast
  with 2(5) show ?thesis by (auto simp: rs_inv_def)
qed

lemma decrypt_total:
  assumes "rs_inv s"
  shows "decrypt C s pkts = Inr (retain_mut (skip_panic (decrypt_one C)) s pkts)"
    and "rs_inv (fst (retain_mut (skip_panic (decrypt_one C)) s pkts))"
    and "rs_id (fst (retain_mut (skip_panic (decrypt_one C)) s pkts)) = rs_id s"
    and "rs_cipher (fst (retain_mut (skip_panic (decrypt_one C)) s pkts)) = rs_cipher s"
    and "rs_created (fst (retain_mut (skip_panic (decrypt_one C)) s pkts)) = rs_created s"
proof -
  let ?I = "\<lambda>r. rs_inv r \<and> rs_cipher r = rs_cipher s \<and> rs_id r = rs_id s \<and> rs_created r = rs_created s"
  have "\<exists>r' v. decrypt_one C r x = Inr (r', v) \<and> ?I r'" if "?I r" for r x
    using decrypt_one_total [of r C x] that by auto
  from retain_mut_res_total [of ?I "decrypt_one C" s pkts, OF this] assms
  have "decrypt C s pkts = Inr (retain_mut (skip_panic (decrypt_one C)) s pkts) \<and>
      ?I (fst (retain_mut (skip_panic (decrypt_one C)) s pkts))"
    by (simp add: decrypt_def)
  then show "decrypt C s pkts = Inr (retain_mut (skip_panic (decrypt_one C)) s pkts)"
    "rs_inv (fst (retain_mut (skip_panic (decrypt_one C)) s pkts))"
    "rs_id (fst (retain_mut (skip_panic (decrypt_one C)) s pkts)) = rs_id s"
    "rs_cipher (fst (retain_mut (skip_panic (decrypt_one C)) s pkts)) = rs_cipher s"
    "rs_created (fst (retain_mut (skip_panic (decrypt_one C)) s pkts)) = rs_created s"
    by blast+
qed

lemma decrypt_run_concat:
  assumes "rs_inv s"
  shows "\<exists>s' outs. decrypt_run C s bs = Inr (s', outs) \<and> rs_inv s' \<and>
           retain_mut (skip_panic (decrypt_one C)) s (concat bs) = (s', concat outs)"
  using assms
proof (induction bs arbitrary: s)
  case (Cons b bs)
  obtain s1 out where r: "retain_mut (skip_panic (decrypt_one C)) s b = (s1, out)" by fastforce
  with decrypt_total [OF Cons.prems, of C b] have d: "decrypt C s b = Inr (s1, out)" "rs_inv s1" by simp_all
  from Cons.IH [OF d(2)] d(1) r show ?case by (auto simp: retain_mut_append)
qed simp

text \<open>What decryption accepts is authentic and arrives in order, one plaintext per packet.\<close>

definition authentic :: "crypto \<Rightarrow> bytes \<Rightarrow> SessionId \<Rightarrow> bytes \<Rightarrow> bytes \<Rightarrow> bool" where
  "authentic C k i pkt plain \<longleftrightarrow>
     (\<exists>h. TransportDataHeader_from_prefix pkt = Some h \<and> td_receiver_id h = i \<and>
          decrypt_in_place C k (Nonce_bytes (td_nonce h)) [] (drop 16 pkt) = Some plain)"

lemma skip_panic_decrypt_one:
  assumes "skip_panic (decrypt_one C) s pkt = (s', v)"
  shows "rs_cipher s' = rs_cipher s \<and> rs_id s' = rs_id s \<and>
    (case v of
       None \<Rightarrow> rs_window s' = rs_window s
     | Some plain \<Rightarrow> authentic C (rs_cipher s) (rs_id s) pkt plain \<and>
         ReplayWindow_check (rs_window s) (the (packet_counter pkt)) \<and>
         ReplayWindow_set (rs_window s) (the (packet_counter pkt)) = Inr (rs_window s'))"
proof (cases rule: decrypt_one_cases [OF refl, of C s pkt])
  case 1
  with assms show ?thesis by (auto simp: skip_panic_def)
next
  case (2 h plain)
  show ?thesis
  proof (cases "ReplayWindow_set (rs_window s) (td_nonce h)")
    case (Inl e)
    with assms 2(5) show ?thesis by (auto simp: skip_panic_def)
  next
    case (Inr w)
    with assms 2(5) have "s' = s\<lparr>rs_window := w\<rparr>" "v = Some plain" by (simp_all add: skip_panic_def)
    with 2 Inr show ?thesis by (simp add: packet_counter_def authentic_def)
  qed
qed

lemma kept_authentic:
  "list_all2 (authentic C (rs_cipher s) (rs_id s)) (kept (skip_panic (decrypt_one C)) s pkts)
     (snd (retain_mut (skip_panic (decrypt_one C)) s pkts))"
proof (induction pkts arbitrary: s)
  case (Cons p ps)
  obtain s' v where f: "skip_panic (decrypt_one C) s p = (s', v)" by fastforce
  from skip_panic_decrypt_one [OF f] Cons.IH [of s'] f show ?case
    by (cases v) (auto split: prod.splits)
qed simp

lemma subseq_kept: "subseq (kept f s xs) xs"
proof (induction xs arbitrary: s)
  case (Cons x xs)
  then show ?case by (cases "f s x"; cases "snd (f s x)") auto
qed simp

lemma authentic_counter: "authentic C k i pkt plain \<Longrightarrow> packet_counter pkt = Some (the (packet_counter pkt))"
  by (auto simp: authentic_def packet_counter_def)


section \<open>Delivery\<close>

lemma decrypt_one_encrypt_one:
  assumes "crypto_ok C" and "rs_cipher r = ts_cipher s" and "rs_id r = ts_id s"
    and "ReplayWindow_check (rs_window r) n" and "ReplayWindow_set (rs_window r) n = Inr w"
  shows "decrypt_one C r (encrypt_one C s n p) = Inr (r\<lparr>rs_window := w\<rparr>, Some p)"
proof -
  have "truncate_front 16 (encrypt_one C s n p) = Some (encrypt_in_place C (ts_cipher s) (Nonce_bytes n) [] p)"
    unfolding encrypt_one_eq
    by (rule truncate_front_append) (simp add: TransportDataHeader_bytes_def TransportDataHeader_default_def)
  with assms show ?thesis
    by (simp add: decrypt_one_def encrypt_one_header decrypt_encrypt_in_place)
qed

text \<open>
  A list of counters is \<^term>\<open>in_window hi\<close> if none of them lags 192 or more behind the highest one
  delivered before it.
\<close>

fun in_window :: "nat \<Rightarrow> nat list \<Rightarrow> bool" where
  "in_window hi [] = True"
| "in_window hi (c # cs) = (hi < c + 192 \<and> in_window (max hi c) cs)"

lemma decrypt_encrypted:
  assumes ok: "crypto_ok C" and key: "rs_cipher r = ts_cipher s" "rs_id r = ts_id s"
    and seen: "rw_seen (rs_window r) S" and "in_window (unat (rw_last (rs_window r))) cs" and "distinct cs"
    and "\<forall>c\<in>set cs. c < 2 ^ 64 \<and> of_nat c \<notin> S"
  shows "\<exists>r'. decrypt C r (map (\<lambda>c. encrypt_one C s (of_nat c) (msg c)) cs) = Inr (r', map msg cs) \<and>
     rw_seen (rs_window r') (S \<union> of_nat ` set cs)"
  using key seen assms(5-)
proof (induction cs arbitrary: r S)
  case Nil
  then show ?case by (auto simp: decrypt_def)
next
  case (Cons c cs)
  let ?c = "of_nat c :: u64"
  have u: "unat ?c = c" using Cons.prems(6) by (simp add: unat_u64)
  have chk: "ReplayWindow_check (rs_window r) ?c"
    using check_iff [OF Cons.prems(3), of ?c] Cons.prems(4,6) u by simp
  from set_seen [OF Cons.prems(3) this] obtain w where
    w: "ReplayWindow_set (rs_window r) ?c = Inr w" "rw_seen w (insert ?c S)" "rw_last w = max (rw_last (rs_window r)) ?c"
    by blast
  have "unat (rw_last w) = max (unat (rw_last (rs_window r))) c"
    using u by (simp add: w(3) max_def word_le_nat_alt)
  moreover have "of_nat d \<noteq> ?c" if "d \<in> set cs" for d
    using that Cons.prems(5,6) of_nat_u64_eq [of d c] by auto
  ultimately have "\<exists>r'. decrypt C (r\<lparr>rs_window := w\<rparr>) (map (\<lambda>c. encrypt_one C s (of_nat c) (msg c)) cs) =
        Inr (r', map msg cs) \<and> rw_seen (rs_window r') (insert ?c S \<union> of_nat ` set cs)"
    using Cons.prems w(2) by (intro Cons.IH) simp_all
  then obtain r' where
    d: "decrypt C (r\<lparr>rs_window := w\<rparr>) (map (\<lambda>c. encrypt_one C s (of_nat c) (msg c)) cs) = Inr (r', map msg cs)"
    and s: "rw_seen (rs_window r') (insert ?c S \<union> of_nat ` set cs)" by blast
  have "decrypt C r (map (\<lambda>c. encrypt_one C s (of_nat c) (msg c)) (c # cs)) = Inr (r', map msg (c # cs))"
    using decrypt_one_encrypt_one [OF ok Cons.prems(1,2) chk w(1)] d by (simp add: decrypt_def)
  with s show ?case by auto
qed

text \<open>
  C17. Packets encrypted on one side of a session and delivered to the other in any order, with
  any of them lost, are decrypted to exactly the packets sent, as long as none arrives 192 or more
  counters behind the newest one already delivered.
\<close>

theorem reordered_lossy_delivery:
  assumes "crypto_ok C" and "encrypt C (TransmitSession_new k i t) ps = Inr (s, cts)"
    and "distinct order" and "\<forall>n\<in>set order. n < length ps" and "in_window 0 order"
  shows "\<exists>r. decrypt C (ReceiveSession_new k i t') (map (\<lambda>n. cts ! n) order) = Inr (r, map (\<lambda>n. ps ! n) order)"
proof -
  let ?ts = "TransmitSession_new k i t" and ?rs = "ReceiveSession_new k i t'"
  have c0: "counter_of ?ts = 0" by (simp add: counter_of_def TransmitSession_new_def)
  from assms(2) have len: "length ps < 2 ^ 64"
    and cts: "cts = map2 (encrypt_one C ?ts) (map of_nat [0..<length ps]) ps"
    by (auto simp: encrypt_eq c0 split: if_splits)
  have "map (\<lambda>n. cts ! n) order = map (\<lambda>n. encrypt_one C ?ts (of_nat n) (ps ! n)) order"
    using assms(4) by (simp add: cts)
  moreover have "\<exists>r. decrypt C ?rs (map (\<lambda>n. encrypt_one C ?ts (of_nat n) (ps ! n)) order) =
        Inr (r, map (\<lambda>n. ps ! n) order) \<and> rw_seen (rs_window r) ({} \<union> of_nat ` set order)"
    using assms len by (intro decrypt_encrypted)
      (auto simp: TransmitSession_new_def ReceiveSession_new_def rw_seen_default, simp add: ReplayWindow_default_def)
  ultimately show ?thesis by (simp only:) blast
qed

theorem reordered_lossy_delivery_witness:
  "\<exists>s cts r. encrypt sample_crypto (TransmitSession_new [1] 5 0) [[10], [20, 21], []] = Inr (s, cts) \<and>
     decrypt sample_crypto (ReceiveSession_new [1] 5 0) (map (\<lambda>n. cts ! n) [2, 0]) = Inr (r, [[], [10]])"
proof -
  have "counter_of (TransmitSession_new [1] 5 0) = 0" by (simp add: counter_of_def TransmitSession_new_def)
  then obtain s cts where e: "encrypt sample_crypto (TransmitSession_new [1] 5 0) [[10], [20, 21], []] = Inr (s, cts)"
    by (simp add: encrypt_eq del: upt_Suc)
  from reordered_lossy_delivery [OF sample_crypto_ok e, of "[2, 0]" 0] e show ?thesis by auto
qed

end
