(* ===== verification/Tai_Clock.thy ===== *)
theory Tai_Clock
  imports Prelude
begin

text \<open>
  TAI64N timestamps and the monotone clock of \<open>ts_tunnel/src/wireguard/time.rs\<close>.  A
  \<open>SystemTime\<close> is the number of nanoseconds since the Unix epoch, as an integer.  The clock
  issues strictly increasing timestamps whatever the system time does; responders rely on this
  to tell fresh handshake initiations from replayed ones.
\<close>

section \<open>The model\<close>

record TAI64N =
  secs :: u64
  nanos :: u32

text \<open>The derived ordering: lexicographic, on the values of the big-endian fields.\<close>

definition tai_less :: "TAI64N \<Rightarrow> TAI64N \<Rightarrow> bool" where
  "tai_less a b \<longleftrightarrow> secs a < secs b \<or> (secs a = secs b \<and> nanos a < nanos b)"

definition TAI_BASE :: u64 where "TAI_BASE = 0x400000000000000a"
definition WHITEN_MASK :: u32 where "WHITEN_MASK = NOT 0xFFFFFF"
definition WHITEN_INCREMENT :: u32 where "WHITEN_INCREMENT = NOT WHITEN_MASK + 1"

definition clamp_after :: "TAI64N \<Rightarrow> TAI64N \<Rightarrow> TAI64N" where
  "clamp_after self mn =
     (if tai_less mn self then self
      else
        let (ns, carry) = overflowing_add (nanos mn) WHITEN_INCREMENT;
            s = (if carry then secs mn + 1 else secs mn)
        in \<lparr>secs = s, nanos = ns AND WHITEN_MASK\<rparr>)"

type_synonym systime = int

definition duration_secs :: "nat \<Rightarrow> u64" where
  "duration_secs d = of_nat (d div 10 ^ 9)"

definition subsec_nanos :: "nat \<Rightarrow> u32" where
  "subsec_nanos d = of_nat (d mod 10 ^ 9)"

definition TAI64N_from :: "systime \<Rightarrow> TAI64N" where
  "TAI64N_from v =
     (if v < 0 then
        let now = nat (- v);
            (s, ns) = (if subsec_nanos now = 0 then (duration_secs now, 0)
                       else (duration_secs now + 1, 1000000000 - subsec_nanos now))
        in \<lparr>secs = TAI_BASE - s, nanos = ns AND WHITEN_MASK\<rparr>
      else
        let now = nat v
        in \<lparr>secs = TAI_BASE + duration_secs now, nanos = subsec_nanos now AND WHITEN_MASK\<rparr>)"

record TAI64NClock =
  clock_last :: TAI64N

definition TAI64NClock_new :: TAI64NClock where
  "TAI64NClock_new = \<lparr>clock_last = \<lparr>secs = 0, nanos = 0\<rparr>\<rparr>"

definition clock_now :: "systime \<Rightarrow> TAI64NClock \<Rightarrow> TAI64N \<times> TAI64NClock" where
  "clock_now st clk =
     (let t = clamp_after (TAI64N_from st) (clock_last clk) in (t, clk\<lparr>clock_last := t\<rparr>))"

text \<open>The wire form of a timestamp: big-endian seconds, then big-endian nanoseconds.\<close>

definition TAI64N_bytes :: "TAI64N \<Rightarrow> bytes" where
  "TAI64N_bytes t = to_be 8 (secs t) @ to_be 4 (nanos t)"

definition TAI64N_of_bytes :: "bytes \<Rightarrow> TAI64N" where
  "TAI64N_of_bytes bs = \<lparr>secs = of_be (take 8 bs), nanos = of_be (drop 8 bs)\<rparr>"

section \<open>Ordering and whitening\<close>

lemma tai_less_irrefl [simp]: "\<not> tai_less a a"
  by (simp add: tai_less_def)

lemma tai_less_trans: "tai_less a b \<Longrightarrow> tai_less b c \<Longrightarrow> tai_less a c"
  by (auto simp: tai_less_def)

lemma tai_less_linear: "tai_less a b \<or> a = b \<or> tai_less b a"
  by (cases a; cases b) (auto simp: tai_less_def)

lemma TAI64N_bytes_roundtrip [simp]: "TAI64N_of_bytes (TAI64N_bytes t) = t"
  by (simp add: TAI64N_of_bytes_def TAI64N_bytes_def)

lemma length_TAI64N_bytes [simp]: "length (TAI64N_bytes t) = 12"
  by (simp add: TAI64N_bytes_def)

lemma whiten_consts: "WHITEN_MASK = 0xFF000000" "WHITEN_INCREMENT = 0x1000000"
  by (simp_all add: WHITEN_MASK_def WHITEN_INCREMENT_def)

lemma unat_whiten: "unat (x AND WHITEN_MASK) = (unat x div 2 ^ 24) * 2 ^ 24"
proof -
  have "(0xFFFFFF :: u32) = mask 24" by (simp add: mask_eq_exp_minus_1)
  then have wm: "WHITEN_MASK = NOT (mask 24)" by (simp add: WHITEN_MASK_def)
  have "x AND WHITEN_MASK = push_bit 24 (drop_bit 24 x)"
    unfolding wm by (rule bit_word_eqI) (auto simp: bit_simps)
  also have "unat \<dots> = (unat x div 2 ^ 24 * 2 ^ 24) mod 2 ^ 32"
    by (simp add: push_bit_eq_mult unat_word_ariths unat_drop_bit)
  also have "\<dots> = unat x div 2 ^ 24 * 2 ^ 24"
    using unat_less_2pow [of x] by (simp add: order.strict_trans1 [OF div_times_less_eq_dividend])
  finally show ?thesis .
qed

lemma clamp_after_less:
  assumes "unat (secs mn) < 2 ^ 64 - 1"
  shows "tai_less mn (clamp_after self mn)"
proof (cases "tai_less mn self")
  case True
  then show ?thesis by (simp add: clamp_after_def)
next
  case False
  let ?n = "nanos mn + WHITEN_INCREMENT"
  show ?thesis
  proof (cases "2 ^ 32 \<le> unat (nanos mn) + 2 ^ 24")
    case True
    with assms False show ?thesis
      by (auto simp: clamp_after_def overflowing_add_def whiten_consts tai_less_def
          word_less_nat_alt unat_word_ariths)
  next
    case less: False
    have "unat ?n = unat (nanos mn) + 2 ^ 24"
      using less by (simp add: unat_word_ariths whiten_consts)
    then have "unat (nanos mn) < unat (?n AND WHITEN_MASK)"
      unfolding unat_whiten by simp
    with less False show ?thesis
      by (auto simp: clamp_after_def overflowing_add_def whiten_consts tai_less_def
          word_less_nat_alt)
  qed
qed

lemma secs_clamp_after:
  "unat (secs (clamp_after self mn)) \<le> max (unat (secs self)) (unat (secs mn) + 1)"
proof -
  have "unat (secs mn + 1) \<le> unat (secs mn) + 1"
    by (simp add: unat_word_ariths mod_less_eq_dividend)
  then show ?thesis
    by (auto simp: clamp_after_def Let_def split: prod.splits)
qed

section \<open>Conversion from the system time\<close>

text \<open>
  Both branches of the conversion are the floor division of the signed nanosecond count, so
  timestamps order system times across the epoch.
\<close>

lemma subsec_nanos_eq_0_iff: "subsec_nanos d = 0 \<longleftrightarrow> d mod 10 ^ 9 = 0"
proof -
  have "d mod 10 ^ 9 < 2 ^ 32" by (rule order.strict_trans [of _ "10 ^ 9"]) simp_all
  then have "(2 ^ 32 :: nat) dvd d mod 10 ^ 9 \<longleftrightarrow> d mod 10 ^ 9 = 0"
    by (metis dvd_0_right nat_dvd_not_less neq0_conv)
  then show ?thesis by (simp add: subsec_nanos_def word_of_nat_eq_0_iff)
qed

lemma TAI64N_from_floor:
  "TAI64N_from v = \<lparr>secs = TAI_BASE + of_int (v div 10 ^ 9),
                    nanos = of_int (v mod 10 ^ 9) AND WHITEN_MASK\<rparr>"
proof (cases "v < 0")
  case True
  define d where "d = nat (- v)"
  with True have v: "v = - int d" by simp
  have r: "int d mod 10 ^ 9 = 0 \<longleftrightarrow> d mod 10 ^ 9 = 0"
    by (metis of_nat_0_eq_iff of_nat_numeral of_nat_power zmod_int)
  have q: "(of_int (int d div 10 ^ 9) :: u64) = duration_secs d"
    "(of_int (int d mod 10 ^ 9) :: u32) = subsec_nanos d"
    by (metis duration_secs_def of_int_of_nat_eq of_nat_numeral of_nat_power zdiv_int,
        metis subsec_nanos_def of_int_of_nat_eq of_nat_numeral of_nat_power zmod_int)
  show ?thesis
  proof (cases "d mod 10 ^ 9 = 0")
    case True
    with \<open>v < 0\<close> r q show ?thesis
      by (simp add: TAI64N_from_def d_def [symmetric] subsec_nanos_eq_0_iff v zdiv_zminus1_eq_if
          zmod_zminus1_eq_if)
  next
    case False
    with \<open>v < 0\<close> r q show ?thesis
      by (simp add: TAI64N_from_def d_def [symmetric] subsec_nanos_eq_0_iff v zdiv_zminus1_eq_if
          zmod_zminus1_eq_if)
  qed
next
  case False
  then have v: "v = int (nat v)" by simp
  have "(of_int (v div 10 ^ 9) :: u64) = duration_secs (nat v)"
    "(of_int (v mod 10 ^ 9) :: u32) = subsec_nanos (nat v)"
    by (subst v, metis duration_secs_def of_int_of_nat_eq of_nat_numeral of_nat_power zdiv_int)
       (subst v, metis subsec_nanos_def of_int_of_nat_eq of_nat_numeral of_nat_power zmod_int)
  with False show ?thesis by (simp add: TAI64N_from_def Let_def)
qed

text \<open>
  The range in which the seconds of a timestamp cannot wrap: about \<open>1.4 * 10 ^ 11\<close> years on
  either side of the epoch.
\<close>

definition secs_in_range :: "systime \<Rightarrow> bool" where
  "secs_in_range v \<longleftrightarrow> - (2 ^ 62) * 10 ^ 9 \<le> v \<and> v < 2 ^ 62 * 10 ^ 9"

lemma div_in_range:
  assumes "secs_in_range v"
  shows "- (2 ^ 62) \<le> v div 10 ^ 9" and "v div 10 ^ 9 < 2 ^ 62"
  using assms by (auto simp: secs_in_range_def)

lemma uint_secs_from:
  assumes "secs_in_range v"
  shows "uint (secs (TAI64N_from v)) = 0x400000000000000a + v div 10 ^ 9"
proof -
  have "secs (TAI64N_from v) = word_of_int (0x400000000000000a + v div 10 ^ 9)"
    by (simp add: TAI64N_from_floor TAI_BASE_def)
  moreover have "(0x400000000000000a + v div 10 ^ 9) mod 2 ^ 64 = 0x400000000000000a + v div 10 ^ 9"
    using div_in_range [OF assms] by (intro mod_pos_pos_trivial) auto
  moreover have "uint (word_of_int k :: u64) = k mod 2 ^ 64" for k
    by (simp add: uint_word_of_int)
  ultimately show ?thesis by (simp only:)
qed

lemma unat_nanos_from: "unat (nanos (TAI64N_from v)) = nat (v mod 10 ^ 9) div 2 ^ 24 * 2 ^ 24"
proof -
  have "v mod 10 ^ 9 < 2 ^ 32" by (rule order.strict_trans [of _ "10 ^ 9"]) simp_all
  then have "v mod 10 ^ 9 mod 2 ^ 32 = v mod 10 ^ 9" by (intro mod_pos_pos_trivial) simp_all
  then have "unat (of_int (v mod 10 ^ 9) :: u32) = nat (v mod 10 ^ 9)"
    by (simp add: unat_eq_nat_uint uint_word_of_int)
  then show ?thesis by (simp only: TAI64N_from_floor unat_whiten TAI64N.simps)
qed

section \<open>The clock\<close>

text \<open>
  What the handshake code relies on: a reading is later than every earlier one.  A clock over a
  bounded timestamp has a finite budget of readings; \<open>admissible\<close> bounds the system times.
\<close>

locale strict_clock =
  fixes tick :: "'s \<Rightarrow> 'c \<Rightarrow> 't \<times> 'c"
    and last_reading :: "'c \<Rightarrow> 't"
    and before :: "'t \<Rightarrow> 't \<Rightarrow> bool"
    and admissible :: "'s \<Rightarrow> bool"
    and budget :: "'c \<Rightarrow> nat"
  assumes tick_after: "0 < budget c \<Longrightarrow> before (last_reading c) (fst (tick s c))"
    and tick_last: "last_reading (snd (tick s c)) = fst (tick s c)"
    and tick_budget: "admissible s \<Longrightarrow> budget c \<le> Suc (budget (snd (tick s c)))"
    and before_trans: "before x y \<Longrightarrow> before y z \<Longrightarrow> before x z"
begin

lemma readings_increase:
  assumes "list_all admissible ss" and "length ss \<le> budget c"
  shows "sorted_wrt before (last_reading c # readings tick c ss)"
  using assms
proof (induction ss arbitrary: c)
  case (Cons s ss)
  let ?c = "snd (tick s c)"
  from Cons.prems tick_budget [of s c] have "length ss \<le> budget ?c" by simp
  with Cons have IH: "sorted_wrt before (last_reading ?c # readings tick ?c ss)" by simp
  have fst: "before (last_reading c) (last_reading ?c)"
    using tick_after [of c s] Cons.prems by (simp add: tick_last)
  with IH before_trans have "before (last_reading c) t" if "t \<in> set (readings tick ?c ss)" for t
    using that by auto
  with IH fst show ?case by (simp add: tick_last case_prod_beta)
qed simp

end

definition clock_budget :: "TAI64NClock \<Rightarrow> nat" where
  "clock_budget clk = 2 ^ 64 - 1 - max (unat (secs (clock_last clk))) (2 ^ 63 + 10)"

interpretation tai: strict_clock clock_now clock_last tai_less secs_in_range clock_budget
proof (unfold_locales, goal_cases)
  case (1 c s)
  then have "unat (secs (clock_last c)) < 2 ^ 64 - 1" by (simp add: clock_budget_def)
  then show ?case by (simp add: clock_now_def Let_def clamp_after_less)
next
  case (3 s c)
  have "unat (secs (TAI64N_from s)) \<le> 2 ^ 63 + 10"
    using uint_secs_from [OF 3] div_in_range [OF 3] by (simp add: unat_eq_nat_uint)
  then show ?case
    using secs_clamp_after [of "TAI64N_from s" "clock_last c"]
    by (simp add: clock_budget_def clock_now_def Let_def)
qed (auto simp: clock_now_def Let_def intro: tai_less_trans)

lemma TAI64N_from_mono:
  assumes "secs_in_range v" and "secs_in_range v'" and "v \<le> v'"
  shows "\<not> tai_less (TAI64N_from v') (TAI64N_from v)"
proof
  assume less: "tai_less (TAI64N_from v') (TAI64N_from v)"
  have div: "v div 10 ^ 9 \<le> v' div 10 ^ 9" using assms(3) by (simp add: zdiv_mono1)
  with less have eq: "v div 10 ^ 9 = v' div 10 ^ 9"
    and ns: "nanos (TAI64N_from v') < nanos (TAI64N_from v)"
    by (auto simp: tai_less_def word_less_def word_uint_eq_iff uint_secs_from assms(1,2))
  from eq assms(3) have "v mod 10 ^ 9 \<le> v' mod 10 ^ 9"
    by (metis add_le_cancel_left mult_div_mod_eq)
  then have "unat (nanos (TAI64N_from v)) \<le> unat (nanos (TAI64N_from v'))"
    unfolding unat_nanos_from by (intro mult_le_mono1 div_le_mono nat_mono)
  with ns show False by (simp add: word_less_nat_alt)
qed

text \<open>
  C27. The clock is strictly monotone: for any sequence of system times, jumping backwards or
  forwards within the representable range, the timestamps it issues strictly increase (fewer
  than \<open>2 ^ 62\<close> readings), so a responder never mistakes a later initiation for a replay.
\<close>

theorem clock_readings_strictly_increase:
  assumes "list_all secs_in_range sts" and "length sts < 2 ^ 62"
  shows "sorted_wrt tai_less (readings clock_now TAI64NClock_new sts)"
proof -
  have "length sts \<le> clock_budget TAI64NClock_new"
    using assms(2) by (simp add: clock_budget_def TAI64NClock_new_def)
  from tai.readings_increase [OF assms(1) this] show ?thesis by simp
qed

theorem clock_readings_strictly_increase_witness:
  "list_all secs_in_range [3600 * 10 ^ 9, 0, 10 ^ 9, 3601 * 10 ^ 9] \<and>
   sorted_wrt tai_less (readings clock_now TAI64NClock_new [3600 * 10 ^ 9, 0, 10 ^ 9, 3601 * 10 ^ 9])"
proof (intro conjI)
  show h: "list_all secs_in_range [3600 * 10 ^ 9, 0, 10 ^ 9, 3601 * 10 ^ 9]"
    by (simp add: secs_in_range_def)
  show "sorted_wrt tai_less
      (readings clock_now TAI64NClock_new [3600 * 10 ^ 9, 0, 10 ^ 9, 3601 * 10 ^ 9])"
    by (rule clock_readings_strictly_increase [OF h]) simp
qed

text \<open>
  Converting a system time to TAI64N is the floor division of the signed nanosecond count
  on both sides of the epoch, followed by clearing the low 24 bits of the nanoseconds.
\<close>

theorem TAI64N_from_is_floor:
  "secs (TAI64N_from v) = TAI_BASE + of_int (v div 10 ^ 9) \<and>
   unat (nanos (TAI64N_from v)) = nat (v mod 10 ^ 9) div 2 ^ 24 * 2 ^ 24"
  using unat_nanos_from by (simp add: TAI64N_from_floor)

end
