(* ===== verification/Wg_Handshake.thy ===== *)
theory Wg_Handshake
  imports Wg_Session Tai_Clock
begin

text \<open>
  The WireGuard handshake over Noise IKpsk2 (\<open>wireguard/handshake.rs\<close>).  The ephemeral key that
  \<open>X25519KeyPair::random()\<close> draws is an argument, and cancelling the timeout acts on the explicit
  scheduler.
\<close>

definition PROLOGUE :: bytes where
  "PROLOGUE = map of_char ''WireGuard v1 zx2c4 Jason@zx2c4.com''"

record WgReceivedHandshake =
  wrh_send_id :: SessionId
  wrh_noise :: ReceivedHandshake
  wrh_timestamp :: TAI64N

record WgSentHandshake =
  wsh_id :: SessionId
  wsh_noise :: SentHandshake

record SessionPair =
  sp_send :: TransmitSession
  sp_recv :: ReceiveSession

datatype Handshake =
    HsNone
  | Initiated WgSentHandshake handle bytes
  | Responded SessionPair

definition WgReceived_new ::
  "crypto \<Rightarrow> HandshakeInitiation \<Rightarrow> X25519KeyPair \<Rightarrow> MACReceiver \<Rightarrow> WgReceivedHandshake option" where
  "WgReceived_new C pkt my_static macs =
     (if \<not> verify_macs C macs (HandshakeInitiation_bytes pkt) then None
      else case Received_new C 12 (hi_noise pkt) PROLOGUE my_static of
             None \<Rightarrow> None
           | Some (noise, timestamp) \<Rightarrow>
               Some \<lparr>wrh_send_id = hi_sender_id pkt, wrh_noise = noise, wrh_timestamp = TAI64N_of_bytes timestamp\<rparr>)"

definition WgReceived_respond ::
  "crypto \<Rightarrow> WgReceivedHandshake \<Rightarrow> SessionId \<Rightarrow> bytes \<Rightarrow> MACSender \<Rightarrow> bytes \<Rightarrow> instant \<Rightarrow>
   wg_fault + SessionPair \<times> bytes" where
  "WgReceived_respond C h session_id psk macs eph now =
     (let (noise, session_keys) = Received_finish C (wrh_noise h) psk (keypair C eph);
          response = HandshakeResponse_default\<lparr>hr_sender_id := session_id,
            hr_receiver_id := wrh_send_id h, hr_noise := noise\<rparr>;
          send = TransmitSession_new (send_key session_keys) (wrh_send_id h) now;
          recv = ReceiveSession_new (recv_key session_keys) session_id now
      in bind_res (write_macs C now macs (HandshakeResponse_bytes response)) (\<lambda>(_, pkt).
           Inr (\<lparr>sp_send = send, sp_recv = recv\<rparr>, pkt)))"

definition peer_static :: "WgReceivedHandshake \<Rightarrow> bytes" where
  "peer_static h = peer_static_pub (wrh_noise h)"

definition initiate_handshake ::
  "crypto \<Rightarrow> X25519KeyPair \<Rightarrow> bytes \<Rightarrow> SessionId \<Rightarrow> TAI64N \<Rightarrow> bytes \<Rightarrow> WgSentHandshake \<times> HandshakeInitiation" where
  "initiate_handshake C endpoint_static peer session_id timestamp eph =
     (let (noise, out) = Sent_new C endpoint_static (keypair C eph) peer PROLOGUE (TAI64N_bytes timestamp)
      in (\<lparr>wsh_id = session_id, wsh_noise = noise\<rparr>,
          HandshakeInitiation_default\<lparr>hi_sender_id := session_id, hi_noise := out\<rparr>))"

definition is_active :: "Handshake \<Rightarrow> bool" where
  "is_active h = (h \<noteq> HsNone)"

fun session_id :: "Handshake \<Rightarrow> SessionId option" where
  "session_id (Initiated handshake _ _) = Some (wsh_id handshake)"
| "session_id (Responded tentative) = Some (rs_id (sp_recv tentative))"
| "session_id HsNone = None"

fun take_initiated :: "Handshake \<Rightarrow> (WgSentHandshake \<times> handle \<times> bytes) option \<times> Handshake" where
  "take_initiated (Initiated sent timeout mac) = (Some (sent, timeout, mac), HsNone)"
| "take_initiated other = (None, other)"

definition Handshake_respond ::
  "crypto \<Rightarrow> Handshake \<Rightarrow> SessionId \<Rightarrow> WgReceivedHandshake \<Rightarrow> bytes \<Rightarrow> MACSender \<Rightarrow> bytes \<Rightarrow> instant \<Rightarrow>
   wg_fault + bytes \<times> Handshake" where
  "Handshake_respond C hs sid handshake psk cookie_sender eph now =
     bind_res (WgReceived_respond C handshake sid psk cookie_sender eph now) (\<lambda>(session, packet).
       Inr (packet, Responded session))"

definition Handshake_finish ::
  "crypto \<Rightarrow> Handshake \<Rightarrow> HandshakeResponse \<Rightarrow> X25519KeyPair \<Rightarrow> bytes \<Rightarrow> MACReceiver \<Rightarrow> instant \<Rightarrow>
   'e Scheduler \<Rightarrow> SessionPair option \<times> Handshake \<times> 'e Scheduler" where
  "Handshake_finish C hs packet endpoint_static psk cookies now sched =
     (case take_initiated hs of
        (None, hs') \<Rightarrow> (None, hs', sched)
      | (Some (sent, timeout, _), hs') \<Rightarrow>
          if \<not> verify_macs C cookies (HandshakeResponse_bytes packet) then (None, hs', sched)
          else case try_finish C (wsh_noise sent) (hr_noise packet) endpoint_static psk of
                 Inl _ \<Rightarrow> (None, hs', sched)
               | Inr session_keys \<Rightarrow>
                   let send = TransmitSession_new (send_key session_keys) (hr_sender_id packet) now;
                       recv = ReceiveSession_new (recv_key session_keys) (wsh_id sent) now
                   in (Some \<lparr>sp_send = send, sp_recv = recv\<rparr>, hs', Handle_cancel timeout sched))"

definition Handshake_confirm ::
  "crypto \<Rightarrow> Handshake \<Rightarrow> SessionId \<Rightarrow> bytes list \<Rightarrow> wg_fault + (SessionPair \<times> bytes list) option \<times> Handshake" where
  "Handshake_confirm C hs sid packets =
     (case hs of
        Responded tentative \<Rightarrow>
          if rs_id (sp_recv tentative) \<noteq> sid then Inr (None, hs)
          else bind_res (decrypt C (sp_recv tentative) packets) (\<lambda>(recv, packets').
                 let tentative' = tentative\<lparr>sp_recv := recv\<rparr>
                 in if packets' = [] then Inr (None, Responded tentative')
                    else Inr (Some (tentative', packets'), HsNone))
      | _ \<Rightarrow> Inr (None, hs))"

section \<open>Handshake packets and their MACs\<close>

lemma write_macs_trailer:
  fixes data :: bytes
  assumes "crypto_ok C" and "\<not> cookie_live now s" and "ms_mac1_key s = mac1_key C key"
    and "length a = 16" and "length b = 16"
  defines "mac1 \<equiv> blake2s_mac C (mac1_key C key) data"
  shows "write_macs C now s (data @ a @ b) = Inr (mac1, data @ mac1 @ replicate 16 0)"
    and "verify_macs C (MACReceiver_new C key) (data @ mac1 @ replicate 16 0)"
    and "length mac1 = 16"
  using assms(2-5) crypto_okD(6) [OF assms(1)]
  by (simp_all add: write_macs_Inr mac1_def Let_def verify_macs_append MACReceiver_new_def)

lemma write_macs_initiation:
  assumes "crypto_ok C" and "\<not> cookie_live now s" and "ms_mac1_key s = mac1_key C key"
    and "hi_sized m" and "hi_msg_type m = HandshakeInitiation_t"
  obtains mac1 m' where "write_macs C now s (HandshakeInitiation_bytes m) = Inr (mac1, HandshakeInitiation_bytes m')"
    and "m' = m\<lparr>hi_mac1 := mac1, hi_mac2 := replicate 16 0\<rparr>" and "hi_sized m'"
    and "verify_macs C (MACReceiver_new C key) (HandshakeInitiation_bytes m')"
proof -
  define data where "data = [MessageType_code (hi_msg_type m)] @ hi_reserved m @ to_le 4 (hi_sender_id m) @ hi_noise m"
  let ?mac = "blake2s_mac C (mac1_key C key) data"
  have len: "length (hi_mac1 m) = 16" "length (hi_mac2 m) = 16" using assms(4) by (simp_all add: hi_sized_def)
  note w = write_macs_trailer [OF assms(1-3) len, of data]
  show thesis
    by (rule that [of ?mac "m\<lparr>hi_mac1 := ?mac, hi_mac2 := replicate 16 0\<rparr>"])
      (use w assms(4) in \<open>simp_all add: HandshakeInitiation_bytes_def data_def hi_sized_def\<close>)
qed

lemma write_macs_response:
  assumes "crypto_ok C" and "\<not> cookie_live now s" and "ms_mac1_key s = mac1_key C key" and "hr_sized m"
  obtains mac1 m' where "write_macs C now s (HandshakeResponse_bytes m) = Inr (mac1, HandshakeResponse_bytes m')"
    and "m' = m\<lparr>hr_mac1 := mac1, hr_mac2 := replicate 16 0\<rparr>" and "hr_sized m'"
    and "verify_macs C (MACReceiver_new C key) (HandshakeResponse_bytes m')"
proof -
  define data where "data = [MessageType_code (hr_msg_type m)] @ hr_reserved m @ to_le 4 (hr_sender_id m) @
    to_le 4 (hr_receiver_id m) @ hr_noise m"
  let ?mac = "blake2s_mac C (mac1_key C key) data"
  have len: "length (hr_mac1 m) = 16" "length (hr_mac2 m) = 16" using assms(4) by (simp_all add: hr_sized_def)
  note w = write_macs_trailer [OF assms(1-3) len, of data]
  show thesis
    by (rule that [of ?mac "m\<lparr>hr_mac1 := ?mac, hr_mac2 := replicate 16 0\<rparr>"])
      (use w assms(4) in \<open>simp_all add: HandshakeResponse_bytes_def data_def hr_sized_def\<close>)
qed

section \<open>An honest handshake\<close>

text \<open>
  Both ends of an established session: each end sends under the key and to the id on which the
  other receives.
\<close>

definition paired :: "SessionPair \<Rightarrow> SessionPair \<Rightarrow> bool" where
  "paired a b \<longleftrightarrow>
     ts_cipher (sp_send a) = rs_cipher (sp_recv b) \<and> ts_id (sp_send a) = rs_id (sp_recv b) \<and>
     ts_cipher (sp_send b) = rs_cipher (sp_recv a) \<and> ts_id (sp_send b) = rs_id (sp_recv a) \<and>
     counter_of (sp_send a) = 0 \<and> counter_of (sp_send b) = 0 \<and>
     rs_window (sp_recv a) = ReplayWindow_default \<and> rs_window (sp_recv b) = ReplayWindow_default"

lemma initiation_accepted:
  assumes ok: "crypto_ok C" and key: "ms_mac1_key macs = mac1_key C (x25519_public C b)" "\<not> cookie_live now macs"
    and init: "initiate_handshake C (keypair C a) (x25519_public C b) sid ts eph = (sent, pkt)"
  obtains mac1 m where "write_macs C now macs (HandshakeInitiation_bytes pkt) = Inr (mac1, HandshakeInitiation_bytes m)"
    and "hi_msg_type m = HandshakeInitiation_t" and "hi_sized m"
    and "WgReceived_new C m (keypair C b) (MACReceiver_new C (x25519_public C b)) =
      Some \<lparr>wrh_send_id = sid,
        wrh_noise = \<lparr>rh_state = sh_state (wsh_noise sent), peer_ephemeral_pub = x25519_public C eph,
          peer_static_pub = x25519_public C a\<rparr>, wrh_timestamp = ts\<rparr>"
    and "wsh_noise sent = \<lparr>sh_state = sh_state (wsh_noise sent), my_ephemeral = eph\<rparr>" and "wsh_id sent = sid"
proof -
  obtain noise out where sn: "Sent_new C (keypair C a) (keypair C eph) (x25519_public C b) PROLOGUE (TAI64N_bytes ts) = (noise, out)"
    by fastforce
  with init have sent: "sent = \<lparr>wsh_id = sid, wsh_noise = noise\<rparr>"
    and pkt: "pkt = HandshakeInitiation_default\<lparr>hi_sender_id := sid, hi_noise := out\<rparr>"
    by (auto simp: initiate_handshake_def)
  note recv = IKpsk2_init_received [OF ok length_TAI64N_bytes sn]
  have sized: "hi_sized pkt" "hi_msg_type pkt = HandshakeInitiation_t"
    using recv(3) by (simp_all add: pkt hi_sized_def HandshakeInitiation_default_def init_size_def)
  from write_macs_initiation [OF ok key(2,1) sized] obtain mac1 m where
    w: "write_macs C now macs (HandshakeInitiation_bytes pkt) = Inr (mac1, HandshakeInitiation_bytes m)"
    "m = pkt\<lparr>hi_mac1 := mac1, hi_mac2 := replicate 16 0\<rparr>" "hi_sized m"
    "verify_macs C (MACReceiver_new C (x25519_public C b)) (HandshakeInitiation_bytes m)" .
  have m: "hi_noise m = out" "hi_sender_id m = sid" "hi_msg_type m = HandshakeInitiation_t"
    using sized(2) by (simp_all add: w(2) pkt)
  from that [OF w(1) m(3) w(3)] w(4) recv(1,2) show thesis by (simp add: WgReceived_new_def m sent)
qed

lemma response_accepted:
  assumes ok: "crypto_ok C" and key: "ms_mac1_key macs = mac1_key C (x25519_public C a)" "\<not> cookie_live now macs"
    and h: "wrh_noise h = \<lparr>rh_state = st, peer_ephemeral_pub = x25519_public C e, peer_static_pub = x25519_public C a\<rparr>"
    and sent: "wsh_noise sent = \<lparr>sh_state = st, my_ephemeral = e\<rparr>" "wsh_id sent = wrh_send_id h"
  obtains pair_b r pair_a where "WgReceived_respond C h sid psk macs f now = Inr (pair_b, HandshakeResponse_bytes r)"
    and "hr_msg_type r = HandshakeResponse_t" and "hr_sized r"
    and "hr_sender_id r = sid" and "hr_receiver_id r = wrh_send_id h"
    and "Handshake_finish C (Initiated sent timeout mac) r (keypair C a) psk
          (MACReceiver_new C (x25519_public C a)) now' sched = (Some pair_a, HsNone, Handle_cancel timeout sched)"
    and "paired pair_a pair_b" and "rs_id (sp_recv pair_a) = wsh_id sent" and "rs_id (sp_recv pair_b) = sid"
    and "ts_created (sp_send pair_a) = now'" and "rs_created (sp_recv pair_a) = now'"
    and "ts_created (sp_send pair_b) = now" and "rs_created (sp_recv pair_b) = now"
proof -
  obtain out sess where rf: "Received_finish C (wrh_noise h) psk (keypair C f) = (out, sess)" by fastforce
  note fin = IKpsk2_response_finishes [OF ok rf [unfolded h]]
  let ?r = "HandshakeResponse_default\<lparr>hr_sender_id := sid, hr_receiver_id := wrh_send_id h, hr_noise := out\<rparr>"
  let ?pair = "\<lparr>sp_send = TransmitSession_new (send_key sess) (wrh_send_id h) now,
    sp_recv = ReceiveSession_new (recv_key sess) sid now\<rparr>"
  have "hr_sized ?r" using fin(2) by (simp add: hr_sized_def HandshakeResponse_default_def resp_size_def)
  from write_macs_response [OF ok key(2,1) this] obtain mac1 r where
    w: "write_macs C now macs (HandshakeResponse_bytes ?r) = Inr (mac1, HandshakeResponse_bytes r)"
    "r = ?r\<lparr>hr_mac1 := mac1, hr_mac2 := replicate 16 0\<rparr>" "hr_sized r"
    "verify_macs C (MACReceiver_new C (x25519_public C a)) (HandshakeResponse_bytes r)" .
  have r: "hr_msg_type r = HandshakeResponse_t" "hr_sender_id r = sid" "hr_receiver_id r = wrh_send_id h" "hr_noise r = out"
    by (simp_all add: w(2) HandshakeResponse_default_def)
  have resp: "WgReceived_respond C h sid psk macs f now = Inr (?pair, HandshakeResponse_bytes r)"
    using w(1) by (simp add: WgReceived_respond_def rf Let_def)
  let ?pair_a = "\<lparr>sp_send = TransmitSession_new (recv_key sess) sid now',
    sp_recv = ReceiveSession_new (send_key sess) (wsh_id sent) now'\<rparr>"
  have finish: "Handshake_finish C (Initiated sent timeout mac) r (keypair C a) psk
      (MACReceiver_new C (x25519_public C a)) now' sched = (Some ?pair_a, HsNone, Handle_cancel timeout sched)"
    using w(4) fin(1) sent(1) by (simp add: Handshake_finish_def r)
  have "paired ?pair_a ?pair"
    using sent(2) by (simp add: paired_def counter_of_def TransmitSession_new_def ReceiveSession_new_def)
  from that [OF resp r(1) w(3) r(2,3) finish this] show thesis
    by (simp add: TransmitSession_new_def ReceiveSession_new_def)
qed

text \<open>
  C8. A whole WireGuard handshake between two honest peers that share a pre-shared key: the
  initiation survives printing, MACs and parsing and is accepted; the responder learns the
  initiator's key and timestamp; its response survives in the same way and completes the
  handshake; the timeout is cancelled and the two session pairs fit together, so that what either
  side encrypts the other decrypts.
\<close>

theorem wg_handshake_agreement:
  assumes "crypto_ok C"
  shows "let (sent, pkt) = initiate_handshake C (keypair C a) (x25519_public C b) ida ts e
     in \<exists>mac1 raw1 m h pair_b raw2 r pair_a.
          write_macs C t1 (MACSender_new C (x25519_public C b)) (HandshakeInitiation_bytes pkt) = Inr (mac1, raw1) \<and>
          Message_try_from raw1 = Some (HandshakeInitiation_m m) \<and>
          WgReceived_new C m (keypair C b) (MACReceiver_new C (x25519_public C b)) = Some h \<and>
          peer_static h = x25519_public C a \<and> wrh_timestamp h = ts \<and>
          WgReceived_respond C h idb psk (MACSender_new C (x25519_public C a)) f t2 = Inr (pair_b, raw2) \<and>
          Message_try_from raw2 = Some (HandshakeResponse_m r) \<and> hr_receiver_id r = ida \<and>
          Handshake_finish C (Initiated sent timeout mac1) r (keypair C a) psk
            (MACReceiver_new C (x25519_public C a)) t3 sched = (Some pair_a, HsNone, Handle_cancel timeout sched) \<and>
          paired pair_a pair_b"
proof -
  have fresh: "ms_mac1_key (MACSender_new C k) = mac1_key C k" "\<not> cookie_live t (MACSender_new C k)" for k t
    by (simp_all add: MACSender_new_def cookie_live_def)
  obtain sent pkt where init: "initiate_handshake C (keypair C a) (x25519_public C b) ida ts e = (sent, pkt)"
    by fastforce
  from initiation_accepted [where now = t1, OF assms fresh init] obtain mac1 m where
    w: "write_macs C t1 (MACSender_new C (x25519_public C b)) (HandshakeInitiation_bytes pkt) = Inr (mac1, HandshakeInitiation_bytes m)"
    and m: "hi_msg_type m = HandshakeInitiation_t" "hi_sized m"
    and hnew: "WgReceived_new C m (keypair C b) (MACReceiver_new C (x25519_public C b)) =
      Some \<lparr>wrh_send_id = ida,
        wrh_noise = \<lparr>rh_state = sh_state (wsh_noise sent), peer_ephemeral_pub = x25519_public C e,
          peer_static_pub = x25519_public C a\<rparr>, wrh_timestamp = ts\<rparr>"
    and sent: "wsh_noise sent = \<lparr>sh_state = sh_state (wsh_noise sent), my_ephemeral = e\<rparr>" "wsh_id sent = ida" .
  define h where "h = \<lparr>wrh_send_id = ida,
        wrh_noise = \<lparr>rh_state = sh_state (wsh_noise sent), peer_ephemeral_pub = x25519_public C e,
          peer_static_pub = x25519_public C a\<rparr>, wrh_timestamp = ts\<rparr>"
  have n: "wrh_noise h = \<lparr>rh_state = sh_state (wsh_noise sent), peer_ephemeral_pub = x25519_public C e,
          peer_static_pub = x25519_public C a\<rparr>" and i: "wsh_id sent = wrh_send_id h"
    by (simp_all add: h_def sent(2))
  from response_accepted [where C = C and now = t2 and sid = idb and psk = psk and f = f and timeout = timeout and
      mac = mac1 and now' = t3 and sched = sched, OF assms fresh n sent(1) i] obtain pair_b r pair_a where
    resp: "WgReceived_respond C h idb psk (MACSender_new C (x25519_public C a)) f t2 = Inr (pair_b, HandshakeResponse_bytes r)"
    and r: "hr_msg_type r = HandshakeResponse_t" "hr_sized r" "hr_receiver_id r = wrh_send_id h"
    and fin: "Handshake_finish C (Initiated sent timeout mac1) r (keypair C a) psk
          (MACReceiver_new C (x25519_public C a)) t3 sched = (Some pair_a, HsNone, Handle_cancel timeout sched)"
    and "paired pair_a pair_b" by metis
  with w m hnew show ?thesis
    unfolding init split_conv Let_def
    by (intro exI conjI) (assumption | simp add: h_def peer_static_def)+
qed

theorem wg_handshake_agreement_witness:
  "let C = sample_crypto;
       (sent, pkt) = initiate_handshake C (keypair C [1]) (x25519_public C [2]) 11 \<lparr>secs = 5, nanos = 6\<rparr> [3]
     in \<exists>mac1 raw1 m h pair_b raw2 r pair_a.
          write_macs C 0 (MACSender_new C (x25519_public C [2])) (HandshakeInitiation_bytes pkt) = Inr (mac1, raw1) \<and>
          Message_try_from raw1 = Some (HandshakeInitiation_m m) \<and>
          WgReceived_new C m (keypair C [2]) (MACReceiver_new C (x25519_public C [2])) = Some h \<and>
          peer_static h = x25519_public C [1] \<and> wrh_timestamp h = \<lparr>secs = 5, nanos = 6\<rparr> \<and>
          WgReceived_respond C h 12 [9] (MACSender_new C (x25519_public C [1])) [4] 1 = Inr (pair_b, raw2) \<and>
          Message_try_from raw2 = Some (HandshakeResponse_m r) \<and> hr_receiver_id r = 11 \<and>
          Handshake_finish C (Initiated sent 0 mac1) r (keypair C [1]) [9]
            (MACReceiver_new C (x25519_public C [1])) 2 (Scheduler_default :: nat Scheduler) =
              (Some pair_a, HsNone, Handle_cancel 0 Scheduler_default) \<and>
          paired pair_a pair_b"
  by (subst Let_def) (rule wg_handshake_agreement [OF sample_crypto_ok])

text \<open>
  The documentation of \<open>Handshake::finish\<close> promises that the handshake state is unchanged
  when the response cannot complete it.  An initiated handshake is lost instead: whenever
  \<open>finish\<close> returns nothing, its sent handshake and session id are gone, while its timeout stays
  scheduled.  Only the other two states are unchanged.
\<close>

theorem finish_failure_loses_handshake:
  assumes "Handshake_finish C hs packet my_static psk cookies now sched = (None, hs', sched')"
  shows "hs' = (case hs of Initiated _ _ _ \<Rightarrow> HsNone | _ \<Rightarrow> hs) \<and> sched' = sched"
  using assms by (cases hs) (auto simp: Handshake_finish_def Let_def split: if_splits sum.splits)

theorem finish_failure_loses_handshake_witness:
  "let hs = Initiated \<lparr>wsh_id = 7, wsh_noise = \<lparr>sh_state = State_new sample_crypto [], my_ephemeral = [1]\<rparr>\<rparr> 0 [];
       sched = snd (Scheduler_add \<lparr>tr_start = 2, tr_end = 3\<rparr> (1 :: nat) Scheduler_default);
       (res, hs', sched') = Handshake_finish sample_crypto hs HandshakeResponse_default (keypair sample_crypto [2]) []
         (MACReceiver_new sample_crypto [3]) 1 sched
   in res = None \<and> session_id hs = Some 7 \<and> hs' = HsNone \<and> sched' = sched"
proof -
  let ?hs = "Initiated \<lparr>wsh_id = 7, wsh_noise = \<lparr>sh_state = State_new sample_crypto [], my_ephemeral = [1]\<rparr>\<rparr> 0 []"
  let ?sched = "snd (Scheduler_add \<lparr>tr_start = 2, tr_end = 3\<rparr> (1 :: nat) Scheduler_default)"
  have "\<not> verify_macs sample_crypto (MACReceiver_new sample_crypto [3]) (HandshakeResponse_bytes HandshakeResponse_default)"
    by code_simp
  then have "fst (Handshake_finish sample_crypto ?hs HandshakeResponse_default (keypair sample_crypto [2]) []
     (MACReceiver_new sample_crypto [3]) 1 ?sched) = None"
    by (simp add: Handshake_finish_def)
  then obtain hs' sched' where f: "Handshake_finish sample_crypto ?hs HandshakeResponse_default
     (keypair sample_crypto [2]) [] (MACReceiver_new sample_crypto [3]) 1 ?sched = (None, hs', sched')"
    by (metis prod.collapse)
  from finish_failure_loses_handshake [OF f] f show ?thesis by (simp add: Let_def)
qed

end
