(* ===== verification/Tunnel_Results.thy ===== *)
theory Tunnel_Results
  imports Prelude
begin

text \<open>
  The configuration and result types shared by both data-plane backends
  (\<open>ts_tunnel/src/config.rs\<close>, \<open>ts_tunnel/src/results.rs\<close>).  The \<open>QueueToPeer\<close> trait only
  exposes the \<open>to_peers\<close> map, so code generic in it works on that map.
\<close>

type_synonym PeerId = u32
type_synonym Psk = bytes
type_synonym packets_by_peer = "PeerId \<rightharpoonup> bytes list"

record PeerConfig =
  cfg_key :: bytes
  cfg_psk :: Psk

record SendResult =
  sr_to_peers :: packets_by_peer

record RecvResult =
  rr_to_local :: packets_by_peer
  rr_to_peers :: packets_by_peer

record EventResult =
  er_to_peers :: packets_by_peer

definition SendResult_default :: SendResult where
  "SendResult_default = \<lparr>sr_to_peers = Map.empty\<rparr>"

definition RecvResult_default :: RecvResult where
  "RecvResult_default = \<lparr>rr_to_local = Map.empty, rr_to_peers = Map.empty\<rparr>"

definition EventResult_default :: EventResult where
  "EventResult_default = \<lparr>er_to_peers = Map.empty\<rparr>"

text \<open>\<open>queue_to_peer(peer).append(\<dots>)\<close>, \<open>.push(\<dots>)\<close> and \<open>queue_to_local(peer).append(\<dots>)\<close>.\<close>

definition queue_to_peer :: "PeerId \<Rightarrow> bytes list \<Rightarrow> packets_by_peer \<Rightarrow> packets_by_peer" where
  "queue_to_peer peer ps m = entry_extend m peer ps"

definition recv_queue_to_peer :: "PeerId \<Rightarrow> bytes list \<Rightarrow> RecvResult \<Rightarrow> RecvResult" where
  "recv_queue_to_peer peer ps out = out\<lparr>rr_to_peers := queue_to_peer peer ps (rr_to_peers out)\<rparr>"

definition recv_queue_to_local :: "PeerId \<Rightarrow> bytes list \<Rightarrow> RecvResult \<Rightarrow> RecvResult" where
  "recv_queue_to_local peer ps out = out\<lparr>rr_to_local := entry_extend (rr_to_local out) peer ps\<rparr>"

end
