(* ===== verification/Wg_Peer.thy ===== *)
theory Wg_Peer
  imports Wg_Handshake Tunnel_Results
begin

text \<open>
  The per-peer half of \<open>wireguard/endpoint.rs\<close>: the bounded queue, the session state, the id map
  and the peer's handlers.  \<open>Instant::now()\<close> and the system time are read once per call and are
  arguments.  The random draws of an endpoint are part of its state: the session ids that
  \<open>SessionId::random()\<close> will yield are a finite list, which also bounds the retry loop of
  \<open>allocate_session\<close>, and the ephemeral keys a numbered supply.  A reference into the session
  state (\<open>get_recv\<close>) is the referenced session with the function that writes it back.
\<close>

section \<open>The bounded queue\<close>

definition MAX_QUEUED_PER_PEER :: nat where "MAX_QUEUED_PER_PEER = 32"
definition KEEPALIVE_TIMEOUT :: nat where "KEEPALIVE_TIMEOUT = duration_from_secs 10"
definition HANDSHAKE_TIMEOUT :: nat where "HANDSHAKE_TIMEOUT = duration_from_secs 5"

definition Queue_append :: "bytes list \<Rightarrow> bytes list \<Rightarrow> bytes list" where
  "Queue_append q packets =
     (let new_packets = min (length packets) MAX_QUEUED_PER_PEER;
          drop_incoming = length packets - new_packets;
          keep_queued = MAX_QUEUED_PER_PEER - new_packets;
          drop_queued = length q - keep_queued
      in drop drop_queued q @ drop drop_incoming packets)"

definition Queue_new_with :: "bytes list \<Rightarrow> bytes list" where
  "Queue_new_with packets = Queue_append [] packets"

section \<open>Session ids\<close>

record IdMap =
  im_sessions :: "SessionId \<rightharpoonup> PeerId"
  im_node_keys :: "bytes \<rightharpoonup> PeerId"

definition IdMap_default :: IdMap where
  "IdMap_default = \<lparr>im_sessions = Map.empty, im_node_keys = Map.empty\<rparr>"

definition get_by_nodekey :: "IdMap \<Rightarrow> bytes \<Rightarrow> PeerId option" where
  "get_by_nodekey ids key = im_node_keys ids key"

definition get_by_session_id :: "IdMap \<Rightarrow> SessionId \<Rightarrow> PeerId option" where
  "get_by_session_id ids key = im_sessions ids key"

definition add_peer :: "PeerId \<Rightarrow> bytes \<Rightarrow> IdMap \<Rightarrow> bool \<times> IdMap" where
  "add_peer i key ids =
     (if im_node_keys ids key \<noteq> None then (False, ids)
      else (True, ids\<lparr>im_node_keys := (im_node_keys ids)(key \<mapsto> i)\<rparr>))"

fun allocate_session :: "PeerId \<Rightarrow> SessionId list \<Rightarrow> IdMap \<Rightarrow> wg_fault + SessionId \<times> SessionId list \<times> IdMap" where
  "allocate_session peer [] ids = Inl SessionIdsStarved"
| "allocate_session peer (ret # draws) ids =
     (if im_sessions ids ret = None
      then Inr (ret, draws, ids\<lparr>im_sessions := (im_sessions ids)(ret \<mapsto> peer)\<rparr>)
      else allocate_session peer draws ids)"

definition remove_session :: "SessionId \<Rightarrow> IdMap \<Rightarrow> wg_fault + IdMap" where
  "remove_session i ids =
     (if im_sessions ids i = None then Inl (SessionNotInUse i)
      else Inr (ids\<lparr>im_sessions := (im_sessions ids)(i := None)\<rparr>))"

definition remove_handshake_session :: "Handshake \<Rightarrow> IdMap \<Rightarrow> wg_fault + IdMap" where
  "remove_handshake_session hs ids =
     (case session_id hs of Some i \<Rightarrow> remove_session i ids | None \<Rightarrow> Inr ids)"

definition IdMap_remove_peer :: "bytes \<Rightarrow> IdMap \<Rightarrow> wg_fault + IdMap" where
  "IdMap_remove_peer key ids =
     (if im_node_keys ids key = None then Inl (NodeKeyNotInUse key)
      else Inr (ids\<lparr>im_node_keys := (im_node_keys ids)(key := None)\<rparr>))"

section \<open>The session state\<close>

datatype SessionState =
    SsNone "bytes list"
  | SsActive ReceiveSession "ReceiveSession option" TransmitSession

definition remove_prev :: "ReceiveSession option \<Rightarrow> IdMap \<Rightarrow> wg_fault + IdMap" where
  "remove_prev recv_prev ids =
     (case recv_prev of Some r \<Rightarrow> remove_session (rs_id r) ids | None \<Rightarrow> Inr ids)"

fun activate :: "crypto \<Rightarrow> SessionPair \<Rightarrow> IdMap \<Rightarrow> SessionState \<Rightarrow> wg_fault + bytes list \<times> IdMap \<times> SessionState" where
  "activate C pair ids (SsNone queue) =
     bind_res (encrypt C (sp_send pair) queue) (\<lambda>(send, ret).
       Inr (ret, ids, SsActive (sp_recv pair) None send))"
| "activate C pair ids (SsActive recv recv_prev _) =
     bind_res (remove_prev recv_prev ids) (\<lambda>ids'.
       Inr ([], ids', SsActive (sp_recv pair) (Some recv) (sp_send pair)))"

fun deactivate :: "IdMap \<Rightarrow> SessionState \<Rightarrow> wg_fault + IdMap \<times> SessionState" where
  "deactivate ids (SsNone _) = Inr (ids, SsNone [])"
| "deactivate ids (SsActive recv recv_prev _) =
     bind_res (remove_session (rs_id recv) ids) (\<lambda>ids1.
       bind_res (remove_prev recv_prev ids1) (\<lambda>ids2. Inr (ids2, SsNone [])))"

fun encrypt_keepalive :: "crypto \<Rightarrow> instant \<Rightarrow> SessionState \<Rightarrow> wg_fault + bytes option \<times> SessionState" where
  "encrypt_keepalive C now (SsActive recv recv_prev send) =
     (if \<not> ts_expired send now
      then bind_res (encrypt C send [PacketMut_new 0]) (\<lambda>(send', packet).
             Inr (if packet = [] then None else Some (last packet), SsActive recv recv_prev send'))
      else Inr (None, SsActive recv recv_prev send))"
| "encrypt_keepalive C now ss = Inr (None, ss)"

fun encrypt_or_queue ::
  "crypto \<Rightarrow> instant \<Rightarrow> bytes list \<Rightarrow> SessionState \<Rightarrow> wg_fault + bytes list option \<times> SessionState" where
  "encrypt_or_queue C now packets (SsNone queue) = Inr (None, SsNone (Queue_append queue packets))"
| "encrypt_or_queue C now packets (SsActive recv recv_prev send) =
     (if ts_expired send now then Inr (None, SsNone (Queue_new_with packets))
      else bind_res (encrypt C send packets) (\<lambda>(send', packets').
             Inr (Some packets', SsActive recv recv_prev send')))"

fun get_recv :: "instant \<Rightarrow> SessionId \<Rightarrow> SessionState \<Rightarrow> (ReceiveSession \<times> (ReceiveSession \<Rightarrow> SessionState)) option" where
  "get_recv now i (SsNone _) = None"
| "get_recv now i (SsActive recv recv_prev send) =
     (if rs_id recv = i \<and> \<not> rs_expired recv now then Some (recv, \<lambda>r. SsActive r recv_prev send)
      else case recv_prev of
             Some prev \<Rightarrow>
               if rs_id prev = i \<and> \<not> rs_expired recv now
               then Some (prev, \<lambda>r. SsActive recv (Some r) send)
               else None
           | None \<Rightarrow> None)"

fun needs_rotation :: "instant \<Rightarrow> SessionState \<Rightarrow> bool" where
  "needs_rotation now (SsNone _) = True"
| "needs_rotation now (SsActive _ _ send) = stale send now"

section \<open>Peers\<close>

datatype Event = HandshakeTimeout PeerId | MaybeSendKeepalive PeerId

record Entropy =
  en_ids :: "SessionId list"
  en_keys :: "nat \<Rightarrow> bytes"
  en_next :: nat

record EndpointState =
  es_my_key :: X25519KeyPair
  es_my_cookie :: MACReceiver
  es_ids :: IdMap
  es_timestamps :: TAI64NClock
  es_scheduler :: "Event Scheduler"
  es_entropy :: Entropy

record Peer =
  p_id :: PeerId
  p_config :: PeerConfig
  p_session :: SessionState
  p_handshake :: Handshake
  p_last_seen_timestamp :: "TAI64N option"
  p_cookie_sender :: MACSender
  p_keepalive :: "handle option"
  p_send_another_keepalive :: bool

text \<open>Drawing a session id and an ephemeral key.\<close>

definition draw_session :: "PeerId \<Rightarrow> EndpointState \<Rightarrow> wg_fault + SessionId \<times> EndpointState" where
  "draw_session peer es =
     bind_res (allocate_session peer (en_ids (es_entropy es)) (es_ids es)) (\<lambda>(i, draws, ids).
       Inr (i, es\<lparr>es_ids := ids, es_entropy := (es_entropy es)\<lparr>en_ids := draws\<rparr>\<rparr>))"

definition draw_key :: "EndpointState \<Rightarrow> bytes \<times> EndpointState" where
  "draw_key es =
     (let e = es_entropy es in (en_keys e (en_next e), es\<lparr>es_entropy := e\<lparr>en_next := en_next e + 1\<rparr>\<rparr>))"

definition schedule_around :: "instant \<Rightarrow> nat \<Rightarrow> Event \<Rightarrow> Event Scheduler \<Rightarrow> wg_fault + handle \<times> Event Scheduler" where
  "schedule_around t plus_minus ev sched =
     (case new_around t plus_minus of
        None \<Rightarrow> Inl EmptyTimeRange
      | Some tr \<Rightarrow> Inr (Scheduler_add tr ev sched))"

definition Peer_new :: "crypto \<Rightarrow> PeerId \<Rightarrow> PeerConfig \<Rightarrow> Peer" where
  "Peer_new C i config =
     \<lparr>p_id = i, p_config = config, p_session = SsNone [], p_handshake = HsNone,
      p_last_seen_timestamp = None, p_cookie_sender = MACSender_new C (cfg_key config),
      p_keepalive = None, p_send_another_keepalive = False\<rparr>"

definition schedule_keepalive :: "instant \<Rightarrow> Peer \<Rightarrow> Event Scheduler \<Rightarrow> wg_fault + Peer \<times> Event Scheduler" where
  "schedule_keepalive now peer sched =
     (if p_keepalive peer \<noteq> None then Inr (peer\<lparr>p_send_another_keepalive := True\<rparr>, sched)
      else bind_res (schedule_around (now + int KEEPALIVE_TIMEOUT) (duration_from_secs 1)
               (MaybeSendKeepalive (p_id peer)) sched) (\<lambda>(h, sched').
             Inr (peer\<lparr>p_keepalive := Some h\<rparr>, sched')))"

definition start_handshake ::
  "crypto \<Rightarrow> instant \<Rightarrow> systime \<Rightarrow> Peer \<Rightarrow> EndpointState \<Rightarrow> packets_by_peer \<Rightarrow>
   wg_fault + Peer \<times> EndpointState \<times> packets_by_peer" where
  "start_handshake C now st peer es out =
     bind_res (draw_session (p_id peer) es) (\<lambda>(sid, es1).
     let (ts, clk) = clock_now st (es_timestamps es1);
         (eph, es2) = draw_key (es1\<lparr>es_timestamps := clk\<rparr>);
         (handshake, packet) = initiate_handshake C (es_my_key es2) (cfg_key (p_config peer)) sid ts eph
     in bind_res (write_macs C now (p_cookie_sender peer) (HandshakeInitiation_bytes packet)) (\<lambda>(mac, pkt).
        bind_res (schedule_around (now + int HANDSHAKE_TIMEOUT) (duration_from_millis 500)
            (HandshakeTimeout (p_id peer)) (es_scheduler es2)) (\<lambda>(timeout, sched).
          Inr (peer\<lparr>p_handshake := Initiated handshake timeout mac\<rparr>, es2\<lparr>es_scheduler := sched\<rparr>,
               queue_to_peer (p_id peer) [pkt] out))))"

definition Peer_send ::
  "crypto \<Rightarrow> instant \<Rightarrow> systime \<Rightarrow> bytes list \<Rightarrow> Peer \<Rightarrow> EndpointState \<Rightarrow> SendResult \<Rightarrow>
   wg_fault + Peer \<times> EndpointState \<times> SendResult" where
  "Peer_send C now st packets peer es out =
     bind_res (encrypt_or_queue C now packets (p_session peer)) (\<lambda>(enc, ss).
     let peer1 = peer\<lparr>p_session := ss\<rparr>;
         out1 = (case enc of
                   Some ps \<Rightarrow> out\<lparr>sr_to_peers := queue_to_peer (p_id peer1) ps (sr_to_peers out)\<rparr>
                 | None \<Rightarrow> out)
     in if is_active (p_handshake peer1) then Inr (peer1, es, out1)
        else if \<not> needs_rotation now (p_session peer1) then Inr (peer1, es, out1)
        else bind_res (start_handshake C now st peer1 es (sr_to_peers out1)) (\<lambda>(peer2, es2, m).
               Inr (peer2, es2, out1\<lparr>sr_to_peers := m\<rparr>)))"

definition recv_cookie_reply :: "crypto \<Rightarrow> instant \<Rightarrow> CookieReply \<Rightarrow> Peer \<Rightarrow> Peer" where
  "recv_cookie_reply C now packet peer =
     (case p_handshake peer of
        Initiated _ _ mac1 \<Rightarrow> peer\<lparr>p_cookie_sender := receive_cookie C now packet mac1 (p_cookie_sender peer)\<rparr>
      | _ \<Rightarrow> peer)"

definition recv_handshake_response ::
  "crypto \<Rightarrow> instant \<Rightarrow> HandshakeResponse \<Rightarrow> Peer \<times> EndpointState \<times> RecvResult \<Rightarrow>
   wg_fault + Peer \<times> EndpointState \<times> RecvResult" where
  "recv_handshake_response C now packet = (\<lambda>(peer, es, out).
     (case Handshake_finish C (p_handshake peer) packet (es_my_key es) (cfg_psk (p_config peer))
             (es_my_cookie es) now (es_scheduler es) of
        (None, hs, sched) \<Rightarrow> Inr (peer\<lparr>p_handshake := hs\<rparr>, es\<lparr>es_scheduler := sched\<rparr>, out)
      | (Some session, hs, sched) \<Rightarrow>
          bind_res (activate C session (es_ids es) (p_session peer)) (\<lambda>(packets, ids, ss).
          let es1 = es\<lparr>es_scheduler := sched, es_ids := ids\<rparr>
          in bind_res
               (if packets = []
                then bind_res (encrypt_or_queue C now [PacketMut_new 0] ss) (\<lambda>(enc, ss').
                       case enc of None \<Rightarrow> Inl CannotEncrypt | Some ps \<Rightarrow> Inr (ps, ss'))
                else Inr (packets, ss)) (\<lambda>(ps, ss').
             Inr (peer\<lparr>p_handshake := hs, p_session := ss'\<rparr>, es1,
                  recv_queue_to_peer (p_id peer) ps out)))))"

definition recv_transport_data ::
  "crypto \<Rightarrow> instant \<Rightarrow> SessionId \<Rightarrow> bytes list \<Rightarrow> Peer \<times> EndpointState \<times> RecvResult \<Rightarrow>
   wg_fault + Peer \<times> EndpointState \<times> RecvResult" where
  "recv_transport_data C now sid packets = (\<lambda>(peer, es, out).
     (case get_recv now sid (p_session peer) of
        Some (session, put) \<Rightarrow>
          bind_res (decrypt C session packets) (\<lambda>(session', plain).
          let peer1 = peer\<lparr>p_session := put session'\<rparr>
          in if plain = [] then Inr (peer1, es, out)
             else bind_res (schedule_keepalive now peer1 (es_scheduler es)) (\<lambda>(peer2, sched).
                    Inr (peer2, es\<lparr>es_scheduler := sched\<rparr>, recv_queue_to_local (p_id peer) plain out)))
      | None \<Rightarrow>
          bind_res (Handshake_confirm C (p_handshake peer) sid packets) (\<lambda>(confirmed, hs).
          let peer1 = peer\<lparr>p_handshake := hs\<rparr>
          in case confirmed of
               None \<Rightarrow> Inr (peer1, es, out)
             | Some (session, plain) \<Rightarrow>
                 bind_res (schedule_keepalive now peer1 (es_scheduler es)) (\<lambda>(peer2, sched).
                 bind_res (activate C session (es_ids es) (p_session peer2)) (\<lambda>(for_peer, ids, ss).
                 let out1 = recv_queue_to_local (p_id peer) plain out
                 in Inr (peer2\<lparr>p_session := ss\<rparr>, es\<lparr>es_scheduler := sched, es_ids := ids\<rparr>,
                         if for_peer = [] then out1 else recv_queue_to_peer (p_id peer) for_peer out1))))))"

definition recv_filter ::
  "crypto \<Rightarrow> instant \<Rightarrow> Peer \<times> EndpointState \<times> RecvResult \<Rightarrow> bytes \<Rightarrow>
   wg_fault + (Peer \<times> EndpointState \<times> RecvResult) \<times> bytes option" where
  "recv_filter C now = (\<lambda>(peer, es, out) packet.
     (case Message_try_from packet of
        None \<Rightarrow> Inr ((peer, es, out), None)
      | Some (TransportDataHeader_m _) \<Rightarrow> Inr ((peer, es, out), Some packet)
      | Some (HandshakeResponse_m resp) \<Rightarrow>
          bind_res (recv_handshake_response C now resp (peer, es, out)) (\<lambda>s. Inr (s, None))
      | Some (CookieReply_m resp) \<Rightarrow> Inr ((recv_cookie_reply C now resp peer, es, out), None)
      | Some (HandshakeInitiation_m _) \<Rightarrow> Inr ((peer, es, out), None)))"

definition Peer_recv ::
  "crypto \<Rightarrow> instant \<Rightarrow> SessionId \<Rightarrow> bytes list \<Rightarrow> Peer \<times> EndpointState \<times> RecvResult \<Rightarrow>
   wg_fault + Peer \<times> EndpointState \<times> RecvResult" where
  "Peer_recv C now sid packets s =
     bind_res (retain_mut_res (recv_filter C now) s packets) (\<lambda>(s', packets').
       recv_transport_data C now sid packets' s')"

definition respond_to_handshake ::
  "crypto \<Rightarrow> instant \<Rightarrow> WgReceivedHandshake \<Rightarrow> Peer \<times> EndpointState \<times> RecvResult \<Rightarrow>
   wg_fault + Peer \<times> EndpointState \<times> RecvResult" where
  "respond_to_handshake C now handshake = (\<lambda>(peer, es, out).
     (if (case p_last_seen_timestamp peer of
            Some timestamp \<Rightarrow> tai_less (wrh_timestamp handshake) timestamp | None \<Rightarrow> False)
      then Inr (peer, es, out)
      else
        let peer1 = peer\<lparr>p_last_seen_timestamp := Some (wrh_timestamp handshake)\<rparr>
        in bind_res (draw_session (p_id peer) es) (\<lambda>(sid, es1).
           let (eph, es2) = draw_key es1
           in bind_res (Handshake_respond C (p_handshake peer1) sid handshake (cfg_psk (p_config peer1))
                  (p_cookie_sender peer1) eph now) (\<lambda>(packet, hs).
                Inr (peer1\<lparr>p_handshake := hs\<rparr>, es2, recv_queue_to_peer (p_id peer) [packet] out)))))"

definition handshake_timeout ::
  "crypto \<Rightarrow> instant \<Rightarrow> systime \<Rightarrow> Peer \<Rightarrow> EndpointState \<Rightarrow> EventResult \<Rightarrow>
   wg_fault + Peer \<times> EndpointState \<times> EventResult" where
  "handshake_timeout C now st peer es out =
     (if \<not> is_active (p_handshake peer) then Inr (peer, es, out)
      else bind_res (remove_handshake_session (p_handshake peer) (es_ids es)) (\<lambda>ids.
           bind_res (start_handshake C now st (peer\<lparr>p_handshake := HsNone\<rparr>) (es\<lparr>es_ids := ids\<rparr>) (er_to_peers out))
             (\<lambda>(peer', es', m). Inr (peer', es', out\<lparr>er_to_peers := m\<rparr>))))"

definition send_keepalive ::
  "crypto \<Rightarrow> instant \<Rightarrow> Peer \<Rightarrow> Event Scheduler \<Rightarrow> EventResult \<Rightarrow>
   wg_fault + Peer \<times> Event Scheduler \<times> EventResult" where
  "send_keepalive C now peer sched out =
     bind_res (encrypt_keepalive C now (p_session peer)) (\<lambda>(enc, ss).
     let peer1 = peer\<lparr>p_session := ss\<rparr>
     in case enc of
          None \<Rightarrow> Inr (peer1, sched, out)
        | Some packet \<Rightarrow>
            let out1 = out\<lparr>er_to_peers := queue_to_peer (p_id peer) [packet] (er_to_peers out)\<rparr>;
                peer2 = peer1\<lparr>p_keepalive := None\<rparr>
            in if p_send_another_keepalive peer2
               then bind_res (schedule_keepalive now peer2 sched) (\<lambda>(peer3, sched').
                      Inr (peer3\<lparr>p_send_another_keepalive := False\<rparr>, sched', out1))
               else Inr (peer2, sched, out1))"

definition shutdown :: "Peer \<Rightarrow> EndpointState \<Rightarrow> wg_fault + Peer \<times> EndpointState" where
  "shutdown peer es =
     bind_res (deactivate (es_ids es) (p_session peer)) (\<lambda>(ids, ss).
     bind_res (remove_handshake_session (p_handshake peer) ids) (\<lambda>ids'.
       Inr (peer\<lparr>p_session := ss, p_handshake := HsNone\<rparr>, es\<lparr>es_ids := ids'\<rparr>)))"

end
