(* ===== verification/Wg_Endpoint.thy ===== *)
theory Wg_Endpoint
  imports Wg_Peer
begin

text \<open>
  The WireGuard endpoint (\<open>wireguard/endpoint.rs\<close>, \<open>Endpoint\<close>): peer management, sending,
  receiving and timed events over the peers of \<open>Wg_Peer\<close>.  The order in which the hash map of
  packets by session id is iterated is an argument of \<open>Endpoint_recv\<close>.
\<close>

record Endpoint =
  ep_state :: EndpointState
  ep_peers :: "PeerId \<rightharpoonup> Peer"

definition Endpoint_new :: "crypto \<Rightarrow> Entropy \<Rightarrow> X25519KeyPair \<Rightarrow> Endpoint" where
  "Endpoint_new C rng my_key =
     \<lparr>ep_state = \<lparr>es_my_key = my_key, es_my_cookie = MACReceiver_new C (kp_public my_key),
        es_ids = IdMap_default, es_timestamps = TAI64NClock_new, es_scheduler = Scheduler_default,
        es_entropy = rng\<rparr>,
      ep_peers = Map.empty\<rparr>"

definition put_peer :: "PeerId \<Rightarrow> Peer \<Rightarrow> EndpointState \<Rightarrow> Endpoint \<Rightarrow> Endpoint" where
  "put_peer i peer es ep = \<lparr>ep_state = es, ep_peers = (ep_peers ep)(i \<mapsto> peer)\<rparr>"

definition upsert_peer :: "crypto \<Rightarrow> PeerId \<Rightarrow> PeerConfig \<Rightarrow> Endpoint \<Rightarrow> wg_fault + PeerConfig option \<times> Endpoint" where
  "upsert_peer C i cfg ep =
     (let es = ep_state ep
      in case ep_peers ep i of
           Some peer \<Rightarrow>
             bind_res
               (if cfg_key (p_config peer) \<noteq> cfg_key cfg
                then bind_res (IdMap_remove_peer (cfg_key (p_config peer)) (es_ids es)) (\<lambda>ids.
                       Inr (snd (add_peer i (cfg_key cfg) ids)))
                else Inr (es_ids es)) (\<lambda>ids.
             Inr (Some (p_config peer), put_peer i (peer\<lparr>p_config := cfg\<rparr>) (es\<lparr>es_ids := ids\<rparr>) ep))
         | None \<Rightarrow>
             (case add_peer i (cfg_key cfg) (es_ids es) of
                (False, _) \<Rightarrow> Inl NodeKeyCollision
              | (True, ids) \<Rightarrow> Inr (None, put_peer i (Peer_new C i cfg) (es\<lparr>es_ids := ids\<rparr>) ep)))"

definition remove_peer :: "PeerId \<Rightarrow> Endpoint \<Rightarrow> wg_fault + bool \<times> Endpoint" where
  "remove_peer i ep =
     (case ep_peers ep i of
        None \<Rightarrow> Inr (False, ep)
      | Some peer \<Rightarrow>
          bind_res (shutdown peer (ep_state ep)) (\<lambda>(peer', es).
          bind_res (IdMap_remove_peer (cfg_key (p_config peer')) (es_ids es)) (\<lambda>ids.
            Inr (True, \<lparr>ep_state = es\<lparr>es_ids := ids\<rparr>, ep_peers = (ep_peers ep)(i := None)\<rparr>))))"

fun send_each ::
  "crypto \<Rightarrow> instant \<Rightarrow> systime \<Rightarrow> (PeerId \<times> bytes list) list \<Rightarrow> Endpoint \<times> SendResult \<Rightarrow>
   wg_fault + Endpoint \<times> SendResult" where
  "send_each C now st [] s = Inr s"
| "send_each C now st ((i, packets) # rest) (ep, ret) =
     (case ep_peers ep i of
        None \<Rightarrow> send_each C now st rest (ep, ret)
      | Some peer \<Rightarrow>
          bind_res (Peer_send C now st packets peer (ep_state ep) ret) (\<lambda>(peer', es, ret').
            send_each C now st rest (put_peer i peer' es ep, ret')))"

definition Endpoint_send ::
  "crypto \<Rightarrow> instant \<Rightarrow> systime \<Rightarrow> (PeerId \<times> bytes list) list \<Rightarrow> Endpoint \<Rightarrow> wg_fault + SendResult \<times> Endpoint" where
  "Endpoint_send C now st packets ep =
     bind_res (send_each C now st packets (ep, SendResult_default)) (\<lambda>(ep', ret). Inr (ret, ep'))"

definition process_one_handshake ::
  "crypto \<Rightarrow> instant \<Rightarrow> bytes \<Rightarrow> Endpoint \<times> RecvResult \<Rightarrow> wg_fault + Endpoint \<times> RecvResult" where
  "process_one_handshake C now packet = (\<lambda>(ep, out).
     (case Message_try_from packet of
        Some (HandshakeInitiation_m init) \<Rightarrow>
          (case WgReceived_new C init (es_my_key (ep_state ep)) (es_my_cookie (ep_state ep)) of
             None \<Rightarrow> Inr (ep, out)
           | Some handshake \<Rightarrow>
               (case get_by_nodekey (es_ids (ep_state ep)) (peer_static handshake) of
                  None \<Rightarrow> Inr (ep, out)
                | Some i \<Rightarrow>
                    (case ep_peers ep i of
                       None \<Rightarrow> Inr (ep, out)
                     | Some peer \<Rightarrow>
                         bind_res (respond_to_handshake C now handshake (peer, ep_state ep, out))
                           (\<lambda>(peer', es, out'). Inr (put_peer i peer' es ep, out')))))
      | _ \<Rightarrow> Inr (ep, out)))"

fun process_handshakes ::
  "crypto \<Rightarrow> instant \<Rightarrow> bytes list \<Rightarrow> Endpoint \<times> RecvResult \<Rightarrow> wg_fault + Endpoint \<times> RecvResult" where
  "process_handshakes C now [] s = Inr s"
| "process_handshakes C now (p # ps) s = bind_res (process_one_handshake C now p s) (process_handshakes C now ps)"

text \<open>\<open>into_group_map_by\<close>: the packets of each key, in order.\<close>

definition group_map_by :: "('a \<Rightarrow> 'k) \<Rightarrow> 'a list \<Rightarrow> ('k \<rightharpoonup> 'a list)" where
  "group_map_by f xs = fold (\<lambda>x m. entry_extend m (f x) [x]) xs Map.empty"

definition group_key :: "bytes \<Rightarrow> u32" where
  "group_key packet =
     (case Option.bind (Message_try_from packet) receiver_id of None \<Rightarrow> 0 | Some i \<Rightarrow> i)"

fun recv_groups ::
  "crypto \<Rightarrow> instant \<Rightarrow> SessionId list \<Rightarrow> (SessionId \<rightharpoonup> bytes list) \<Rightarrow> Endpoint \<times> RecvResult \<Rightarrow>
   wg_fault + Endpoint \<times> RecvResult" where
  "recv_groups C now [] groups s = Inr s"
| "recv_groups C now (sid # order) groups (ep, out) =
     (case groups sid of
        None \<Rightarrow> recv_groups C now order groups (ep, out)
      | Some packets \<Rightarrow>
          (case get_by_session_id (es_ids (ep_state ep)) sid of
             None \<Rightarrow> recv_groups C now order groups (ep, out)
           | Some i \<Rightarrow>
               (case ep_peers ep i of
                  None \<Rightarrow> recv_groups C now order groups (ep, out)
                | Some peer \<Rightarrow>
                    bind_res (Peer_recv C now sid packets (peer, ep_state ep, out)) (\<lambda>(peer', es, out').
                      recv_groups C now order groups (put_peer i peer' es ep, out')))))"

definition Endpoint_recv ::
  "crypto \<Rightarrow> instant \<Rightarrow> SessionId list \<Rightarrow> bytes list \<Rightarrow> Endpoint \<Rightarrow> wg_fault + RecvResult \<times> Endpoint" where
  "Endpoint_recv C now order packets ep =
     (let groups = group_map_by group_key packets;
          handshakes = (case groups 0 of None \<Rightarrow> [] | Some ps \<Rightarrow> ps)
      in bind_res (process_handshakes C now handshakes (ep, RecvResult_default)) (\<lambda>s.
         bind_res (recv_groups C now order (groups(0 := None)) s) (\<lambda>(ep', ret). Inr (ret, ep'))))"

fun dispatch_each ::
  "crypto \<Rightarrow> instant \<Rightarrow> systime \<Rightarrow> Event list \<Rightarrow> Endpoint \<times> EventResult \<Rightarrow> wg_fault + Endpoint \<times> EventResult" where
  "dispatch_each C wall st [] s = Inr s"
| "dispatch_each C wall st (HandshakeTimeout i # evs) (ep, out) =
     (case ep_peers ep i of
        None \<Rightarrow> dispatch_each C wall st evs (ep, out)
      | Some peer \<Rightarrow>
          bind_res (handshake_timeout C wall st peer (ep_state ep) out) (\<lambda>(peer', es, out').
            dispatch_each C wall st evs (put_peer i peer' es ep, out')))"
| "dispatch_each C wall st (MaybeSendKeepalive i # evs) (ep, out) =
     (case ep_peers ep i of
        None \<Rightarrow> dispatch_each C wall st evs (ep, out)
      | Some peer \<Rightarrow>
          bind_res (send_keepalive C wall peer (es_scheduler (ep_state ep)) out) (\<lambda>(peer', sched, out').
            dispatch_each C wall st evs (put_peer i peer' ((ep_state ep)\<lparr>es_scheduler := sched\<rparr>) ep, out')))"

definition dispatch_events ::
  "crypto \<Rightarrow> instant \<Rightarrow> systime \<Rightarrow> instant \<Rightarrow> Endpoint \<Rightarrow> wg_fault + EventResult \<times> Endpoint" where
  "dispatch_events C wall st now ep =
     (let es = ep_state ep;
          (due, sched) = Scheduler_dispatch now (es_scheduler es)
      in bind_res (dispatch_each C wall st due (ep\<lparr>ep_state := es\<lparr>es_scheduler := sched\<rparr>\<rparr>, EventResult_default))
           (\<lambda>(ep', out). Inr (out, ep')))"

definition next_event :: "Endpoint \<Rightarrow> TimeRange option" where
  "next_event ep = next_dispatch_range (es_scheduler (ep_state ep))"

definition peer_key :: "PeerId \<Rightarrow> Endpoint \<Rightarrow> bytes option" where
  "peer_key i ep = map_option (\<lambda>peer. cfg_key (p_config peer)) (ep_peers ep i)"

definition peer_id :: "bytes \<Rightarrow> Endpoint \<Rightarrow> PeerId option" where
  "peer_id key ep = get_by_nodekey (es_ids (ep_state ep)) key"

end
