(* ===== verification/Wg_Invariant.thy ===== *)
theory Wg_Invariant
  imports Wg_Endpoint
begin

text \<open>
  The invariant of the WireGuard endpoint and its preservation by every handler.  Every session id
  that a peer holds (its current and previous receive session and its handshake) is registered to
  that peer and held once, replay windows are consistent, node keys are registered, and the event
  queue is ordered.  From this none of the \<open>unwrap\<close>s and assertions of the code can fail; the
  remaining panics are the exhaustion of nonces and, in the model, of the supply of random ids.
\<close>

section \<open>Runs that do not panic\<close>

definition tolerated :: "wg_fault \<Rightarrow> bool" where
  "tolerated e \<longleftrightarrow> e = SessionIdsStarved \<or> e = NonceExhausted"

definition safe :: "wg_fault + 'a \<Rightarrow> ('a \<Rightarrow> bool) \<Rightarrow> bool" where
  "safe r Q = (case r of Inl e \<Rightarrow> tolerated e | Inr x \<Rightarrow> Q x)"

lemma safe_Inr [simp]: "safe (Inr x) Q = Q x"
  by (simp add: safe_def)

lemma safe_bind: "safe r Q \<Longrightarrow> (\<And>x. Q x \<Longrightarrow> safe (f x) R) \<Longrightarrow> safe (bind_res r f) R"
  by (cases r) (auto simp: safe_def)

lemma safe_mono: "safe r Q \<Longrightarrow> (\<And>x. Q x \<Longrightarrow> R x) \<Longrightarrow> safe r R"
  by (auto simp: safe_def split: sum.splits)

lemma safe_retain:
  assumes "\<And>s x. I s \<Longrightarrow> safe (f s x) (\<lambda>(s', _). I s')" and "I s"
  shows "safe (retain_mut_res f s xs) (\<lambda>(s', _). I s')"
  using assms(2)
proof (induction xs arbitrary: s)
  case (Cons x xs)
  show ?case
    by (auto intro!: safe_bind [OF assms(1) [OF Cons.prems]] safe_bind [OF Cons.IH])
qed simp

section \<open>Ids held by a peer\<close>

fun session_ids :: "SessionState \<Rightarrow> SessionId list" where
  "session_ids (SsNone _) = []"
| "session_ids (SsActive recv recv_prev _) =
     rs_id recv # (case recv_prev of None \<Rightarrow> [] | Some prev \<Rightarrow> [rs_id prev])"

definition handshake_ids :: "Handshake \<Rightarrow> SessionId list" where
  "handshake_ids hs = (case session_id hs of None \<Rightarrow> [] | Some i \<Rightarrow> [i])"

definition own :: "IdMap \<Rightarrow> PeerId \<Rightarrow> SessionId list \<Rightarrow> bool" where
  "own ids i xs \<longleftrightarrow> distinct xs \<and> (\<forall>x\<in>set xs. im_sessions ids x = Some i)"

text \<open>What an operation for peer \<open>i\<close> may change in the id map: only session ids of that peer.\<close>

definition ids_step :: "PeerId \<Rightarrow> IdMap \<Rightarrow> IdMap \<Rightarrow> bool" where
  "ids_step i ids ids' \<longleftrightarrow> im_node_keys ids' = im_node_keys ids \<and>
     (\<forall>x j. im_sessions ids x = Some j \<longrightarrow> j \<noteq> i \<longrightarrow> im_sessions ids' x = Some j)"

lemma ids_step_refl [simp]: "ids_step i ids ids"
  by (simp add: ids_step_def)

lemma ids_step_trans: "ids_step i a b \<Longrightarrow> ids_step i b c \<Longrightarrow> ids_step i a c"
  by (simp add: ids_step_def)

lemma own_other: "ids_step i ids ids' \<Longrightarrow> j \<noteq> i \<Longrightarrow> own ids j xs \<Longrightarrow> own ids' j xs"
  by (simp add: ids_step_def own_def)

lemma safe_remove_session:
  assumes "own ids i (x # xs)"
  shows "safe (remove_session x ids) (\<lambda>ids'. own ids' i xs \<and> ids_step i ids ids')"
  using assms by (auto simp: remove_session_def own_def ids_step_def)

lemma own_perm: "own ids i xs \<Longrightarrow> mset xs = mset ys \<Longrightarrow> own ids i ys"
  unfolding own_def by (metis mset_eq_imp_distinct_iff mset_eq_setD)

lemma safe_allocate_session:
  assumes "own ids i xs"
  shows "safe (allocate_session i draws ids) (\<lambda>(x, _, ids'). own ids' i (x # xs) \<and> ids_step i ids ids')"
  using assms
proof (induction draws)
  case (Cons d draws)
  then show ?case by (auto simp: own_def ids_step_def)
qed (simp add: safe_def tolerated_def)

lemma safe_draw_session:
  assumes "own (es_ids es) i xs"
  shows "safe (draw_session i es) (\<lambda>(x, es'). own (es_ids es') i (x # xs) \<and> ids_step i (es_ids es) (es_ids es') \<and>
     es_scheduler es' = es_scheduler es)"
  unfolding draw_session_def
  by (rule safe_bind [OF safe_allocate_session [OF assms]]) auto

text \<open>A vacant draw is enough for the retry loop to end.\<close>

lemma allocate_session_terminates:
  "\<exists>d\<in>set draws. im_sessions ids d = None \<Longrightarrow> \<exists>x rest ids'. allocate_session i draws ids = Inr (x, rest, ids')"
  by (induction draws) auto

section \<open>Sessions and handshakes\<close>

fun session_ok :: "SessionState \<Rightarrow> bool" where
  "session_ok (SsNone queue) = (length queue \<le> MAX_QUEUED_PER_PEER)"
| "session_ok (SsActive recv recv_prev _) =
     (rs_inv recv \<and> (case recv_prev of None \<Rightarrow> True | Some prev \<Rightarrow> rs_inv prev))"

fun handshake_ok :: "Handshake \<Rightarrow> bool" where
  "handshake_ok (Responded pair) = rs_inv (sp_recv pair)"
| "handshake_ok _ = True"

lemma length_Queue_append: "length q \<le> MAX_QUEUED_PER_PEER \<Longrightarrow> length (Queue_append q ps) \<le> MAX_QUEUED_PER_PEER"
  by (auto simp: Queue_append_def Let_def min_def)

lemma safe_encrypt: "safe (encrypt C s ps) (\<lambda>(s', out). length out = length ps \<and> ts_created s' = ts_created s)"
  by (simp add: encrypt_eq safe_def tolerated_def)

lemma safe_decrypt:
  assumes "rs_inv r"
  shows "safe (decrypt C r ps) (\<lambda>(r', _). rs_inv r' \<and> rs_id r' = rs_id r)"
  using decrypt_total [OF assms, of C ps] by (auto simp: case_prod_beta)

lemma safe_remove_prev:
  assumes "own ids i ((case prev of None \<Rightarrow> [] | Some p \<Rightarrow> [rs_id p]) @ xs)"
  shows "safe (remove_prev prev ids) (\<lambda>ids'. own ids' i xs \<and> ids_step i ids ids')"
  using assms safe_remove_session [of ids i _ xs] by (cases prev) (auto simp: remove_prev_def)

lemma safe_activate:
  assumes "own ids i (session_ids ss @ [rs_id (sp_recv pair)])" and "session_ok ss" and "rs_inv (sp_recv pair)"
  shows "safe (activate C pair ids ss) (\<lambda>(ps, ids', ss').
     own ids' i (session_ids ss') \<and> ids_step i ids ids' \<and> session_ok ss' \<and>
     (\<exists>recv prev send. ss' = SsActive recv prev send \<and> ts_created send = ts_created (sp_send pair)))"
proof (cases ss)
  case (SsNone q)
  with assms show ?thesis by (auto intro!: safe_bind [OF safe_encrypt])
next
  case (SsActive recv prev send)
  have "own ids i ((case prev of None \<Rightarrow> [] | Some p \<Rightarrow> [rs_id p]) @ [rs_id (sp_recv pair), rs_id recv])"
    by (rule own_perm [OF assms(1)]) (cases prev; simp add: SsActive)
  from safe_remove_prev [OF this] show ?thesis
    using assms(2,3) by (auto simp: SsActive intro!: safe_bind)
qed

lemma safe_deactivate:
  assumes "own ids i (session_ids ss @ xs)"
  shows "safe (deactivate ids ss) (\<lambda>(ids', ss'). own ids' i xs \<and> ids_step i ids ids' \<and> ss' = SsNone [])"
proof (cases ss)
  case (SsNone q)
  with assms show ?thesis by simp
next
  case (SsActive recv prev send)
  from assms have "own ids i (rs_id recv # (case prev of None \<Rightarrow> [] | Some p \<Rightarrow> [rs_id p]) @ xs)"
    by (simp add: SsActive)
  from safe_remove_session [OF this] show ?thesis
    by (auto simp: SsActive intro!: safe_bind safe_bind [OF safe_remove_prev] elim: ids_step_trans)
qed

lemma safe_remove_handshake:
  assumes "own ids i (handshake_ids hs)"
  shows "safe (remove_handshake_session hs ids) (\<lambda>ids'. own ids' i [] \<and> ids_step i ids ids')"
  using assms safe_remove_session [of ids i _ "[]"]
  by (auto simp: remove_handshake_session_def handshake_ids_def split: option.splits)

lemma safe_encrypt_or_queue:
  assumes "session_ok ss" and "own ids i (session_ids ss @ xs)"
  shows "safe (encrypt_or_queue C now ps ss) (\<lambda>(enc, ss'). session_ok ss' \<and> own ids i (session_ids ss' @ xs) \<and>
     (\<forall>recv prev send. ss = SsActive recv prev send \<longrightarrow> \<not> ts_expired send now \<longrightarrow>
        (\<exists>out send'. enc = Some out \<and> ss' = SsActive recv prev send')))"
proof (cases ss)
  case (SsNone q)
  with assms show ?thesis by (simp add: length_Queue_append)
next
  case (SsActive recv prev send)
  with assms show ?thesis
    by (auto simp: Queue_new_with_def own_def intro!: safe_bind [OF safe_encrypt] length_Queue_append)
qed

lemma safe_encrypt_keepalive:
  assumes "session_ok ss" and "own ids i (session_ids ss @ xs)"
  shows "safe (encrypt_keepalive C now ss) (\<lambda>(enc, ss'). session_ok ss' \<and> own ids i (session_ids ss' @ xs))"
  using assms by (cases ss) (auto intro!: safe_bind [OF safe_encrypt])

lemma get_recv_ok:
  assumes "get_recv now sid ss = Some (r, put)" and "session_ok ss"
  shows "rs_inv r" and "rs_id r = sid"
    and "rs_inv r' \<Longrightarrow> rs_id r' = sid \<Longrightarrow> session_ok (put r') \<and> session_ids (put r') = session_ids ss"
  using assms by (cases ss; auto split: if_splits option.splits)+

lemma new_around_ok: "\<exists>tr. new_around t pm = Some tr \<and> tr_start tr \<le> tr_end tr"
proof -
  have "(case instant_checked (t - int pm) of None \<Rightarrow> t | Some s \<Rightarrow> s) \<le> t"
    and "t \<le> (case instant_checked (t + int pm) of None \<Rightarrow> t | Some e \<Rightarrow> e)"
    by (simp_all add: instant_checked_def)
  then show ?thesis by (simp add: new_around_def TimeRange_new_def)
qed

lemma safe_schedule_around:
  assumes "sched_inv sched"
  shows "safe (schedule_around t pm ev sched) (\<lambda>(_, sched'). sched_inv sched')"
  using new_around_ok [of t pm] sched_inv_add [OF assms]
  by (auto simp: schedule_around_def case_prod_beta)

lemma safe_write_macs_initiation:
  "safe (write_macs C now s (HandshakeInitiation_bytes (HandshakeInitiation_default\<lparr>hi_sender_id := i, hi_noise := n\<rparr>))) (\<lambda>_. True)"
  using write_macs_total [of "HandshakeInitiation_bytes (HandshakeInitiation_default\<lparr>hi_sender_id := i, hi_noise := n\<rparr>)" C now s]
  by (auto simp: HandshakeInitiation_bytes_def HandshakeInitiation_default_def)

lemma safe_write_macs_response:
  "safe (write_macs C now s (HandshakeResponse_bytes (HandshakeResponse_default\<lparr>hr_sender_id := i, hr_receiver_id := j, hr_noise := n\<rparr>))) (\<lambda>_. True)"
  using write_macs_total [of "HandshakeResponse_bytes (HandshakeResponse_default\<lparr>hr_sender_id := i, hr_receiver_id := j, hr_noise := n\<rparr>)" C now s]
  by (auto simp: HandshakeResponse_bytes_def HandshakeResponse_default_def)

lemma session_new_simps [simp]:
  "rs_id (ReceiveSession_new k i t) = i" "ts_created (TransmitSession_new k i t) = t"
  by (simp_all add: ReceiveSession_new_def TransmitSession_new_def)

lemma finish_None:
  assumes "Handshake_finish C hs packet k psk cookies now sched = (None, hs', sched')"
  shows "sched' = sched" and "hs' = HsNone \<or> hs' = hs"
  using assms by (cases hs; auto simp: Handshake_finish_def Let_def split: if_splits sum.splits)+

lemma finish_Some:
  assumes "Handshake_finish C hs packet k psk cookies now sched = (Some pair, hs', sched')"
  obtains sent timeout mac where "hs = Initiated sent timeout mac" and "hs' = HsNone"
    and "sched' = Handle_cancel timeout sched" and "rs_id (sp_recv pair) = wsh_id sent"
    and "rs_inv (sp_recv pair)" and "ts_created (sp_send pair) = now"
proof (cases hs)
  case (Initiated sent timeout mac)
  with assms that show thesis
    by (auto simp: Handshake_finish_def Let_def split: if_splits sum.splits)
qed (use assms in \<open>auto simp: Handshake_finish_def\<close>)

lemma safe_confirm:
  assumes "handshake_ok hs"
  shows "safe (Handshake_confirm C hs sid ps) (\<lambda>(conf, hs'). case conf of
      None \<Rightarrow> handshake_ids hs' = handshake_ids hs \<and> handshake_ok hs'
    | Some (pair, plain) \<Rightarrow> hs' = HsNone \<and> handshake_ids hs = [rs_id (sp_recv pair)] \<and>
        rs_inv (sp_recv pair) \<and> plain \<noteq> [])"
proof (cases hs)
  case (Responded pair)
  with assms have "rs_inv (sp_recv pair)" by simp
  from safe_decrypt [OF this, of C ps] this show ?thesis
    by (auto simp: Handshake_confirm_def Responded handshake_ids_def Let_def intro!: safe_bind)
qed (auto simp: Handshake_confirm_def)

section \<open>Handlers of a peer\<close>

text \<open>
  \<open>pinv i cfg ids\<close>: while a handler for peer \<open>i\<close> runs, that peer's part of the invariant holds,
  its configuration is \<open>cfg\<close>, and the id map differs from \<open>ids\<close> only in the peer's own ids.
\<close>

definition pinv :: "PeerId \<Rightarrow> PeerConfig \<Rightarrow> IdMap \<Rightarrow> Peer \<Rightarrow> EndpointState \<Rightarrow> bool" where
  "pinv i cfg ids peer es \<longleftrightarrow>
     p_id peer = i \<and> p_config peer = cfg \<and> sched_inv (es_scheduler es) \<and>
     own (es_ids es) i (session_ids (p_session peer) @ handshake_ids (p_handshake peer)) \<and>
     session_ok (p_session peer) \<and> handshake_ok (p_handshake peer) \<and> ids_step i ids (es_ids es)"

lemma handshake_ids_simps [simp]:
  "handshake_ids HsNone = []" "handshake_ids (Initiated sent t m) = [wsh_id sent]"
  "handshake_ids (Responded pair) = [rs_id (sp_recv pair)]"
  by (simp_all add: handshake_ids_def)

lemma own_appendD: "own ids i (xs @ ys) \<Longrightarrow> own ids i xs \<and> own ids i ys"
  by (simp add: own_def)

lemma safe_schedule_keepalive:
  assumes "sched_inv sched"
  shows "safe (schedule_keepalive now peer sched) (\<lambda>(peer', sched'). sched_inv sched' \<and>
     p_id peer' = p_id peer \<and> p_config peer' = p_config peer \<and> p_session peer' = p_session peer \<and>
     p_handshake peer' = p_handshake peer)"
  using assms by (auto simp: schedule_keepalive_def intro!: safe_bind [OF safe_schedule_around])

lemma initiate_handshake_shape:
  assumes "initiate_handshake C k p sid ts e = (hs, pkt)"
  shows "wsh_id hs = sid"
    and "pkt = HandshakeInitiation_default\<lparr>hi_sender_id := sid,
           hi_noise := snd (Sent_new C k (keypair C e) p PROLOGUE (TAI64N_bytes ts))\<rparr>"
  using assms by (auto simp: initiate_handshake_def case_prod_beta)

lemma safe_start_handshake:
  assumes "pinv i cfg ids peer es"
  shows "safe (start_handshake C now st peer es out) (\<lambda>(peer', es', _). pinv i cfg ids peer' es')"
proof -
  have own: "own (es_ids es) (p_id peer) (session_ids (p_session peer))"
    using assms by (simp add: pinv_def own_def)
  have "safe (draw_session (p_id peer) es) (\<lambda>(x, es'). own (es_ids es') i (x # session_ids (p_session peer)) \<and>
      ids_step i ids (es_ids es') \<and> sched_inv (es_scheduler es'))"
    by (rule safe_mono [OF safe_draw_session [OF own]])
      (use assms in \<open>auto simp: pinv_def intro: ids_step_trans\<close>)
  then show ?thesis
    unfolding start_handshake_def
  proof (rule safe_bind, goal_cases)
    case (1 r)
    obtain sid es1 where r: "r = (sid, es1)" by (cases r)
    with 1 have own1: "own (es_ids es1) i (sid # session_ids (p_session peer))"
      and step: "ids_step i ids (es_ids es1)" and sched: "sched_inv (es_scheduler es1)" by simp_all
    have own2: "own (es_ids es1) i (session_ids (p_session peer) @ [sid])" by (rule own_perm [OF own1]) simp
    obtain ts clk where c: "clock_now st (es_timestamps es1) = (ts, clk)" by fastforce
    obtain eph es2 where d: "draw_key (es1\<lparr>es_timestamps := clk\<rparr>) = (eph, es2)" by fastforce
    then have es2: "es_ids es2 = es_ids es1" "es_scheduler es2 = es_scheduler es1"
      by (auto simp: draw_key_def Let_def)
    obtain hs pkt where h: "initiate_handshake C (es_my_key es2) (cfg_key (p_config peer)) sid ts eph = (hs, pkt)"
      by fastforce
    note pkt = initiate_handshake_shape [OF h]
    have "sched_inv (es_scheduler es2)" using sched es2 by simp
    note sch = safe_schedule_around [OF this]
    show ?case
      unfolding r c d h Let_def split_conv pkt(2)
      by (rule safe_bind [OF safe_write_macs_initiation], simp only: split_paired_all split_conv, rule safe_bind [OF sch])
        (use own2 step assms es2 pkt(1) in \<open>simp add: pinv_def case_prod_beta\<close>)
  qed
qed

text \<open>Updating the parts of a peer under \<^const>\<open>pinv\<close>.\<close>

lemma pinv_session:
  assumes "pinv i cfg ids peer es" and "session_ok ss"
    and "own (es_ids es) i (session_ids ss @ handshake_ids (p_handshake peer))"
  shows "pinv i cfg ids (peer\<lparr>p_session := ss\<rparr>) es"
  using assms by (simp add: pinv_def)

lemma pinv_own:
  assumes "pinv i cfg ids peer es"
  shows "own (es_ids es) i (session_ids (p_session peer) @ handshake_ids (p_handshake peer))"
    and "session_ok (p_session peer)" and "handshake_ok (p_handshake peer)"
    and "sched_inv (es_scheduler es)" and "ids_step i ids (es_ids es)" and "p_id peer = i"
  using assms by (simp_all add: pinv_def)

lemma safe_Peer_send:
  assumes "pinv i cfg ids peer es"
  shows "safe (Peer_send C now st ps peer es out) (\<lambda>(peer', es', _). pinv i cfg ids peer' es')"
  unfolding Peer_send_def
proof (rule safe_bind [OF safe_encrypt_or_queue [OF pinv_own(2,1) [OF assms]]], goal_cases)
  case (1 r)
  then have "pinv i cfg ids (peer\<lparr>p_session := snd r\<rparr>) es"
    using pinv_session [OF assms, of "snd r"] by (cases r) simp
  note start = safe_start_handshake [OF this]
  show ?case
    using \<open>pinv i cfg ids (peer\<lparr>p_session := snd r\<rparr>) es\<close>
    by (auto simp: Let_def case_prod_beta intro!: safe_bind [OF start])
qed

lemma safe_first_packet:
  assumes "session_ok ss" and "own ids i (session_ids ss)"
    and "ss = SsActive recv prev send" and "ts_created send = now"
  shows "safe (if packets = []
      then bind_res (encrypt_or_queue C now [PacketMut_new 0] ss) (\<lambda>(enc, ss').
             case enc of None \<Rightarrow> Inl CannotEncrypt | Some ps \<Rightarrow> Inr (ps, ss'))
      else Inr (packets, ss)) (\<lambda>(_, ss'). session_ok ss' \<and> own ids i (session_ids ss'))"
proof -
  have "\<not> ts_expired send now" using assms(4) by (simp add: ts_expired_def duration_since_def)
  then have enc: "safe (encrypt_or_queue C now [PacketMut_new 0] ss) (\<lambda>(enc, ss').
      session_ok ss' \<and> own ids i (session_ids ss') \<and> enc \<noteq> None)"
    by (intro safe_mono [OF safe_encrypt_or_queue [OF assms(1), of ids i "[]"]]) (use assms in auto)
  show ?thesis
  proof (cases "packets = []")
    case True
    show ?thesis
      unfolding if_P [OF True] by (rule safe_bind [OF enc]) auto
  qed (use assms in simp)
qed

lemma safe_recv_handshake_response:
  assumes "pinv i cfg ids peer es"
  shows "safe (recv_handshake_response C now packet (peer, es, out)) (\<lambda>(peer', es', _). pinv i cfg ids peer' es')"
proof -
  obtain res hs sched where fin: "Handshake_finish C (p_handshake peer) packet (es_my_key es) (cfg_psk (p_config peer))
             (es_my_cookie es) now (es_scheduler es) = (res, hs, sched)" using prod_cases3 by blast
  show ?thesis
  proof (cases res)
    case None
    note f = finish_None [OF fin [unfolded None]]
    then have "pinv i cfg ids (peer\<lparr>p_handshake := hs\<rparr>) (es\<lparr>es_scheduler := sched\<rparr>)"
      using assms by (auto simp: pinv_def own_def)
    then show ?thesis by (simp add: recv_handshake_response_def fin None)
  next
    case (Some pair)
    from finish_Some [OF fin [unfolded Some]] obtain sent timeout mac where
      hs: "p_handshake peer = Initiated sent timeout mac" "hs = HsNone" and
      sched: "sched = Handle_cancel timeout (es_scheduler es)" and
      pair: "rs_id (sp_recv pair) = wsh_id sent" "rs_inv (sp_recv pair)" "ts_created (sp_send pair) = now" .
    have "own (es_ids es) i (session_ids (p_session peer) @ [rs_id (sp_recv pair)])"
      using pinv_own(1) [OF assms] by (simp add: hs(1) pair(1))
    note act = safe_activate [OF this pinv_own(2) [OF assms] pair(2)]
    have "sched_inv sched" using pinv_own(4) [OF assms] by (simp add: sched sched_inv_cancel)
    show ?thesis
      unfolding recv_handshake_response_def split_conv fin Some option.case Let_def
    proof (rule safe_bind [OF act], goal_cases)
      case (1 x)
      obtain ps ids' ss where x: "x = (ps, ids', ss)" using prod_cases3 by blast
      from 1 obtain recv prev send where a: "own ids' i (session_ids ss)" "ids_step i (es_ids es) ids'" "session_ok ss"
        "ss = SsActive recv prev send" "ts_created send = now" by (auto simp: x pair(3))
      show ?case
        unfolding x split_conv
        by (rule safe_bind [OF safe_first_packet [OF a(3,1,4,5)]])
          (use assms ids_step_trans [OF pinv_own(5) [OF assms] a(2)] \<open>sched_inv sched\<close> in \<open>auto simp: hs(2) pinv_def\<close>)
    qed
  qed
qed

lemma safe_recv_transport_data:
  assumes "pinv i cfg ids peer es"
  shows "safe (recv_transport_data C now sid packets (peer, es, out)) (\<lambda>(peer', es', _). pinv i cfg ids peer' es')"
proof (cases "get_recv now sid (p_session peer)")
  case (Some sp)
  obtain r put where sp: "sp = (r, put)" by (cases sp)
  note g = get_recv_ok [OF Some [unfolded sp] pinv_own(2) [OF assms]]
  have put: "pinv i cfg ids (peer\<lparr>p_session := put r'\<rparr>) es" if "rs_inv r'" "rs_id r' = rs_id r" for r'
    using pinv_session [OF assms, of "put r'"] g(2) g(3) [of r'] that pinv_own(1) [OF assms] by simp
  show ?thesis
    unfolding recv_transport_data_def split_conv Some sp option.case
  proof (rule safe_bind [OF safe_decrypt [OF g(1)]], goal_cases)
    case (1 x)
    then have p: "pinv i cfg ids (peer\<lparr>p_session := put (fst x)\<rparr>) es" using put by (cases x) simp
    note keep = safe_schedule_keepalive [OF pinv_own(4) [OF p]]
    show ?case
      using p by (auto simp: Let_def case_prod_beta pinv_def intro!: safe_bind [OF keep])
  qed
next
  case None
  show ?thesis
    unfolding recv_transport_data_def split_conv None option.case
  proof (rule safe_bind [OF safe_confirm [OF pinv_own(3) [OF assms]]], goal_cases)
    case (1 x)
    obtain conf hs where x: "x = (conf, hs)" by (cases x)
    show ?case
    proof (cases conf)
      case None
      with 1 assms show ?thesis by (simp add: x Let_def pinv_def)
    next
      case (Some y)
      obtain pair plain where y: "y = (pair, plain)" by (cases y)
      from 1 have hs: "hs = HsNone" "handshake_ids (p_handshake peer) = [rs_id (sp_recv pair)]" "rs_inv (sp_recv pair)"
        by (simp_all add: x Some y)
      have "own (es_ids es) i (session_ids (p_session peer) @ [rs_id (sp_recv pair)])"
        using pinv_own(1) [OF assms] by (simp add: hs(2))
      note act = safe_activate [OF this pinv_own(2) [OF assms] hs(3)]
      note keep = safe_schedule_keepalive [OF pinv_own(4) [OF assms]]
      show ?thesis
        unfolding x Some y split_conv option.case Let_def
        using assms ids_step_trans [OF pinv_own(5) [OF assms]]
        by (auto simp: hs(1) pinv_def intro!: safe_bind [OF keep] safe_bind [OF act])
    qed
  qed
qed

lemma pinv_cookie_reply: "pinv i cfg ids peer es \<Longrightarrow> pinv i cfg ids (recv_cookie_reply C now packet peer) es"
  by (cases "p_handshake peer") (simp_all add: recv_cookie_reply_def pinv_def)

lemma safe_recv_filter:
  assumes "pinv i cfg ids peer es"
  shows "safe (recv_filter C now (peer, es, out) packet) (\<lambda>((peer', es', _), _). pinv i cfg ids peer' es')"
proof (cases "Message_try_from packet")
  case (Some m)
  with assms show ?thesis
    by (cases m) (auto simp: recv_filter_def pinv_cookie_reply intro!: safe_bind [OF safe_recv_handshake_response])
qed (use assms in \<open>simp add: recv_filter_def\<close>)

lemma safe_Peer_recv:
  assumes "pinv i cfg ids peer es"
  shows "safe (Peer_recv C now sid packets (peer, es, out)) (\<lambda>(peer', es', _). pinv i cfg ids peer' es')"
proof -
  have "safe (retain_mut_res (recv_filter C now) (peer, es, out) packets)
      (\<lambda>(s, _). case s of (peer', es', _) \<Rightarrow> pinv i cfg ids peer' es')"
  proof (rule safe_retain)
    fix s :: "Peer \<times> EndpointState \<times> RecvResult" and x
    assume "case s of (peer', es', _) \<Rightarrow> pinv i cfg ids peer' es'"
    then show "safe (recv_filter C now s x) (\<lambda>(s', _). case s' of (peer', es', _) \<Rightarrow> pinv i cfg ids peer' es')"
      by (cases s) (auto intro: safe_mono [OF safe_recv_filter])
  qed (use assms in simp)
  then show ?thesis
    unfolding Peer_recv_def by (rule safe_bind) (auto intro: safe_recv_transport_data)
qed

lemma safe_respond_to_handshake:
  assumes "pinv i cfg ids peer es"
  shows "safe (respond_to_handshake C now h (peer, es, out)) (\<lambda>(peer', es', _). pinv i cfg ids peer' es')"
proof -
  have own: "own (es_ids es) (p_id peer) (session_ids (p_session peer))"
    using assms by (simp add: pinv_def own_def)
  have draw: "safe (draw_session (p_id peer) es) (\<lambda>(x, es'). own (es_ids es') i (x # session_ids (p_session peer)) \<and>
      ids_step i ids (es_ids es') \<and> sched_inv (es_scheduler es'))"
    by (rule safe_mono [OF safe_draw_session [OF own]])
      (use assms in \<open>auto simp: pinv_def intro: ids_step_trans\<close>)
  have resp: "safe (Handshake_respond C hs sid h psk macs eph now) (\<lambda>(_, hs'). handshake_ids hs' = [sid] \<and> handshake_ok hs')"
    for hs sid psk macs eph
    by (auto simp: Handshake_respond_def WgReceived_respond_def Let_def case_prod_beta
        intro!: safe_bind [where Q = "\<lambda>(p, _). rs_id (sp_recv p) = sid \<and> rs_inv (sp_recv p)"]
          safe_bind [OF safe_write_macs_response])
  have "safe (bind_res (draw_session (p_id peer) es) (\<lambda>(sid, es1).
         let (eph, es2) = draw_key es1
         in bind_res (Handshake_respond C (p_handshake peer) sid h (cfg_psk (p_config peer))
              (p_cookie_sender peer) eph now) (\<lambda>(packet, hs).
            Inr (peer\<lparr>p_last_seen_timestamp := Some (wrh_timestamp h), p_handshake := hs\<rparr>, es2,
              recv_queue_to_peer (p_id peer) [packet] out)))) (\<lambda>(peer', es', _). pinv i cfg ids peer' es')"
  proof (rule safe_bind [OF draw], goal_cases)
    case (1 x)
    obtain sid es1 where x: "x = (sid, es1)" by (cases x)
    with 1 have own1: "own (es_ids es1) i (sid # session_ids (p_session peer))" by simp
    have "own (es_ids es1) i (session_ids (p_session peer) @ [sid])" by (rule own_perm [OF own1]) simp
    with 1 assms show ?case
      by (auto simp: x draw_key_def Let_def pinv_def intro!: safe_bind [OF resp])
  qed
  then show ?thesis
    using assms by (auto simp: respond_to_handshake_def Let_def)
qed

lemma safe_handshake_timeout:
  assumes "pinv i cfg ids peer es"
  shows "safe (handshake_timeout C now st peer es out) (\<lambda>(peer', es', _). pinv i cfg ids peer' es')"
proof (cases "is_active (p_handshake peer)")
  case True
  obtain x where sid: "session_id (p_handshake peer) = Some x"
    using True by (cases "p_handshake peer") (auto simp: is_active_def)
  have "own (es_ids es) i (x # session_ids (p_session peer))"
    by (rule own_perm [OF pinv_own(1) [OF assms]]) (simp add: handshake_ids_def sid)
  from safe_remove_session [OF this]
  have rm: "safe (remove_handshake_session (p_handshake peer) (es_ids es))
      (\<lambda>ids'. own ids' i (session_ids (p_session peer)) \<and> ids_step i ids ids')"
    using ids_step_trans [OF pinv_own(5) [OF assms]]
    by (simp add: remove_handshake_session_def sid) (erule safe_mono, blast)
  show ?thesis
    unfolding handshake_timeout_def using True
  proof (simp, intro safe_bind [OF rm], goal_cases)
    case (1 ids')
    then have "pinv i cfg ids (peer\<lparr>p_handshake := HsNone\<rparr>) (es\<lparr>es_ids := ids'\<rparr>)"
      using assms by (simp add: pinv_def)
    from safe_start_handshake [OF this] show ?case by (auto intro!: safe_bind)
  qed
qed (use assms in \<open>simp add: handshake_timeout_def\<close>)

lemma safe_send_keepalive:
  assumes "pinv i cfg ids peer es"
  shows "safe (send_keepalive C now peer (es_scheduler es) out)
     (\<lambda>(peer', sched, _). pinv i cfg ids peer' (es\<lparr>es_scheduler := sched\<rparr>))"
  unfolding send_keepalive_def
proof (rule safe_bind [OF safe_encrypt_keepalive [OF pinv_own(2,1) [OF assms]]], goal_cases)
  case (1 x)
  then have p: "pinv i cfg ids (peer\<lparr>p_session := snd x\<rparr>) es"
    using pinv_session [OF assms, of "snd x"] by (cases x) simp
  note keep = safe_schedule_keepalive [OF pinv_own(4) [OF assms]]
  show ?case
    using p by (auto simp: Let_def case_prod_beta pinv_def intro!: safe_bind [OF keep] split: option.splits)
qed

lemma safe_shutdown:
  assumes "pinv i cfg ids peer es"
  shows "safe (shutdown peer es) (\<lambda>(peer', es'). p_config peer' = cfg \<and> sched_inv (es_scheduler es') \<and>
     ids_step i ids (es_ids es'))"
  unfolding shutdown_def
  by (rule safe_bind [OF safe_deactivate [OF pinv_own(1) [OF assms]]])
    (use assms in \<open>auto simp: pinv_def intro!: safe_bind [OF safe_remove_handshake]
      intro: ids_step_trans [OF ids_step_trans]\<close>)

section \<open>The endpoint\<close>

definition ep_inv :: "Endpoint \<Rightarrow> bool" where
  "ep_inv ep \<longleftrightarrow> sched_inv (es_scheduler (ep_state ep)) \<and>
     (\<forall>i peer. ep_peers ep i = Some peer \<longrightarrow>
        pinv i (p_config peer) (es_ids (ep_state ep)) peer (ep_state ep)) \<and>
     (\<forall>key i. im_node_keys (es_ids (ep_state ep)) key = Some i \<longleftrightarrow>
        (\<exists>peer. ep_peers ep i = Some peer \<and> cfg_key (p_config peer) = key))"

lemma ep_invD:
  assumes "ep_inv ep"
  shows "ep_peers ep i = Some peer \<Longrightarrow> pinv i (p_config peer) (es_ids (ep_state ep)) peer (ep_state ep)"
    and "sched_inv (es_scheduler (ep_state ep))"
    and "im_node_keys (es_ids (ep_state ep)) key = Some i \<longleftrightarrow>
      (\<exists>peer. ep_peers ep i = Some peer \<and> cfg_key (p_config peer) = key)"
  using assms by (simp_all add: ep_inv_def)

lemma ep_inv_keyD: "ep_inv ep \<Longrightarrow> ep_peers ep i = Some peer \<Longrightarrow>
    im_node_keys (es_ids (ep_state ep)) (cfg_key (p_config peer)) = Some i"
  by (simp add: ep_inv_def)

lemma pinv_other:
  assumes "pinv j cfg ids peer es" and "ids_step i (es_ids es) (es_ids es')" and "j \<noteq> i" and "sched_inv (es_scheduler es')"
  shows "pinv j cfg (es_ids es') peer es'"
  using assms by (auto simp: pinv_def intro: own_other)

lemma ep_inv_putI:
  assumes "pinv i (p_config peer') (es_ids es') peer' es'"
    and "\<And>j q. ep_peers ep j = Some q \<Longrightarrow> j \<noteq> i \<Longrightarrow> pinv j (p_config q) (es_ids es') q es'"
    and "\<And>key j. im_node_keys (es_ids es') key = Some j \<longleftrightarrow>
      (if j = i then key = cfg_key (p_config peer') else \<exists>q. ep_peers ep j = Some q \<and> cfg_key (p_config q) = key)"
  shows "ep_inv (put_peer i peer' es' ep)"
  unfolding ep_inv_def put_peer_def
proof (intro conjI allI impI, goal_cases)
  case 1
  show ?case using pinv_own(4) [OF assms(1)] by simp
next
  case (2 j q)
  then show ?case using assms(1,2) by (cases "j = i") simp_all
next
  case (3 key j)
  show ?case using assms(3) [of key j] by (cases "j = i") auto
qed

lemma ep_inv_put:
  assumes inv: "ep_inv ep" and "ep_peers ep i = Some peer"
    and p: "pinv i (p_config peer) (es_ids (ep_state ep)) peer' es'"
  shows "ep_inv (put_peer i peer' es' ep)"
proof (rule ep_inv_putI)
  note step = pinv_own(5) [OF p]
  have cfg: "p_config peer' = p_config peer" using p by (simp add: pinv_def)
  show "pinv i (p_config peer') (es_ids es') peer' es'" using p by (simp add: pinv_def)
  show "pinv j (p_config q) (es_ids es') q es'" if "ep_peers ep j = Some q" "j \<noteq> i" for j q
    using pinv_other [OF ep_invD(1) [OF inv that(1)] step that(2) pinv_own(4) [OF p]] .
  show "im_node_keys (es_ids es') key = Some j \<longleftrightarrow>
      (if j = i then key = cfg_key (p_config peer') else \<exists>q. ep_peers ep j = Some q \<and> cfg_key (p_config q) = key)" for key j
  proof -
    have "im_node_keys (es_ids es') key = Some j \<longleftrightarrow>
        (\<exists>q. ep_peers ep j = Some q \<and> cfg_key (p_config q) = key)"
      using step by (simp only: ids_step_def ep_invD(3) [OF inv])
    then show ?thesis using assms(2) cfg by (cases "j = i") auto
  qed
qed

lemma safe_send_each:
  "ep_inv ep \<Longrightarrow> safe (send_each C now st packets (ep, ret)) (\<lambda>(ep', _). ep_inv ep')"
proof (induction packets arbitrary: ep ret)
  case (Cons x rest)
  obtain i ps where x: "x = (i, ps)" by (cases x)
  show ?case
  proof (cases "ep_peers ep i")
    case (Some peer)
    show ?thesis
      by (auto simp: x Some intro!: safe_bind [OF safe_Peer_send [OF ep_invD(1) [OF Cons.prems Some]]]
          Cons.IH ep_inv_put [OF Cons.prems Some])
  qed (use Cons in \<open>simp add: x\<close>)
qed simp

lemma safe_process_one_handshake:
  assumes "ep_inv ep"
  shows "safe (process_one_handshake C now packet (ep, out)) (\<lambda>(ep', _). ep_inv ep')"
proof -
  have "safe (bind_res (respond_to_handshake C now h (peer, ep_state ep, out))
           (\<lambda>(peer', es, out'). Inr (put_peer i peer' es ep, out'))) (\<lambda>(ep', _). ep_inv ep')"
    if "ep_peers ep i = Some peer" for h i peer
    by (auto intro!: safe_bind [OF safe_respond_to_handshake [OF ep_invD(1) [OF assms that]]] ep_inv_put [OF assms that])
  with assms show ?thesis
    by (auto simp: process_one_handshake_def split: option.splits Message.splits)
qed

lemma safe_process_handshakes:
  "ep_inv ep \<Longrightarrow> safe (process_handshakes C now packets (ep, out)) (\<lambda>(ep', _). ep_inv ep')"
proof (induction packets arbitrary: ep out)
  case (Cons p ps)
  show ?case
    by (auto intro!: safe_bind [OF safe_process_one_handshake [OF Cons.prems]] Cons.IH)
qed simp

lemma safe_recv_groups:
  "ep_inv ep \<Longrightarrow> safe (recv_groups C now order groups (ep, out)) (\<lambda>(ep', _). ep_inv ep')"
proof (induction order arbitrary: ep out)
  case (Cons sid order)
  have "safe (bind_res (Peer_recv C now sid ps (peer, ep_state ep, out)) (\<lambda>(peer', es, out').
          recv_groups C now order groups (put_peer i peer' es ep, out'))) (\<lambda>(ep', _). ep_inv ep')"
    if "ep_peers ep i = Some peer" for ps i peer
    by (auto intro!: safe_bind [OF safe_Peer_recv [OF ep_invD(1) [OF Cons.prems that]]]
        Cons.IH ep_inv_put [OF Cons.prems that])
  with Cons show ?case by (auto split: option.splits)
qed simp

lemma safe_dispatch_each:
  "ep_inv ep \<Longrightarrow> safe (dispatch_each C wall st evs (ep, out)) (\<lambda>(ep', _). ep_inv ep')"
proof (induction evs arbitrary: ep out)
  case (Cons ev evs)
  show ?case
  proof (cases ev)
    case (HandshakeTimeout i)
    then show ?thesis
    proof (cases "ep_peers ep i")
      case (Some peer)
      show ?thesis
        by (auto simp: HandshakeTimeout Some intro!: safe_bind [OF safe_handshake_timeout [OF ep_invD(1) [OF Cons.prems Some]]]
            Cons.IH ep_inv_put [OF Cons.prems Some])
    qed (use Cons in simp)
  next
    case (MaybeSendKeepalive i)
    then show ?thesis
    proof (cases "ep_peers ep i")
      case (Some peer)
      show ?thesis
        by (auto simp: MaybeSendKeepalive Some intro!: safe_bind [OF safe_send_keepalive [OF ep_invD(1) [OF Cons.prems Some]]]
            Cons.IH ep_inv_put [OF Cons.prems Some])
    qed (use Cons in simp)
  qed
qed simp

text \<open>The operations of the endpoint, and the states they reach.\<close>

datatype ep_op =
    OpUpsert PeerId PeerConfig
  | OpRemove PeerId
  | OpSend instant systime "(PeerId \<times> bytes list) list"
  | OpRecv instant "SessionId list" "bytes list"
  | OpDispatch instant systime instant

fun ep_step :: "crypto \<Rightarrow> ep_op \<Rightarrow> Endpoint \<Rightarrow> wg_fault + Endpoint" where
  "ep_step C (OpUpsert i cfg) ep = bind_res (upsert_peer C i cfg ep) (\<lambda>(_, ep'). Inr ep')"
| "ep_step C (OpRemove i) ep = bind_res (remove_peer i ep) (\<lambda>(_, ep'). Inr ep')"
| "ep_step C (OpSend now st packets) ep = bind_res (Endpoint_send C now st packets ep) (\<lambda>(_, ep'). Inr ep')"
| "ep_step C (OpRecv now order packets) ep = bind_res (Endpoint_recv C now order packets ep) (\<lambda>(_, ep'). Inr ep')"
| "ep_step C (OpDispatch wall st now) ep = bind_res (dispatch_events C wall st now ep) (\<lambda>(_, ep'). Inr ep')"

text \<open>The documented precondition of \<open>upsert_peer\<close>: no other peer has the key.\<close>

fun op_allowed :: "ep_op \<Rightarrow> Endpoint \<Rightarrow> bool" where
  "op_allowed (OpUpsert i cfg) ep = (case peer_id (cfg_key cfg) ep of None \<Rightarrow> True | Some j \<Rightarrow> j = i)"
| "op_allowed _ ep = True"

inductive ep_reachable :: "crypto \<Rightarrow> Endpoint \<Rightarrow> bool" for C where
  reach_new: "ep_reachable C (Endpoint_new C rng k)"
| reach_step: "ep_reachable C ep \<Longrightarrow> op_allowed op ep \<Longrightarrow> ep_step C op ep = Inr ep' \<Longrightarrow> ep_reachable C ep'"

lemma ep_inv_new: "ep_inv (Endpoint_new C rng k)"
  by (simp add: ep_inv_def Endpoint_new_def sched_inv_default IdMap_default_def)

lemma pinv_Peer_new: "sched_inv (es_scheduler es) \<Longrightarrow> pinv i cfg (es_ids es) (Peer_new C i cfg) es"
  by (simp add: pinv_def Peer_new_def own_def)

text \<open>A change of the node keys alone keeps every peer's part of the invariant.\<close>

lemma pinv_node_keys:
  assumes "pinv j cfg ids peer es" and "im_sessions ids' = im_sessions (es_ids es)"
  shows "pinv j cfg ids' peer (es\<lparr>es_ids := ids'\<rparr>)"
  using assms by (simp add: pinv_def own_def ids_step_def)

lemma safe_upsert_insert:
  assumes inv: "ep_inv ep" and free: "op_allowed (OpUpsert i cfg) ep" and None: "ep_peers ep i = None"
  shows "safe (upsert_peer C i cfg ep) (\<lambda>(_, ep'). ep_inv ep')"
proof -
  let ?ids = "es_ids (ep_state ep)"
  let ?ids' = "?ids\<lparr>im_node_keys := (im_node_keys ?ids)(cfg_key cfg \<mapsto> i)\<rparr>"
  let ?es = "(ep_state ep)\<lparr>es_ids := ?ids'\<rparr>"
  have new: "im_node_keys ?ids (cfg_key cfg) = None"
    using free None ep_invD(3) [OF inv, of "cfg_key cfg" i]
    by (auto simp: peer_id_def get_by_nodekey_def split: option.splits)
  have "ep_inv (put_peer i (Peer_new C i cfg) ?es ep)"
  proof (rule ep_inv_putI)
    show "pinv i (p_config (Peer_new C i cfg)) (es_ids ?es) (Peer_new C i cfg) ?es"
      using pinv_Peer_new [of ?es i cfg C] ep_invD(2) [OF inv] by (simp add: Peer_new_def)
    show "pinv j (p_config q) (es_ids ?es) q ?es" if "ep_peers ep j = Some q" "j \<noteq> i" for j q
      using pinv_node_keys [OF ep_invD(1) [OF inv that(1)], of ?ids'] by simp
    show "im_node_keys (es_ids ?es) key = Some j \<longleftrightarrow>
      (if j = i then key = cfg_key (p_config (Peer_new C i cfg)) else \<exists>q. ep_peers ep j = Some q \<and> cfg_key (p_config q) = key)" for key j
      using new None ep_invD(3) [OF inv, of key j] by (auto simp: Peer_new_def)
  qed
  then show ?thesis by (simp add: upsert_peer_def None add_peer_def new Let_def)
qed

lemma safe_upsert_update:
  assumes inv: "ep_inv ep" and free: "op_allowed (OpUpsert i cfg) ep" and Some: "ep_peers ep i = Some peer"
  shows "safe (upsert_peer C i cfg ep) (\<lambda>(_, ep'). ep_inv ep')"
proof -
  let ?ids = "es_ids (ep_state ep)" and ?old = "cfg_key (p_config peer)" and ?new = "cfg_key cfg"
  let ?keys = "(im_node_keys ?ids)(?old := None, ?new \<mapsto> i)"
  let ?es = "(ep_state ep)\<lparr>es_ids := ?ids\<lparr>im_node_keys := ?keys\<rparr>\<rparr>"
  note old = ep_inv_keyD [OF inv Some]
  have new: "im_node_keys ?ids ?new = None \<or> im_node_keys ?ids ?new = Some i"
    using free by (auto simp: peer_id_def get_by_nodekey_def split: option.splits)
  have same: "im_node_keys ?ids ?new = Some i \<longleftrightarrow> ?new = ?old"
    using ep_invD(3) [OF inv, of ?new i] Some by auto
  have "ep_inv (put_peer i (peer\<lparr>p_config := cfg\<rparr>) ?es ep)"
  proof (rule ep_inv_putI)
    show "pinv i (p_config (peer\<lparr>p_config := cfg\<rparr>)) (es_ids ?es) (peer\<lparr>p_config := cfg\<rparr>) ?es"
      using pinv_node_keys [OF ep_invD(1) [OF inv Some], of "es_ids ?es"] by (simp add: pinv_def)
    show "pinv j (p_config q) (es_ids ?es) q ?es" if "ep_peers ep j = Some q" "j \<noteq> i" for j q
      using pinv_node_keys [OF ep_invD(1) [OF inv that(1)], of "es_ids ?es"] by simp
    show "im_node_keys (es_ids ?es) key = Some j \<longleftrightarrow>
      (if j = i then key = cfg_key (p_config (peer\<lparr>p_config := cfg\<rparr>)) else \<exists>q. ep_peers ep j = Some q \<and> cfg_key (p_config q) = key)" for key j
    proof (cases "j = i")
      case True
      then show ?thesis using ep_invD(3) [OF inv, of key i] Some by auto
    next
      case False
      then show ?thesis
        unfolding if_not_P [OF False] ep_invD(3) [OF inv, of key j, symmetric] using new old by auto
    qed
  qed
  moreover have "upsert_peer C i cfg ep = Inr (Some (p_config peer), put_peer i (peer\<lparr>p_config := cfg\<rparr>) ?es ep)"
  proof (cases "?old = ?new")
    case True
    then have "?keys = im_node_keys ?ids" using old by (simp add: fun_upd_idem)
    then show ?thesis by (simp add: upsert_peer_def Some Let_def True)
  next
    case False
    then show ?thesis
      using old new same by (simp add: upsert_peer_def Some Let_def IdMap_remove_peer_def add_peer_def)
  qed
  ultimately show ?thesis by simp
qed

lemma safe_remove_peer:
  assumes inv: "ep_inv ep"
  shows "safe (remove_peer i ep) (\<lambda>(_, ep'). ep_inv ep')"
proof (cases "ep_peers ep i")
  case (Some peer)
  show ?thesis
    unfolding remove_peer_def Some option.case
  proof (rule safe_bind [OF safe_shutdown [OF ep_invD(1) [OF inv Some]]], goal_cases)
    case (1 x)
    obtain peer' es where x: "x = (peer', es)" by (cases x)
    with 1 have cfg: "p_config peer' = p_config peer" and sched: "sched_inv (es_scheduler es)"
      and step: "ids_step i (es_ids (ep_state ep)) (es_ids es)" by simp_all
    let ?key = "cfg_key (p_config peer)"
    have keys: "im_node_keys (es_ids es) = im_node_keys (es_ids (ep_state ep))" using step by (simp add: ids_step_def)
    let ?ids = "(es_ids es)\<lparr>im_node_keys := (im_node_keys (es_ids es))(?key := None)\<rparr>"
    have "ep_inv \<lparr>ep_state = es\<lparr>es_ids := ?ids\<rparr>, ep_peers = (ep_peers ep)(i := None)\<rparr>"
      unfolding ep_inv_def
    proof (intro conjI allI impI, goal_cases)
      case (2 j q)
      then have q: "ep_peers ep j = Some q" "j \<noteq> i" by (auto split: if_splits)
      from pinv_node_keys [OF pinv_other [OF ep_invD(1) [OF inv q(1)] step q(2) sched], of ?ids] show ?case by simp
    next
      case (3 key j)
      have "im_node_keys ?ids key = Some j \<longleftrightarrow> key \<noteq> ?key \<and> (\<exists>q. ep_peers ep j = Some q \<and> cfg_key (p_config q) = key)"
        using ep_invD(3) [OF inv, of key j] by (simp add: keys)
      moreover have "j = i \<longleftrightarrow> key = ?key" if "ep_peers ep j = Some q" "cfg_key (p_config q) = key" for q
        using ep_inv_keyD [OF inv that(1)] ep_inv_keyD [OF inv Some] that Some by auto
      ultimately show ?case by (cases "j = i") (auto simp: Some)
    qed (simp add: sched)
    then show ?case
      using ep_inv_keyD [OF inv Some] by (simp add: x cfg IdMap_remove_peer_def keys)
  qed
qed (use inv in \<open>simp add: remove_peer_def\<close>)

lemma safe_ep_step:
  assumes "ep_inv ep" and "op_allowed op ep"
  shows "safe (ep_step C op ep) ep_inv"
proof (cases op)
  case (OpUpsert i cfg)
  have "safe (upsert_peer C i cfg ep) (\<lambda>(_, ep'). ep_inv ep')"
    using safe_upsert_insert [OF assms(1)] safe_upsert_update [OF assms(1)] assms(2)
    by (cases "ep_peers ep i") (simp_all add: OpUpsert)
  then show ?thesis by (auto simp: OpUpsert intro: safe_bind)
next
  case (OpRemove i)
  show ?thesis by (auto simp: OpRemove intro!: safe_bind [OF safe_remove_peer [OF assms(1)]])
next
  case (OpSend now st packets)
  show ?thesis
    by (auto simp: OpSend Endpoint_send_def intro!: safe_bind [where Q = "\<lambda>(_, ep'). ep_inv ep'"]
        safe_bind [OF safe_send_each [OF assms(1)]])
next
  case (OpRecv now order packets)
  show ?thesis
    by (auto simp: OpRecv Endpoint_recv_def Let_def intro!: safe_bind [where Q = "\<lambda>(_, ep'). ep_inv ep'"]
        safe_bind [OF safe_process_handshakes [OF assms(1)]] safe_bind [OF safe_recv_groups])
next
  case (OpDispatch wall st now)
  obtain due sched where d: "Scheduler_dispatch now (es_scheduler (ep_state ep)) = (due, sched)" by fastforce
  have "sched_inv sched" using sched_inv_dispatch [OF ep_invD(2) [OF assms(1)], of now] by (simp add: d)
  then have "ep_inv (ep\<lparr>ep_state := (ep_state ep)\<lparr>es_scheduler := sched\<rparr>\<rparr>)"
    using assms(1) by (simp add: ep_inv_def pinv_def)
  note each = safe_dispatch_each [OF this]
  show ?thesis
    by (auto simp: OpDispatch dispatch_events_def d Let_def intro!: safe_bind [where Q = "\<lambda>(_, ep'). ep_inv ep'"]
        safe_bind [OF each])
qed

lemma ep_reachable_inv: "ep_reachable C ep \<Longrightarrow> ep_inv ep"
proof (induction rule: ep_reachable.induct)
  case (reach_new rng k)
  show ?case by (rule ep_inv_new)
next
  case (reach_step ep op ep')
  from safe_ep_step [OF reach_step.IH reach_step.hyps(2), of C] reach_step.hyps(3) show ?case by simp
qed

text \<open>A handshake starts whenever the first draw of a session id is vacant.\<close>

definition started_state :: "systime \<Rightarrow> PeerId \<Rightarrow> SessionId \<Rightarrow> SessionId list \<Rightarrow> Event Scheduler \<Rightarrow> EndpointState \<Rightarrow> EndpointState" where
  "started_state st i d ds sched es =
     es\<lparr>es_ids := (es_ids es)\<lparr>im_sessions := (im_sessions (es_ids es))(d \<mapsto> i)\<rparr>,
        es_timestamps := snd (clock_now st (es_timestamps es)), es_scheduler := sched,
        es_entropy := (es_entropy es)\<lparr>en_ids := ds, en_next := en_next (es_entropy es) + 1\<rparr>\<rparr>"

lemma start_handshake_starts:
  assumes "en_ids (es_entropy es) = d # ds" and "im_sessions (es_ids es) d = None"
    and h: "initiate_handshake C (es_my_key es) (cfg_key (p_config peer)) d (fst (clock_now st (es_timestamps es)))
      (en_keys (es_entropy es) (en_next (es_entropy es))) = (hs, pkt)"
    and w: "write_macs C now (p_cookie_sender peer) (HandshakeInitiation_bytes pkt) = Inr (mac, raw)"
  obtains t sched where "start_handshake C now st peer es out =
    Inr (peer\<lparr>p_handshake := Initiated hs t mac\<rparr>, started_state st (p_id peer) d ds sched es,
         queue_to_peer (p_id peer) [raw] out)"
proof -
  obtain tr where "new_around (now + int HANDSHAKE_TIMEOUT) (duration_from_millis 500) = Some tr"
    using new_around_ok by blast
  moreover obtain t sched where "Scheduler_add tr (HandshakeTimeout (p_id peer)) (es_scheduler es) = (t, sched)"
    by fastforce
  moreover obtain ts clk where "clock_now st (es_timestamps es) = (ts, clk)" by fastforce
  ultimately show thesis
    using that [of t sched] assms
    by (simp add: start_handshake_def draw_session_def draw_key_def Let_def schedule_around_def started_state_def)
qed

section \<open>Properties\<close>

text \<open>
  C1. From a fresh endpoint on, whatever packets arrive, in whatever order the hash maps are
  iterated and whatever the clocks read, no operation panics: every \<open>unwrap\<close> on the id map, every
  assertion of the scheduler, the packet buffers and the replay window holds.  What remains is the
  deliberate panic after \<open>2^64\<close> packets of one session, and the model's exhausted supply of random
  session ids.  Peer updates respect the documented condition that no other peer has the new key.
\<close>

theorem endpoint_never_panics:
  assumes "ep_reachable C ep" and "op_allowed op ep"
  shows "case ep_step C op ep of
      Inl e \<Rightarrow> e = SessionIdsStarved \<or> e = NonceExhausted
    | Inr ep' \<Rightarrow> ep_reachable C ep'"
proof -
  from safe_ep_step [OF ep_reachable_inv [OF assms(1)] assms(2), of C] reach_step [OF assms]
  show ?thesis by (auto simp: safe_def tolerated_def split: sum.splits)
qed

theorem endpoint_never_panics_witness:
  "case ep_step sample_crypto (OpUpsert 1 \<lparr>cfg_key = [1], cfg_psk = [2]\<rparr>)
        (Endpoint_new sample_crypto \<lparr>en_ids = [5], en_keys = (\<lambda>_. []), en_next = 0\<rparr> (keypair sample_crypto [3])) of
      Inl e \<Rightarrow> e = SessionIdsStarved \<or> e = NonceExhausted
    | Inr ep' \<Rightarrow> ep_reachable sample_crypto ep'"
  by (rule endpoint_never_panics [OF reach_new])
    (simp add: peer_id_def get_by_nodekey_def Endpoint_new_def IdMap_default_def)

text \<open>
  C24. In every reachable state the session ids that peers hold for their current session, their
  previous session and their handshake are pairwise different, over all peers, and each is
  registered to the peer holding it, so that a packet for it is routed to that peer.
\<close>

theorem live_sessions_are_routed:
  assumes "ep_reachable C ep" and "ep_peers ep i = Some peer" and "ep_peers ep j = Some other"
  defines "ids_of \<equiv> \<lambda>p. session_ids (p_session p) @ handshake_ids (p_handshake p)"
  shows "distinct (ids_of peer) \<and>
    (\<forall>sid \<in> set (ids_of peer). get_by_session_id (es_ids (ep_state ep)) sid = Some i) \<and>
    (i \<noteq> j \<longrightarrow> set (ids_of peer) \<inter> set (ids_of other) = {})"
proof -
  have own: "own (es_ids (ep_state ep)) k (ids_of q)" if "ep_peers ep k = Some q" for k q
    using pinv_own(1) [OF ep_invD(1) [OF ep_reachable_inv [OF assms(1)] that]] by (simp add: ids_of_def)
  from own [OF assms(2)] own [OF assms(3)] show ?thesis
    by (auto simp: own_def get_by_session_id_def)
qed

text \<open>A state for the witnesses: one peer with an initiated handshake.\<close>

definition sample_endpoint :: Endpoint where
  "sample_endpoint =
     projr (bind_res (upsert_peer sample_crypto 1 \<lparr>cfg_key = [1], cfg_psk = [2]\<rparr>
        (Endpoint_new sample_crypto \<lparr>en_ids = [5, 6], en_keys = (\<lambda>n. [of_nat n]), en_next = 0\<rparr> (keypair sample_crypto [3])))
        (\<lambda>(_, ep). Inr ep :: wg_fault + Endpoint))"

lemma sample_endpoint_eq:
  "upsert_peer sample_crypto 1 \<lparr>cfg_key = [1], cfg_psk = [2]\<rparr>
     (Endpoint_new sample_crypto \<lparr>en_ids = [5, 6], en_keys = (\<lambda>n. [of_nat n]), en_next = 0\<rparr> (keypair sample_crypto [3])) =
   Inr (None, sample_endpoint)"
  by (simp add: sample_endpoint_def upsert_peer_def Endpoint_new_def add_peer_def IdMap_default_def Let_def)

lemma sample_endpoint_reachable: "ep_reachable sample_crypto sample_endpoint"
proof (rule reach_step [OF reach_new])
  let ?new = "Endpoint_new sample_crypto \<lparr>en_ids = [5, 6], en_keys = (\<lambda>n. [of_nat n]), en_next = 0\<rparr> (keypair sample_crypto [3])"
  show "op_allowed (OpUpsert 1 \<lparr>cfg_key = [1], cfg_psk = [2]\<rparr>) ?new"
    by (simp add: peer_id_def get_by_nodekey_def Endpoint_new_def IdMap_default_def)
  show "ep_step sample_crypto (OpUpsert 1 \<lparr>cfg_key = [1], cfg_psk = [2]\<rparr>) ?new = Inr sample_endpoint"
    by (simp add: sample_endpoint_eq)
qed

lemma sample_endpoint_peer:
  "ep_peers sample_endpoint 1 = Some (Peer_new sample_crypto 1 \<lparr>cfg_key = [1], cfg_psk = [2]\<rparr>)"
  by (simp add: sample_endpoint_def upsert_peer_def Endpoint_new_def add_peer_def IdMap_default_def Let_def put_peer_def)

theorem live_sessions_are_routed_witness:
  "\<exists>ep peer. ep_step sample_crypto (OpSend 0 0 [(1, [[7]])]) sample_endpoint = Inr ep \<and> ep_peers ep 1 = Some peer \<and>
     handshake_ids (p_handshake peer) = [5] \<and> get_by_session_id (es_ids (ep_state ep)) 5 = Some 1"
proof -
  let ?es = "ep_state sample_endpoint" and ?peer = "Peer_new sample_crypto 1 \<lparr>cfg_key = [1], cfg_psk = [2]\<rparr>"
  have es: "en_ids (es_entropy ?es) = [5, 6]" "im_sessions (es_ids ?es) 5 = None"
    by (simp_all add: sample_endpoint_def upsert_peer_def Endpoint_new_def add_peer_def IdMap_default_def Let_def put_peer_def)
  let ?peer1 = "?peer\<lparr>p_session := SsNone (Queue_append [] [[7]])\<rparr>"
  obtain hs pkt where h: "initiate_handshake sample_crypto (es_my_key ?es) (cfg_key (p_config ?peer1)) 5
      (fst (clock_now 0 (es_timestamps ?es))) (en_keys (es_entropy ?es) (en_next (es_entropy ?es))) = (hs, pkt)" by fastforce
  note pkt = initiate_handshake_shape [OF h]
  have "32 \<le> length (HandshakeInitiation_bytes pkt)"
    by (simp add: pkt(2) HandshakeInitiation_bytes_def HandshakeInitiation_default_def)
  from write_macs_total [OF this] obtain mac raw where
    w: "write_macs sample_crypto 0 (p_cookie_sender ?peer1) (HandshakeInitiation_bytes pkt) = Inr (mac, raw)" by blast
  from start_handshake_starts [OF es h w, of "sr_to_peers SendResult_default"] obtain t sched where
    start: "start_handshake sample_crypto 0 0 ?peer1 ?es (sr_to_peers SendResult_default) =
      Inr (?peer1\<lparr>p_handshake := Initiated hs t mac\<rparr>, started_state 0 (p_id ?peer1) 5 [6] sched ?es,
           queue_to_peer (p_id ?peer1) [raw] (sr_to_peers SendResult_default))" .
  let ?peer2 = "?peer1\<lparr>p_handshake := Initiated hs t mac\<rparr>"
  let ?ep = "put_peer 1 ?peer2 (started_state 0 (p_id ?peer1) 5 [6] sched ?es) sample_endpoint"
  have s: "ep_step sample_crypto (OpSend 0 0 [(1, [[7]])]) sample_endpoint = Inr ?ep"
    using start by (simp add: Endpoint_send_def sample_endpoint_peer Peer_send_def Peer_new_def is_active_def Let_def)
  have p: "ep_peers ?ep 1 = Some ?peer2" by (simp add: put_peer_def)
  have "ep_reachable sample_crypto ?ep"
    by (rule reach_step [OF sample_endpoint_reachable _ s]) simp
  from live_sessions_are_routed [OF this p p] s p pkt(1) show ?thesis by (intro exI [of _ ?ep] exI [of _ ?peer2]) simp
qed

text \<open>
  C29. The queue of packets waiting for a session is bounded and drops the oldest: appending to it
  gives the last 32 packets of the concatenation.
\<close>

theorem queue_keeps_newest:
  assumes "length q \<le> MAX_QUEUED_PER_PEER"
  shows "Queue_append q ps = drop (length (q @ ps) - MAX_QUEUED_PER_PEER) (q @ ps) \<and>
    length (Queue_append q ps) = min MAX_QUEUED_PER_PEER (length (q @ ps))"
  using assms by (auto simp: Queue_append_def Let_def min_def)

theorem queue_keeps_newest_witness:
  "length [[1 :: u8], [2]] \<le> MAX_QUEUED_PER_PEER \<and>
   Queue_append [[1], [2]] (replicate 31 [3]) = drop 1 ([[1], [2]] @ replicate 31 [3])"
  using queue_keeps_newest [of "[[1], [2]]" "replicate 31 [3]"] by (simp add: MAX_QUEUED_PER_PEER_def)

end
