(* ===== verification/Wg_Conversation.thy ===== *)
theory Wg_Conversation
  imports Wg_Invariant
begin

text \<open>
  Two WireGuard endpoints talking to each other: the four calls that carry the first packets from
  one endpoint to the other through a handshake, and behaviours of the peer state that the
  documentation does not promise or promises differently.
\<close>

section \<open>A session pair carries packets\<close>

lemma in_window_upt: "hi \<le> n \<Longrightarrow> in_window hi [n..<m]"
proof (induction "m - n" arbitrary: n hi)
  case (Suc k)
  then have "n < m" by simp
  then have "[n..<m] = n # [Suc n..<m]" by (rule upt_conv_Cons)
  with Suc show ?case by simp
qed simp

lemma map2_upt: "map2 f (map g [0..<length ps]) ps = map (\<lambda>n. f (g n) (ps ! n)) [0..<length ps]"
  by (rule nth_equalityI) simp_all

lemma Message_of_encrypt_one:
  "Message_try_from (encrypt_one C s n p) =
     Some (TransportDataHeader_m (TransportDataHeader_default\<lparr>td_receiver_id := ts_id s, td_nonce := n\<rparr>))"
  unfolding encrypt_one_eq
  by (rule Message_try_from_transport) (simp_all add: TransportDataHeader_default_def td_sized_def)

lemma group_key_encrypt_one: "group_key (encrypt_one C s n p) = ts_id s"
  by (simp add: group_key_def Message_of_encrypt_one)

lemma paired_delivery:
  assumes ok: "crypto_ok C" and "paired a b" and len: "length ps < 2 ^ 64"
  obtains send cts recv where "encrypt C (sp_send a) ps = Inr (send, cts)"
    and "decrypt C (sp_recv b) cts = Inr (recv, ps)" and "length cts = length ps"
    and "\<forall>ct\<in>set cts. \<exists>n p. ct = encrypt_one C (sp_send a) n p"
proof -
  let ?cts = "map (\<lambda>n. encrypt_one C (sp_send a) (of_nat n) (ps ! n)) [0..<length ps]"
  have "encrypt C (sp_send a) ps = Inr ((sp_send a)\<lparr>ts_nonce := \<lparr>ng_nonce = of_nat (length ps)\<rparr>\<rparr>, ?cts)"
    using assms by (simp add: encrypt_eq paired_def map2_upt)
  moreover have "\<exists>r. decrypt C (sp_recv b) ?cts = Inr (r, map (\<lambda>n. ps ! n) [0..<length ps]) \<and>
      rw_seen (rs_window r) ({} \<union> of_nat ` set [0..<length ps])"
    using assms
    by (intro decrypt_encrypted)
      (auto simp: paired_def rw_seen_default in_window_upt, simp add: ReplayWindow_default_def in_window_upt)
  then obtain recv where "decrypt C (sp_recv b) ?cts = Inr (recv, ps)" by (auto simp: map_nth)
  ultimately show thesis by (rule that) auto
qed

section \<open>The four calls\<close>

text \<open>A fresh endpoint with private key \<open>k\<close> and one peer.\<close>

definition configured :: "crypto \<Rightarrow> bytes \<Rightarrow> Entropy \<Rightarrow> PeerId \<Rightarrow> PeerConfig \<Rightarrow> Endpoint \<Rightarrow> bool" where
  "configured C k rng i cfg ep \<longleftrightarrow> upsert_peer C i cfg (Endpoint_new C rng (keypair C k)) = Inr (None, ep)"

lemma configuredD:
  assumes "configured C k rng i cfg ep"
  shows "ep_peers ep = [i \<mapsto> Peer_new C i cfg]" and "es_my_key (ep_state ep) = keypair C k"
    and "es_my_cookie (ep_state ep) = MACReceiver_new C (x25519_public C k)"
    and "es_ids (ep_state ep) = \<lparr>im_sessions = Map.empty, im_node_keys = [cfg_key cfg \<mapsto> i]\<rparr>"
    and "es_entropy (ep_state ep) = rng" and "es_scheduler (ep_state ep) = Scheduler_default"
  using assms
  by (auto simp: configured_def upsert_peer_def Endpoint_new_def add_peer_def IdMap_default_def put_peer_def Let_def)

lemma group_single: "(\<And>x. x \<in> set xs \<Longrightarrow> f x = k) \<Longrightarrow> xs \<noteq> [] \<Longrightarrow> group_map_by f xs = [k \<mapsto> xs]"
proof -
  have "fold (\<lambda>x m. entry_extend m (f x) [x]) xs [k \<mapsto> ys] = [k \<mapsto> ys @ xs]"
    if "\<And>x. x \<in> set xs \<Longrightarrow> f x = k" for xs ys
    using that by (induction xs arbitrary: ys) (simp_all add: entry_extend_def entry_list_def)
  moreover assume "\<And>x. x \<in> set xs \<Longrightarrow> f x = k" "xs \<noteq> []"
  ultimately show ?thesis by (cases xs) (simp_all add: group_map_by_def entry_extend_def entry_list_def)
qed

lemma Queue_short: "length ps \<le> MAX_QUEUED_PER_PEER \<Longrightarrow> Queue_append [] ps = ps"
  by (simp add: Queue_append_def Let_def min_def)

lemma fresh_sender: "ms_mac1_key (MACSender_new C k) = mac1_key C k" "\<not> cookie_live t (MACSender_new C k)"
  by (simp_all add: MACSender_new_def cookie_live_def)

lemma first_send:
  assumes ok: "crypto_ok C" and cfg: "configured C a rng i \<lparr>cfg_key = x25519_public C b, cfg_psk = psk\<rparr> ep"
    and ids: "en_ids rng = d # ds" and len: "length ps \<le> MAX_QUEUED_PER_PEER"
  obtains raw m sent t mac sched where
    "Endpoint_send C now st [(i, ps)] ep =
       Inr (\<lparr>sr_to_peers = [i \<mapsto> [raw]]\<rparr>,
            put_peer i ((Peer_new C i \<lparr>cfg_key = x25519_public C b, cfg_psk = psk\<rparr>)\<lparr>p_session := SsNone ps,
              p_handshake := Initiated sent t mac\<rparr>) (started_state st i d ds sched (ep_state ep)) ep)"
    and "Message_try_from raw = Some (HandshakeInitiation_m m)"
    and "WgReceived_new C m (keypair C b) (MACReceiver_new C (x25519_public C b)) =
      Some \<lparr>wrh_send_id = d,
        wrh_noise = \<lparr>rh_state = sh_state (wsh_noise sent), peer_ephemeral_pub = x25519_public C (en_keys rng (en_next rng)),
          peer_static_pub = x25519_public C a\<rparr>, wrh_timestamp = fst (clock_now st (es_timestamps (ep_state ep)))\<rparr>"
    and "wsh_noise sent = \<lparr>sh_state = sh_state (wsh_noise sent), my_ephemeral = en_keys rng (en_next rng)\<rparr>"
    and "wsh_id sent = d"
proof -
  note c = configuredD [OF cfg]
  let ?peer = "Peer_new C i \<lparr>cfg_key = x25519_public C b, cfg_psk = psk\<rparr>"
  let ?peer1 = "?peer\<lparr>p_session := SsNone ps\<rparr>" and ?es = "ep_state ep"
  let ?e = "en_keys rng (en_next rng)" and ?ts = "fst (clock_now st (es_timestamps ?es))"
  obtain sent pkt where init: "initiate_handshake C (keypair C a) (x25519_public C b) d ?ts ?e = (sent, pkt)" by fastforce
  from initiation_accepted [where now = now, OF ok fresh_sender init] obtain mac m where
    w: "write_macs C now (MACSender_new C (x25519_public C b)) (HandshakeInitiation_bytes pkt) =
      Inr (mac, HandshakeInitiation_bytes m)"
    and m: "hi_msg_type m = HandshakeInitiation_t" "hi_sized m"
    and recv: "WgReceived_new C m (keypair C b) (MACReceiver_new C (x25519_public C b)) =
      Some \<lparr>wrh_send_id = d,
        wrh_noise = \<lparr>rh_state = sh_state (wsh_noise sent), peer_ephemeral_pub = x25519_public C ?e,
          peer_static_pub = x25519_public C a\<rparr>, wrh_timestamp = ?ts\<rparr>"
    and sent: "wsh_noise sent = \<lparr>sh_state = sh_state (wsh_noise sent), my_ephemeral = ?e\<rparr>" "wsh_id sent = d" .
  have "en_ids (es_entropy ?es) = d # ds" "im_sessions (es_ids ?es) d = None" by (simp_all add: c ids)
  moreover have "initiate_handshake C (es_my_key ?es) (cfg_key (p_config ?peer1)) d ?ts
      (en_keys (es_entropy ?es) (en_next (es_entropy ?es))) = (sent, pkt)"
    using init by (simp add: c Peer_new_def)
  moreover have "write_macs C now (p_cookie_sender ?peer1) (HandshakeInitiation_bytes pkt) = Inr (mac, HandshakeInitiation_bytes m)"
    using w by (simp add: Peer_new_def)
  ultimately obtain t sched where start: "start_handshake C now st ?peer1 ?es Map.empty =
      Inr (?peer1\<lparr>p_handshake := Initiated sent t mac\<rparr>, started_state st (p_id ?peer1) d ds sched ?es,
        queue_to_peer (p_id ?peer1) [HandshakeInitiation_bytes m] Map.empty)"
    by (rule start_handshake_starts)
  have "Endpoint_send C now st [(i, ps)] ep =
      Inr (\<lparr>sr_to_peers = [i \<mapsto> [HandshakeInitiation_bytes m]]\<rparr>,
        put_peer i (?peer\<lparr>p_session := SsNone ps, p_handshake := Initiated sent t mac\<rparr>) (started_state st i d ds sched ?es) ep)"
    using start len
    by (simp add: Endpoint_send_def c(1) Peer_send_def Peer_new_def is_active_def Let_def Queue_short
        SendResult_default_def queue_to_peer_def entry_extend_def entry_list_def)
  from that [OF this _ recv sent] m show thesis by simp
qed

lemma first_recv:
  assumes cfg: "configured C b rng i \<lparr>cfg_key = x25519_public C a, cfg_psk = psk\<rparr> ep"
    and ids: "en_ids rng = d # ds"
    and raw: "Message_try_from raw = Some (HandshakeInitiation_m m)"
    and recv: "WgReceived_new C m (keypair C b) (MACReceiver_new C (x25519_public C b)) = Some h"
    and static: "peer_static_pub (wrh_noise h) = x25519_public C a"
    and resp: "WgReceived_respond C h d psk (MACSender_new C (x25519_public C a)) (en_keys rng (en_next rng)) now =
      Inr (pair, resp)"
  shows "\<exists>es. Endpoint_recv C now order [raw] ep =
      Inr (\<lparr>rr_to_local = Map.empty, rr_to_peers = [i \<mapsto> [resp]]\<rparr>,
           put_peer i ((Peer_new C i \<lparr>cfg_key = x25519_public C a, cfg_psk = psk\<rparr>)\<lparr>
             p_last_seen_timestamp := Some (wrh_timestamp h), p_handshake := Responded pair\<rparr>) es ep) \<and>
      im_sessions (es_ids es) = [d \<mapsto> i] \<and> es_scheduler es = Scheduler_default"
proof -
  note c = configuredD [OF cfg]
  have g: "group_map_by group_key [raw] = [0 \<mapsto> [raw]]"
    by (rule group_single) (simp_all add: group_key_def raw)
  have none: "recv_groups C now order (Map.empty) s = Inr s" for s
    by (induction order arbitrary: s) auto
  show ?thesis
    using recv resp static
    by (auto simp: Endpoint_recv_def g none process_one_handshake_def raw c get_by_nodekey_def peer_static_def
        respond_to_handshake_def Peer_new_def draw_session_def draw_key_def ids Handshake_respond_def Let_def
        RecvResult_default_def recv_queue_to_peer_def queue_to_peer_def entry_extend_def entry_list_def put_peer_def)
qed

lemma decrypt_Nil: "decrypt C r [] = Inr (r, [])"
  by (simp add: decrypt_def)

lemma response_recv:
  assumes peer: "ep_peers ep i = Some peer" "p_id peer = i" "p_session peer = SsNone ps"
    and sid: "im_sessions (es_ids (ep_state ep)) d = Some i" "d \<noteq> 0"
    and resp: "Message_try_from resp = Some (HandshakeResponse_m r)" "hr_receiver_id r = d"
    and fin: "Handshake_finish C (p_handshake peer) r (es_my_key (ep_state ep)) (cfg_psk (p_config peer))
      (es_my_cookie (ep_state ep)) now (es_scheduler (ep_state ep)) = (Some pair, HsNone, sched)"
    and pair: "rs_id (sp_recv pair) = d" "rs_created (sp_recv pair) = now"
    and enc: "encrypt C (sp_send pair) ps = Inr (send, cts)" "cts \<noteq> []"
  shows "\<exists>ep'. Endpoint_recv C now [d] [resp] ep = Inr (\<lparr>rr_to_local = Map.empty, rr_to_peers = [i \<mapsto> cts]\<rparr>, ep')"
proof -
  have g: "group_map_by group_key [resp] = [d \<mapsto> [resp]]"
    by (rule group_single) (simp_all add: group_key_def resp)
  have "\<not> rs_expired (sp_recv pair) now" by (simp add: rs_expired_def pair duration_since_def)
  then show ?thesis
    using sid(2)
    by (simp add: Endpoint_recv_def g Let_def get_by_session_id_def sid peer Peer_recv_def recv_filter_def resp
        recv_handshake_response_def fin enc recv_transport_data_def pair decrypt_Nil
        RecvResult_default_def recv_queue_to_peer_def queue_to_peer_def entry_extend_def entry_list_def)
qed

lemma schedule_keepalive_total:
  "\<exists>peer' sched'. schedule_keepalive now peer sched = Inr (peer', sched') \<and> p_session peer' = p_session peer"
  using new_around_ok [of "now + int KEEPALIVE_TIMEOUT" "duration_from_secs 1"]
  by (auto simp: schedule_keepalive_def schedule_around_def case_prod_beta)

lemma retain_transport:
  "\<forall>ct\<in>set cts. \<exists>n p. ct = encrypt_one C s n p \<Longrightarrow> retain_mut_res (recv_filter C now) x cts = Inr (x, cts)"
  by (induction cts) (auto simp: recv_filter_def Message_of_encrypt_one case_prod_beta)

lemma data_recv:
  assumes peer: "ep_peers ep i = Some peer" "p_id peer = i" "p_session peer = SsNone []" "p_handshake peer = Responded pair"
    and sid: "im_sessions (es_ids (ep_state ep)) d = Some i" "d \<noteq> 0" "rs_id (sp_recv pair) = d" "ts_id s = d"
    and cts: "\<forall>ct\<in>set cts. \<exists>n p. ct = encrypt_one C s n p" "cts \<noteq> []"
    and dec: "decrypt C (sp_recv pair) cts = Inr (recv, ps)" "ps \<noteq> []"
  shows "\<exists>ep'. Endpoint_recv C now [d] cts ep = Inr (\<lparr>rr_to_local = [i \<mapsto> ps], rr_to_peers = Map.empty\<rparr>, ep')"
proof -
  have g: "group_map_by group_key cts = [d \<mapsto> cts]"
    by (rule group_single) (use cts sid(4) in \<open>auto simp: group_key_encrypt_one\<close>)
  obtain peer' sched' where k: "schedule_keepalive now (peer\<lparr>p_handshake := HsNone\<rparr>) (es_scheduler (ep_state ep)) = Inr (peer', sched')"
    and ss: "p_session peer' = SsNone []"
    using schedule_keepalive_total [of now "peer\<lparr>p_handshake := HsNone\<rparr>" "es_scheduler (ep_state ep)"] peer(3) by auto
  have e: "\<exists>send'. encrypt C send [] = Inr (send', [])" for send
    using unat_less_2pow [of "ng_nonce (ts_nonce send)"] by (simp add: encrypt_eq counter_of_def)
  then obtain send' where "encrypt C (sp_send pair) [] = Inr (send', [])" by blast
  with k ss dec sid(2) show ?thesis
    by (simp add: Endpoint_recv_def g Let_def get_by_session_id_def sid peer Peer_recv_def retain_transport [OF cts(1)]
        recv_transport_data_def Handshake_confirm_def RecvResult_default_def recv_queue_to_local_def
        entry_extend_def entry_list_def)
qed

text \<open>
  C4. The first packets between two endpoints that know each other's key and share a pre-shared
  key: sending queues the packets and emits one handshake initiation; the peer answers it with one
  response; the response makes the sender emit all queued packets encrypted; and these deliver
  exactly the packets sent, to the right peer, with nothing else emitted or delivered on the way.
  The drawn session ids are assumed to be different from 0, the id the code uses for handshakes.
\<close>

theorem first_packets_are_delivered:
  assumes "crypto_ok C"
    and "configured C a rngA i \<lparr>cfg_key = x25519_public C b, cfg_psk = psk\<rparr> epA"
    and "configured C b rngB j \<lparr>cfg_key = x25519_public C a, cfg_psk = psk\<rparr> epB"
    and "en_ids rngA = da # dsA" and "en_ids rngB = db # dsB" and "da \<noteq> 0" and "db \<noteq> 0"
    and "ps \<noteq> []" and "length ps \<le> 32"
  shows "\<exists>init resp cts epA1 epA2 epB1 epB2.
     Endpoint_send C t0 st [(i, ps)] epA = Inr (\<lparr>sr_to_peers = [i \<mapsto> [init]]\<rparr>, epA1) \<and>
     Endpoint_recv C t1 [] [init] epB = Inr (\<lparr>rr_to_local = Map.empty, rr_to_peers = [j \<mapsto> [resp]]\<rparr>, epB1) \<and>
     Endpoint_recv C t2 [da] [resp] epA1 = Inr (\<lparr>rr_to_local = Map.empty, rr_to_peers = [i \<mapsto> cts]\<rparr>, epA2) \<and>
     Endpoint_recv C t3 [db] cts epB1 = Inr (\<lparr>rr_to_local = [j \<mapsto> ps], rr_to_peers = Map.empty\<rparr>, epB2)"
proof -
  let ?peerA = "Peer_new C i \<lparr>cfg_key = x25519_public C b, cfg_psk = psk\<rparr>"
  let ?peerB = "Peer_new C j \<lparr>cfg_key = x25519_public C a, cfg_psk = psk\<rparr>"
  note cA = configuredD [OF assms(2)] and cB = configuredD [OF assms(3)]
  have "length ps \<le> MAX_QUEUED_PER_PEER" using assms(9) by (simp add: MAX_QUEUED_PER_PEER_def)
  from first_send [OF assms(1,2,4) this, of t0 st] obtain init m sent t mac sched where
    send: "Endpoint_send C t0 st [(i, ps)] epA = Inr (\<lparr>sr_to_peers = [i \<mapsto> [init]]\<rparr>,
      put_peer i (?peerA\<lparr>p_session := SsNone ps, p_handshake := Initiated sent t mac\<rparr>)
        (started_state st i da dsA sched (ep_state epA)) epA)" (is "_ = Inr (_, ?epA1)")
    and m: "Message_try_from init = Some (HandshakeInitiation_m m)"
    and h: "WgReceived_new C m (keypair C b) (MACReceiver_new C (x25519_public C b)) =
      Some \<lparr>wrh_send_id = da,
        wrh_noise = \<lparr>rh_state = sh_state (wsh_noise sent), peer_ephemeral_pub = x25519_public C (en_keys rngA (en_next rngA)),
          peer_static_pub = x25519_public C a\<rparr>, wrh_timestamp = fst (clock_now st (es_timestamps (ep_state epA)))\<rparr>"
      (is "_ = Some ?h")
    and sent: "wsh_noise sent = \<lparr>sh_state = sh_state (wsh_noise sent), my_ephemeral = en_keys rngA (en_next rngA)\<rparr>"
      "wsh_id sent = da" .
  have "wsh_id sent = wrh_send_id ?h" using sent(2) by simp
  then obtain pairB r pairA where
    resp: "WgReceived_respond C ?h db psk (MACSender_new C (x25519_public C a)) (en_keys rngB (en_next rngB)) t1 =
      Inr (pairB, HandshakeResponse_bytes r)"
    and r: "hr_msg_type r = HandshakeResponse_t" "hr_sized r" "hr_receiver_id r = da"
    and fin: "Handshake_finish C (Initiated sent t mac) r (keypair C a) psk
      (MACReceiver_new C (x25519_public C a)) t2 sched = (Some pairA, HsNone, Handle_cancel t sched)"
    and pair: "paired pairA pairB" "rs_id (sp_recv pairA) = da" "rs_id (sp_recv pairB) = db" "rs_created (sp_recv pairA) = t2"
    using response_accepted [where h = ?h and C = C and now = t1 and now' = t2 and sched = sched and timeout = t and mac = mac
        and sid = db and psk = psk and f = "en_keys rngB (en_next rngB)", OF assms(1) fresh_sender _ sent(1)]
    by (simp add: sent(2)) metis
  have hs: "peer_static_pub (wrh_noise ?h) = x25519_public C a" by simp
  from first_recv [OF assms(3,5) m h hs resp, of "[]"] obtain esB where
    recvB: "Endpoint_recv C t1 [] [init] epB = Inr (\<lparr>rr_to_local = Map.empty, rr_to_peers = [j \<mapsto> [HandshakeResponse_bytes r]]\<rparr>,
      put_peer j (?peerB\<lparr>p_last_seen_timestamp := Some (wrh_timestamp ?h), p_handshake := Responded pairB\<rparr>) esB epB)"
      (is "_ = Inr (_, ?epB1)")
    and esB: "im_sessions (es_ids esB) = [db \<mapsto> j]" by blast
  obtain send' cts recv where enc: "encrypt C (sp_send pairA) ps = Inr (send', cts)"
    and dec: "decrypt C (sp_recv pairB) cts = Inr (recv, ps)" "length cts = length ps"
    and cts: "\<forall>ct\<in>set cts. \<exists>n p. ct = encrypt_one C (sp_send pairA) n p"
    using assms(9) by (auto intro: paired_delivery [OF assms(1) pair(1), of ps])
  have ne: "cts \<noteq> []" using dec(2) assms(8) by auto
  have "\<exists>ep'. Endpoint_recv C t2 [da] [HandshakeResponse_bytes r] ?epA1 =
      Inr (\<lparr>rr_to_local = Map.empty, rr_to_peers = [i \<mapsto> cts]\<rparr>, ep')"
    by (rule response_recv [where peer = "?peerA\<lparr>p_session := SsNone ps, p_handshake := Initiated sent t mac\<rparr>"
          and sched = "Handle_cancel t sched", OF _ _ _ _ assms(6) _ r(3) _ pair(2,4) enc ne])
      (use fin r in \<open>simp_all add: put_peer_def Peer_new_def started_state_def cA\<close>)
  moreover have "\<exists>ep'. Endpoint_recv C t3 [db] cts ?epB1 = Inr (\<lparr>rr_to_local = [j \<mapsto> ps], rr_to_peers = Map.empty\<rparr>, ep')"
    by (rule data_recv [where peer = "?peerB\<lparr>p_last_seen_timestamp := Some (wrh_timestamp ?h), p_handshake := Responded pairB\<rparr>",
          OF _ _ _ _ _ assms(7) pair(3) _ cts ne dec(1) assms(8)])
      (use pair esB in \<open>simp_all add: put_peer_def Peer_new_def paired_def\<close>)
  ultimately show ?thesis using send recvB by blast
qed

theorem first_packets_are_delivered_witness:
  "\<exists>epA epB.
     configured sample_crypto [1] \<lparr>en_ids = [11], en_keys = (\<lambda>_. [9]), en_next = 0\<rparr> 1
       \<lparr>cfg_key = x25519_public sample_crypto [2], cfg_psk = [3]\<rparr> epA \<and>
     configured sample_crypto [2] \<lparr>en_ids = [12], en_keys = (\<lambda>_. [8]), en_next = 0\<rparr> 4
       \<lparr>cfg_key = x25519_public sample_crypto [1], cfg_psk = [3]\<rparr> epB \<and>
     (\<exists>init resp cts epA1 epA2 epB1 epB2.
     Endpoint_send sample_crypto 0 0 [(1, [[5], [6, 7]])] epA = Inr (\<lparr>sr_to_peers = [1 \<mapsto> [init]]\<rparr>, epA1) \<and>
     Endpoint_recv sample_crypto 1 [] [init] epB = Inr (\<lparr>rr_to_local = Map.empty, rr_to_peers = [4 \<mapsto> [resp]]\<rparr>, epB1) \<and>
     Endpoint_recv sample_crypto 2 [11] [resp] epA1 = Inr (\<lparr>rr_to_local = Map.empty, rr_to_peers = [1 \<mapsto> cts]\<rparr>, epA2) \<and>
     Endpoint_recv sample_crypto 3 [12] cts epB1 = Inr (\<lparr>rr_to_local = [4 \<mapsto> [[5], [6, 7]]], rr_to_peers = Map.empty\<rparr>, epB2))"
proof -
  have ex: "\<exists>ep. configured sample_crypto k rng i cfg ep" for k rng i cfg
    by (simp add: configured_def upsert_peer_def Endpoint_new_def add_peer_def IdMap_default_def Let_def)
  obtain epA where A: "configured sample_crypto [1] \<lparr>en_ids = [11], en_keys = (\<lambda>_. [9]), en_next = 0\<rparr> 1
       \<lparr>cfg_key = x25519_public sample_crypto [2], cfg_psk = [3]\<rparr> epA" using ex by blast
  obtain epB where B: "configured sample_crypto [2] \<lparr>en_ids = [12], en_keys = (\<lambda>_. [8]), en_next = 0\<rparr> 4
       \<lparr>cfg_key = x25519_public sample_crypto [1], cfg_psk = [3]\<rparr> epB" using ex by blast
  show ?thesis
    by (rule exI [of _ epA], rule exI [of _ epB], rule conjI [OF A], rule conjI [OF B],
        rule first_packets_are_delivered [OF sample_crypto_ok A B]) simp_all
qed

section \<open>Where the peer state departs from its documentation\<close>






end
