(* ===== verification/Bitset.thy ===== *)
theory Bitset
  imports Prelude
begin

text \<open>
  The fixed-size bitset \<open>Bitset<N_WORDS>\<close> (\<open>ts_bitset/src/lib.rs\<close>, \<open>ts_bitset/src/rank.rs\<close>): a
  list of 64-bit words, of which the length is \<open>N_WORDS\<close>.  Indexing outside the words panics in
  Rust and is \<open>None\<close> here.  Every operation is related to the set of bit positions it stands for.
\<close>

section \<open>Bit counting of the standard library\<close>

definition trailing_zeros :: "'a::len word \<Rightarrow> nat" where
  [rust_std]: "trailing_zeros w = length (takeWhile (\<lambda>i. \<not> bit w i) [0..<LENGTH('a)])"

definition leading_zeros :: "'a::len word \<Rightarrow> nat" where
  [rust_std]: "leading_zeros w = length (takeWhile (\<lambda>i. \<not> bit w i) (rev [0..<LENGTH('a)]))"

definition word_count_ones :: "'a::len word \<Rightarrow> nat" where
  [rust_std]: "word_count_ones w = length (filter (bit w) [0..<LENGTH('a)])"

lemma ex_bit: "w \<noteq> 0 \<Longrightarrow> \<exists>i<LENGTH('a). bit (w :: 'a::len word) i"
  by (metis bit_imp_le_length bit_word_eqI bit_0_eq bot_apply bot_bool_def)

lemma trailing_zeros_props:
  fixes w :: "'a::len word"
  shows "w \<noteq> 0 \<Longrightarrow> trailing_zeros w < LENGTH('a) \<and> bit w (trailing_zeros w)"
    and "i < trailing_zeros w \<Longrightarrow> \<not> bit w i"
    and "trailing_zeros w \<le> LENGTH('a)"
proof -
  let ?t = "takeWhile (\<lambda>i. \<not> bit w i) [0..<LENGTH('a)]"
  show le: "trailing_zeros w \<le> LENGTH('a)"
    using length_takeWhile_le [of "\<lambda>i. \<not> bit w i" "[0..<LENGTH('a)]"] by (simp add: trailing_zeros_def)
  show zero: "\<not> bit w i" if "i < trailing_zeros w" for i
  proof -
    have "?t ! i \<in> set ?t" using that by (simp add: trailing_zeros_def)
    moreover have "?t ! i = i" using that le by (simp add: trailing_zeros_def takeWhile_nth)
    ultimately show ?thesis by (metis set_takeWhileD)
  qed
  show "trailing_zeros w < LENGTH('a) \<and> bit w (trailing_zeros w)" if w: "w \<noteq> 0"
  proof -
    obtain j where j: "j < LENGTH('a)" "bit w j" using ex_bit [OF w] by blast
    then have less: "trailing_zeros w < LENGTH('a)" using zero [of j] le by linarith
    have "length ?t < length [0..<LENGTH('a)]" using less by (simp add: trailing_zeros_def)
    from nth_length_takeWhile [OF this] less show ?thesis by (simp add: trailing_zeros_def)
  qed
qed

lemma trailing_zeros_0 [simp]: "trailing_zeros (0 :: 'a::len word) = LENGTH('a)"
  by (simp add: trailing_zeros_def takeWhile_eq_all_conv [THEN iffD2])

lemma trailing_zeros_eq_length: "trailing_zeros (w :: 'a::len word) = LENGTH('a) \<longleftrightarrow> w = 0"
  using trailing_zeros_props(1) [of w] by fastforce

lemma trailing_zerosI:
  fixes w :: "'a::len word"
  assumes "bit w i" and "\<And>j. j < i \<Longrightarrow> \<not> bit w j"
  shows "trailing_zeros w = i"
proof -
  have "w \<noteq> 0" using assms(1) by auto
  with trailing_zeros_props(1) [of w] trailing_zeros_props(2) [of _ w] assms show ?thesis by (metis linorder_neqE_nat)
qed

text \<open>\<open>len\<close>, the number of bits needed to represent a word.\<close>

definition bit_len :: "'a::len word \<Rightarrow> nat" where
  "bit_len w = LENGTH('a) - leading_zeros w"

lemma bit_len_props:
  fixes w :: "'a::len word"
  assumes "w \<noteq> 0"
  shows "0 < bit_len w" and "bit_len w \<le> LENGTH('a)" and "bit w (bit_len w - 1)" and "\<And>i. bit w i \<Longrightarrow> i \<le> bit_len w - 1"
proof -
  let ?n = "LENGTH('a)" and ?P = "\<lambda>i. \<not> bit w i"
  let ?t = "takeWhile ?P (rev [0..<?n])"
  obtain j where j: "j < ?n" "bit w j" using ex_bit [OF assms] by blast
  have nth: "rev [0..<?n] ! i = ?n - 1 - i" if "i < ?n" for i using that by (simp add: rev_nth)
  have zero: "\<not> bit w (?n - 1 - i)" if "i < length ?t" for i
  proof -
    have "?t ! i \<in> set ?t" using that by simp
    then have "\<not> bit w (?t ! i)" by (metis set_takeWhileD)
    moreover have "length ?t \<le> ?n" using length_takeWhile_le [of ?P "rev [0..<?n]"] by simp
    ultimately show ?thesis using that nth [of i] by (simp add: takeWhile_nth)
  qed
  have less: "length ?t < ?n"
  proof (rule ccontr)
    assume "\<not> length ?t < ?n"
    then have "?n - 1 - j < length ?t" using j(1) by linarith
    from zero [OF this] j show False by simp
  qed
  have "bit w (?n - 1 - length ?t)" using nth_length_takeWhile [of ?P "rev [0..<?n]"] less nth [of "length ?t"] by simp
  moreover have len: "bit_len w = ?n - length ?t" by (simp add: bit_len_def leading_zeros_def)
  ultimately show "0 < bit_len w" "bit_len w \<le> ?n" "bit w (bit_len w - 1)" using less by simp_all
  show "i \<le> bit_len w - 1" if "bit w i" for i
  proof (rule ccontr)
    assume "\<not> i \<le> bit_len w - 1"
    moreover have i: "i < ?n" using that by (rule bit_imp_le_length)
    ultimately have "?n - 1 - i < length ?t" using len by linarith
    from zero [OF this] that i show False by simp
  qed
qed

section \<open>The operations\<close>

type_synonym Bitset = "u64 list"

definition word_idx :: "nat \<Rightarrow> nat" where
  "word_idx i = i div 64"

definition subword_idx :: "nat \<Rightarrow> u64" where
  "subword_idx i = push_bit (i AND 63) 1"

definition bs_EMPTY :: "nat \<Rightarrow> Bitset" where
  "bs_EMPTY n = replicate n 0"

definition bs_FULL :: "nat \<Rightarrow> Bitset" where
  "bs_FULL n = replicate n (-1)"

definition N_BITS :: "Bitset \<Rightarrow> nat" where
  "N_BITS b = length b * 64"

text \<open>\<open>copy_from_slice\<close> panics unless source and destination have the same length.\<close>

definition bs_resize :: "nat \<Rightarrow> bool \<Rightarrow> Bitset \<Rightarrow> Bitset option" where
  "bs_resize m empty_value b =
     (let out = replicate m (if empty_value then -1 else 0 :: u64);
          n = (if length b \<le> m then length b else m);
          to_copy = take n b
      in if length out = length to_copy then Some to_copy else None)"

definition bs_set :: "nat \<Rightarrow> Bitset \<Rightarrow> Bitset option" where
  "bs_set i b =
     (if word_idx i < length b then Some (b[word_idx i := b ! word_idx i OR subword_idx i]) else None)"

definition bs_clear :: "nat \<Rightarrow> Bitset \<Rightarrow> Bitset option" where
  "bs_clear i b =
     (if word_idx i < length b then Some (b[word_idx i := b ! word_idx i AND NOT (subword_idx i)]) else None)"

definition bs_test :: "nat \<Rightarrow> Bitset \<Rightarrow> bool option" where
  "bs_test i b =
     (if word_idx i < length b then Some (b ! word_idx i AND subword_idx i \<noteq> 0) else None)"

fun bs_with_bits :: "nat list \<Rightarrow> Bitset \<Rightarrow> Bitset option" where
  "bs_with_bits [] b = Some b"
| "bs_with_bits (i # is) b = Option.bind (bs_set i b) (bs_with_bits is)"

fun bs_without_bits :: "nat list \<Rightarrow> Bitset \<Rightarrow> Bitset option" where
  "bs_without_bits [] b = Some b"
| "bs_without_bits (i # is) b = Option.bind (bs_clear i b) (bs_without_bits is)"

fun first_set_from :: "nat \<Rightarrow> Bitset \<Rightarrow> nat option" where
  "first_set_from i [] = None"
| "first_set_from i (w # ws) =
     (let zeroes = trailing_zeros w in if zeroes \<noteq> 64 then Some (64 * i + zeroes) else first_set_from (Suc i) ws)"

definition bs_first_set :: "Bitset \<Rightarrow> nat option" where
  "bs_first_set b = first_set_from 0 b"

fun next_word_from :: "nat \<Rightarrow> Bitset \<Rightarrow> nat option" where
  "next_word_from i [] = None"
| "next_word_from i (w # ws) = (if w = 0 then next_word_from (Suc i) ws else Some (i * 64 + trailing_zeros w))"

definition bs_next_set :: "nat \<Rightarrow> Bitset \<Rightarrow> nat option option" where
  "bs_next_set i b =
     (let word = word_idx i
      in if word < length b then
           let first = drop_bit (i AND 63) (b ! word)
           in Some (if first \<noteq> 0 then Some (i + trailing_zeros first)
                    else next_word_from (Suc word) (drop (Suc word) b))
         else None)"

fun last_set_from :: "Bitset \<Rightarrow> nat \<Rightarrow> nat option" where
  "last_set_from b 0 = (if b ! 0 = 0 then None else Some (0 * 64 + (bit_len (b ! 0) - 1)))"
| "last_set_from b (Suc word) =
     (if b ! Suc word = 0 then last_set_from b word else Some (Suc word * 64 + (bit_len (b ! Suc word) - 1)))"

definition bs_last_set :: "Bitset \<Rightarrow> nat option option" where
  "bs_last_set b = (if length b = 0 then None else Some (last_set_from b (length b - 1)))"

text \<open>\<open>bits\<close>: each word yields its lowest set bit and clears it with \<open>word & (word - 1)\<close>.\<close>

function word_bits :: "u64 \<Rightarrow> nat list" where
  "word_bits w = (if trailing_zeros w = 64 then [] else trailing_zeros w # word_bits (w AND (w - 1)))"
  by pat_completeness auto
termination
proof (relation "measure unat")
  fix w :: u64 assume "trailing_zeros w \<noteq> 64"
  then have "w \<noteq> 0" by auto
  then have "1 \<le> w" by (metis linorder_not_less word_less_1)
  then have "unat (w - 1) = unat w - 1" by (simp add: unat_sub)
  moreover have "w AND (w - 1) \<le> w - 1" by (rule word_and_le1)
  moreover have "0 < unat w" using \<open>w \<noteq> 0\<close> by (metis gr0I unsigned_eq_0_iff)
  ultimately show "(w AND (w - 1), w) \<in> measure unat" by (simp add: word_le_nat_alt)
qed simp

declare word_bits.simps [simp del]

definition bs_bits :: "Bitset \<Rightarrow> nat list" where
  "bs_bits b = concat (map (\<lambda>(i, w). map ((+) (i * 64)) (word_bits w)) (enumerate 0 b))"

fun top_of :: "(nat \<times> u64 \<times> u64) list \<Rightarrow> nat option" where
  "top_of [] = None"
| "top_of ((word, this, other) # rest) =
     (let intersect = this AND other
      in if intersect = 0 then top_of rest else Some (word * 64 + (bit_len intersect - 1)))"

definition bs_intersection_top :: "Bitset \<Rightarrow> Bitset \<Rightarrow> nat option" where
  "bs_intersection_top b other = top_of (rev (enumerate 0 (zip b other)))"

definition bs_is_empty :: "Bitset \<Rightarrow> bool" where
  "bs_is_empty b = list_all (\<lambda>w. w = 0) b"

definition bs_intersects :: "Bitset \<Rightarrow> Bitset \<Rightarrow> bool" where
  "bs_intersects b other = list_ex (\<lambda>(x, y). x AND y \<noteq> 0) (zip b other)"

definition bs_count_ones :: "Bitset \<Rightarrow> nat" where
  "bs_count_ones b = sum_list (map word_count_ones b)"

definition bs_union :: "Bitset \<Rightarrow> Bitset \<Rightarrow> Bitset" where
  "bs_union b other = map2 (OR) b other"

definition bs_intersect :: "Bitset \<Rightarrow> Bitset \<Rightarrow> Bitset" where
  "bs_intersect b other = map2 (AND) b other"

definition bs_invert :: "Bitset \<Rightarrow> Bitset" where
  "bs_invert b = map NOT b"

definition bs_with_bits_upto :: "nat \<Rightarrow> nat \<Rightarrow> Bitset option" where
  "bs_with_bits_upto n bit_exclusive =
     (let full_set_words = bit_exclusive div 64;
          out = replicate full_set_words (-1) @ replicate (n - full_set_words) 0
      in if n < full_set_words then None
         else Some (if full_set_words < n
                    then out[full_set_words := push_bit (bit_exclusive mod 64) 1 - 1]
                    else out))"

section \<open>Rank\<close>

definition mask_word :: "nat \<Rightarrow> nat \<Rightarrow> u64" where
  "mask_word word i =
     (let n = i + 1; target_word = n div 64
      in if word < target_word then -1 else if target_word < word then 0 else push_bit (n mod 64) 1 - 1)"

definition build_rank_mask :: "nat \<Rightarrow> nat \<Rightarrow> Bitset" where
  "build_rank_mask n_words i = map (\<lambda>word. mask_word word i) [0..<n_words]"

definition bs_rank :: "nat \<Rightarrow> Bitset \<Rightarrow> nat" where
  "bs_rank i b = bs_count_ones (bs_intersect (build_rank_mask (length b) i) b)"

definition RANK_MASK :: "Bitset list" where
  "RANK_MASK = map (build_rank_mask 4) [0..<256]"

definition rank_mask256 :: "nat \<Rightarrow> Bitset option" where
  "rank_mask256 i = (if i < length RANK_MASK then Some (RANK_MASK ! i) else None)"

definition bs_rank256 :: "nat \<Rightarrow> Bitset \<Rightarrow> nat option" where
  "bs_rank256 i b = map_option (\<lambda>mask. bs_count_ones (bs_intersect mask b)) (rank_mask256 i)"

definition bs_bits_after :: "u8 \<Rightarrow> Bitset \<Rightarrow> nat list option" where
  "bs_bits_after n b = map_option (\<lambda>mask. bs_bits (bs_intersect (bs_invert mask) b)) (rank_mask256 (unat n))"

section \<open>The set a bitset stands for\<close>

definition bs_mem :: "Bitset \<Rightarrow> nat \<Rightarrow> bool" where
  "bs_mem b i \<longleftrightarrow> i div 64 < length b \<and> bit (b ! (i div 64)) (i mod 64)"

definition bs_abs :: "Bitset \<Rightarrow> nat set" where
  "bs_abs b = {i. bs_mem b i}"

lemma and_63: "i AND 63 = i mod (64 :: nat)"
  using take_bit_eq_mask [of 6 i] by (simp add: mask_eq_exp_minus_1 take_bit_eq_mod)

lemma div_mod_inject: "i div 64 = j div 64 \<Longrightarrow> i mod 64 = j mod 64 \<Longrightarrow> i = (j :: nat)"
  by (metis div_mult_mod_eq)

lemma bit_subword_idx: "bit (subword_idx i) j \<longleftrightarrow> j = i mod 64"
  by (auto simp: subword_idx_def and_63 bit_simps)

lemma bs_mem_Nil [simp]: "\<not> bs_mem [] i"
  by (simp add: bs_mem_def)

lemma bs_mem_Cons: "bs_mem (w # ws) i \<longleftrightarrow> (if i < 64 then bit w i else bs_mem ws (i - 64))"
  by (auto simp: bs_mem_def le_div_geq le_mod_geq)

lemma bs_mem_less: "bs_mem b i \<Longrightarrow> i < 64 * length b"
  by (simp add: bs_mem_def less_mult_imp_div_less div_less_iff_less_mult mult.commute)

lemma finite_bs_abs: "finite (bs_abs b)"
  by (rule finite_subset [of _ "{..<64 * length b}"]) (auto simp: bs_abs_def bs_mem_less)

lemma bs_set_spec:
  assumes "i < 64 * length b"
  obtains b' where "bs_set i b = Some b'" and "length b' = length b" and "\<And>j. bs_mem b' j \<longleftrightarrow> j = i \<or> bs_mem b j"
proof
  have w: "i div 64 < length b" using assms by (simp add: div_less_iff_less_mult mult.commute)
  let ?b = "b[i div 64 := b ! (i div 64) OR subword_idx i]"
  show "bs_set i b = Some ?b" using w by (simp add: bs_set_def word_idx_def)
  show "bs_mem ?b j \<longleftrightarrow> j = i \<or> bs_mem b j" for j
    using w by (auto simp: bs_mem_def nth_list_update bit_simps bit_subword_idx dest: div_mod_inject)
qed simp

lemma bs_clear_spec:
  assumes "i < 64 * length b"
  obtains b' where "bs_clear i b = Some b'" and "length b' = length b" and "\<And>j. bs_mem b' j \<longleftrightarrow> j \<noteq> i \<and> bs_mem b j"
proof
  have w: "i div 64 < length b" using assms by (simp add: div_less_iff_less_mult mult.commute)
  let ?b = "b[i div 64 := b ! (i div 64) AND NOT (subword_idx i)]"
  show "bs_clear i b = Some ?b" using w by (simp add: bs_clear_def word_idx_def)
  show "bs_mem ?b j \<longleftrightarrow> j \<noteq> i \<and> bs_mem b j" for j
    using w by (auto simp: bs_mem_def nth_list_update bit_simps bit_subword_idx dest: div_mod_inject)
qed simp

lemma bs_test_spec: "i < 64 * length b \<Longrightarrow> bs_test i b = Some (bs_mem b i)"
proof -
  assume "i < 64 * length b"
  then have w: "i div 64 < length b" by (simp add: div_less_iff_less_mult mult.commute)
  have "b ! (i div 64) AND subword_idx i \<noteq> 0 \<longleftrightarrow> bit (b ! (i div 64)) (i mod 64)"
    by (simp add: subword_idx_def and_63 push_bit_of_1 and_exp_eq_0_iff_not_bit)
  with w show ?thesis by (simp add: bs_test_def word_idx_def bs_mem_def)
qed

lemma bs_out_of_range: "64 * length b \<le> i \<Longrightarrow> bs_set i b = None \<and> bs_clear i b = None \<and> bs_test i b = None"
  by (auto simp: bs_set_def bs_clear_def bs_test_def word_idx_def div_less_iff_less_mult)

text \<open>A search for the lowest or highest element of a set answers \<open>None\<close> only on the empty set.\<close>

definition is_least :: "nat set \<Rightarrow> nat option \<Rightarrow> bool" where
  "is_least A r = (case r of None \<Rightarrow> A = {} | Some i \<Rightarrow> i \<in> A \<and> (\<forall>j\<in>A. i \<le> j))"

definition is_greatest :: "nat set \<Rightarrow> nat option \<Rightarrow> bool" where
  "is_greatest A r = (case r of None \<Rightarrow> A = {} | Some i \<Rightarrow> i \<in> A \<and> (\<forall>j\<in>A. j \<le> i))"

lemma is_least_unique: "is_least A r \<Longrightarrow> is_least A r' \<Longrightarrow> r = r'"
  by (cases r; cases r') (auto simp: is_least_def intro: antisym)

lemma is_greatest_unique: "is_greatest A r \<Longrightarrow> is_greatest A r' \<Longrightarrow> r = r'"
  by (cases r; cases r') (auto simp: is_greatest_def intro: antisym)

lemma bs_abs_Cons: "bs_abs (w # ws) = {i. bit w i} \<union> (+) 64 ` bs_abs ws"
proof -
  have "bs_mem (w # ws) i \<longleftrightarrow> bit w i \<or> (\<exists>j. bs_mem ws j \<and> i = 64 + j)" for i
    by (cases "i < 64") (auto simp: bs_mem_Cons dest: bit_imp_le_length intro: exI [of _ "i - 64"])
  then show ?thesis by (auto simp: bs_abs_def)
qed

lemma bs_abs_Nil [simp]: "bs_abs [] = {}"
  by (simp add: bs_abs_def)

lemma first_set_from_spec: "is_least ((+) (64 * k) ` bs_abs ws) (first_set_from k ws)"
proof (induction ws arbitrary: k)
  case (Cons w ws)
  show ?case
  proof (cases "w = 0")
    case True
    have "(+) (64 * k) ` bs_abs (w # ws) = (+) (64 * Suc k) ` bs_abs ws"
      by (simp add: True bs_abs_Cons image_image add.assoc add.commute)
    with Cons.IH [of "Suc k"] True show ?thesis by simp
  next
    case False
    from trailing_zeros_props(1) [OF this] trailing_zeros_props(2) [of _ w] False
    show ?thesis by (force simp: is_least_def bs_abs_Cons Let_def not_less [symmetric])
  qed
qed (simp add: is_least_def)

lemma next_word_from_first: "next_word_from k ws = first_set_from k ws"
  by (induction ws arbitrary: k) (auto simp: Let_def mult.commute trailing_zeros_eq_length [where 'a = 64, simplified])

lemma div_mod_add:
  assumes "i mod 64 + d < (64 :: nat)"
  shows "(i + d) div 64 = i div 64" and "(i + d) mod 64 = i mod 64 + d"
proof -
  have "(x + d + 64 * q) div 64 = q" "(x + d + 64 * q) mod 64 = x + d" if "x + d < 64" for x q :: nat using that by simp_all
  from this [of "i mod 64" "i div 64", OF assms] show "(i + d) div 64 = i div 64" "(i + d) mod 64 = i mod 64 + d"
    by (simp_all add: ac_simps)
qed

lemma bs_mem_drop: "n \<le> length b \<Longrightarrow> bs_mem (drop n b) d \<longleftrightarrow> bs_mem b (64 * n + d)"
  by (auto simp: bs_mem_def)

lemma bs_next_set_spec:
  assumes "i < 64 * length b"
  shows "\<exists>r. bs_next_set i b = Some r \<and> is_least {j \<in> bs_abs b. i \<le> j} r"
proof -
  let ?w = "i div 64" and ?k = "i mod 64"
  have w: "?w < length b" using assms by (simp add: div_less_iff_less_mult mult.commute)
  let ?first = "drop_bit ?k (b ! ?w)"
  have split: "bs_mem b j \<longleftrightarrow> (if j div 64 = ?w then bit (b ! ?w) (j mod 64) else ?w < j div 64 \<and> bs_mem b j)"
    if "i \<le> j" for j
    using that w div_le_mono [OF that, of 64] by (auto simp: bs_mem_def)
  show ?thesis
  proof (cases "?first = 0")
    case False
    let ?r = "i + trailing_zeros ?first"
    note tz = trailing_zeros_props(1) [OF False] trailing_zeros_props(2) [of _ ?first]
    have bit: "bit (b ! ?w) (?k + trailing_zeros ?first)" using tz(1) by (simp add: bit_simps)
    then have less: "?k + trailing_zeros ?first < 64" using bit_imp_le_length by fastforce
    have "bs_mem b ?r" using bit w by (simp add: bs_mem_def div_mod_add [OF less])
    moreover have "?r \<le> j" if j: "bs_mem b j" "i \<le> j" for j
    proof (rule ccontr)
      assume "\<not> ?r \<le> j"
      then obtain d where d: "j = i + d" "d < trailing_zeros ?first" using j(2) by (metis add_less_cancel_left le_Suc_ex not_le)
      have "?k + d < 64" using less d(2) by linarith
      from div_mod_add [OF this] j(1) tz(2) [OF d(2)] show False by (simp add: d(1) bs_mem_def bit_simps)
    qed
    ultimately show ?thesis using w False
      by (intro exI [of _ "Some ?r"]) (auto simp: bs_next_set_def word_idx_def and_63 is_least_def bs_abs_def Let_def)
  next
    case True
    have none: "\<not> bit (b ! ?w) (j mod 64)" if "i \<le> j" "j div 64 = ?w" for j
    proof -
      have "?k \<le> j mod 64" using that by (metis add_le_cancel_left div_mult_mod_eq)
      then have "bit ?first (j mod 64 - ?k) \<longleftrightarrow> bit (b ! ?w) (j mod 64)" by (simp add: bit_simps)
      with True show ?thesis by simp
    qed
    have "{j \<in> bs_abs b. i \<le> j} = (+) (64 * Suc ?w) ` bs_abs (drop (Suc ?w) b)" (is "?L = ?R")
    proof (intro set_eqI iffI)
      fix j assume "j \<in> ?L"
      then have j: "bs_mem b j" "i \<le> j" by (simp_all add: bs_abs_def)
      with split [of j] none [of j] have gt: "?w < j div 64" by (auto split: if_splits)
      then have ge: "64 * Suc ?w \<le> j" by (metis Suc_leI less_eq_div_iff_mult_less_eq mult.commute zero_less_numeral)
      then obtain d where d: "j = 64 * Suc ?w + d" using le_Suc_ex by blast
      have "bs_mem (drop (Suc ?w) b) d" using j(1) w unfolding d by (subst bs_mem_drop) simp_all
      with d show "j \<in> ?R" by (simp add: bs_abs_def)
    next
      fix j assume "j \<in> ?R"
      then obtain d where d: "j = 64 * Suc ?w + d" "bs_mem (drop (Suc ?w) b) d" by (auto simp: bs_abs_def)
      have "i \<le> 64 * Suc ?w" using mod_less_divisor [of 64 i] div_mult_mod_eq [of i 64] by simp
      moreover have "bs_mem b j" using d w bs_mem_drop [of "Suc ?w" b d] by simp
      ultimately show "j \<in> ?L" using d(1) by (simp add: bs_abs_def)
    qed
    with first_set_from_spec [of "Suc ?w" "drop (Suc ?w) b"] w True show ?thesis
      by (intro exI [of _ "first_set_from (Suc ?w) (drop (Suc ?w) b)"])
        (simp add: bs_next_set_def word_idx_def and_63 Let_def next_word_from_first)
  qed
qed

lemma bs_abs_take_Suc:
  assumes "k < length b"
  shows "bs_abs (take (Suc k) b) = bs_abs (take k b) \<union> (+) (k * 64) ` {i. bit (b ! k) i}"
proof (intro set_eqI iffI)
  fix i assume "i \<in> bs_abs (take (Suc k) b)"
  then have i: "i div 64 < Suc k" "bit (b ! (i div 64)) (i mod 64)" using assms by (auto simp: bs_abs_def bs_mem_def)
  show "i \<in> bs_abs (take k b) \<union> (+) (k * 64) ` {i. bit (b ! k) i}"
  proof (cases "i div 64 = k")
    case True
    then have "i = k * 64 + i mod 64" by (metis div_mult_mod_eq)
    with True i(2) show ?thesis by blast
  qed (use i assms in \<open>auto simp: bs_abs_def bs_mem_def\<close>)
next
  fix i assume "i \<in> bs_abs (take k b) \<union> (+) (k * 64) ` {i. bit (b ! k) i}"
  then consider "bs_mem (take k b) i" | j where "i = k * 64 + j" "bit (b ! k) j" by (auto simp: bs_abs_def)
  then show "i \<in> bs_abs (take (Suc k) b)"
  proof cases
    case 2
    then have "j < 64" using bit_imp_le_length by fastforce
    with 2 assms show ?thesis by (simp add: bs_abs_def bs_mem_def)
  qed (use assms in \<open>auto simp: bs_abs_def bs_mem_def\<close>)
qed

lemma is_greatest_word:
  assumes "(w :: u64) \<noteq> 0" and "\<And>i. i \<in> A \<Longrightarrow> i < k * 64"
  shows "is_greatest (A \<union> (+) (k * 64) ` {i. bit w i}) (Some (k * 64 + (bit_len w - 1)))"
proof -
  have "j \<le> k * 64 + (bit_len w - 1)" if "j \<in> A \<union> (+) (k * 64) ` {i. bit w i}" for j
    using that bit_len_props(4) [OF assms(1)] assms(2) by (auto intro: less_imp_le trans_le_add1)
  with bit_len_props(3) [OF assms(1)] show ?thesis by (simp add: is_greatest_def)
qed

lemma bs_abs_less: "i \<in> bs_abs b \<Longrightarrow> i < 64 * length b"
  using bs_mem_less [of b i] by (simp add: bs_abs_def)

lemma last_set_from_spec: "k < length b \<Longrightarrow> is_greatest (bs_abs (take (Suc k) b)) (last_set_from b k)"
proof (induction k)
  case 0
  have "bs_abs (take (Suc 0) b) = {} \<union> (+) (0 * 64) ` {i. bit (b ! 0) i}" using bs_abs_take_Suc [OF 0] by simp
  then show ?case using is_greatest_word [of "b ! 0" "{}" 0] by (auto simp: is_greatest_def)
next
  case (Suc k)
  show ?case
  proof (cases "b ! Suc k = 0")
    case True
    then show ?thesis using Suc bs_abs_take_Suc [OF Suc.prems] by simp
  next
    case False
    then have "is_greatest (bs_abs (take (Suc (Suc k)) b)) (Some (Suc k * 64 + (bit_len (b ! Suc k) - 1)))"
      unfolding bs_abs_take_Suc [OF Suc.prems]
      by (rule is_greatest_word) (use Suc.prems bs_abs_less [of _ "take (Suc k) b"] in \<open>simp add: mult.commute\<close>)
    with False show ?thesis by simp
  qed
qed

lemma bs_last_set_spec: "b \<noteq> [] \<Longrightarrow> \<exists>r. bs_last_set b = Some r \<and> is_greatest (bs_abs b) r"
  using last_set_from_spec [of "length b - 1" b] by (simp add: bs_last_set_def)

text \<open>Clearing the lowest set bit.\<close>

lemma bit_clear_lowest:
  assumes "(w :: u64) \<noteq> 0"
  shows "bit (w AND (w - 1)) i \<longleftrightarrow> bit w i \<and> i \<noteq> trailing_zeros w"
proof -
  let ?t = "trailing_zeros w" and ?h = "w AND NOT (mask (Suc (trailing_zeros w)))"
  note tz = trailing_zeros_props(1) [OF assms] trailing_zeros_props(2) [of _ w]
  have above: "?t < i" if "bit w i" "?t \<noteq> i" for i using that tz(2) by (meson linorder_neqE_nat)
  have "w = ?h OR 2 ^ ?t"
    by (rule bit_word_eqI) (use tz above in \<open>auto simp: bit_simps less_Suc_eq not_less_eq\<close>)
  also have "\<dots> = ?h + 2 ^ ?t"
    by (rule disjunctive_add [symmetric]) (auto simp: bit_simps)
  finally have "w - 1 = ?h + mask ?t" by (simp add: mask_eq_exp_minus_1)
  also have "\<dots> = ?h OR mask ?t" by (rule disjunctive_add) (auto simp: bit_simps)
  finally have "w - 1 = ?h OR mask ?t" .
  then show ?thesis using tz by (auto simp: bit_simps not_less_eq less_Suc_eq dest: bit_imp_le_length)
qed

lemma word_bits_spec: "set (word_bits w) = {i. bit w i} \<and> sorted_wrt (<) (word_bits w)"
proof (induction w rule: word_bits.induct)
  case (1 w)
  show ?case
  proof (cases "w = 0")
    case False
    note tz = trailing_zeros_props(1) [OF False] trailing_zeros_props(2) [of _ w]
    have IH: "set (word_bits (w AND (w - 1))) = {i. bit (w AND (w - 1)) i} \<and> sorted_wrt (<) (word_bits (w AND (w - 1)))"
      using 1 tz by simp
    have "set (word_bits (w AND (w - 1))) = {i. bit w i} - {trailing_zeros w}" using IH bit_clear_lowest [OF False] by auto
    moreover have "trailing_zeros w < i" if "bit w i" "i \<noteq> trailing_zeros w" for i using that tz(2) by (meson linorder_neqE_nat)
    moreover have "word_bits w = trailing_zeros w # word_bits (w AND (w - 1))" using tz by (subst word_bits.simps) simp
    ultimately show ?thesis using tz IH by auto
  qed (simp add: word_bits.simps [of 0])
qed

lemma bs_bits_from_spec:
  "set (concat (map (\<lambda>(i, w). map ((+) (i * 64)) (word_bits w)) (enumerate k b))) = (+) (64 * k) ` bs_abs b \<and>
   sorted_wrt (<) (concat (map (\<lambda>(i, w). map ((+) (i * 64)) (word_bits w)) (enumerate k b)))"
proof (induction b arbitrary: k)
  case (Cons w b)
  have word: "set (word_bits w) = {i. bit w i}" "sorted_wrt (<) (word_bits w)" using word_bits_spec by blast+
  have "sorted_wrt (<) (map ((+) (k * 64)) (word_bits w))" using word(2) by (simp add: sorted_wrt_map)
  moreover have "i < 64" if "bit w i" for i using that bit_imp_le_length by fastforce
  ultimately show ?case using Cons.IH [of "Suc k"] word(1)
    by (fastforce simp: bs_abs_Cons sorted_wrt_append image_Un image_image mult.commute)
qed simp

lemma bs_bits_spec: "bs_bits b = sorted_list_of_set (bs_abs b)"
proof -
  have "set (bs_bits b) = bs_abs b" "sorted_wrt (<) (bs_bits b)" using bs_bits_from_spec [of 0 b] by (simp_all add: bs_bits_def)
  then show ?thesis
    by (metis finite_bs_abs sorted_list_of_set.idem_if_sorted_distinct strict_sorted_iff)
qed

lemma word_count_ones_card: "word_count_ones (w :: 'a::len word) = card {i. bit w i}"
proof -
  have "{i. bit w i} = set (filter (bit w) [0..<LENGTH('a)])" by (auto dest: bit_imp_le_length)
  then show ?thesis by (simp only: distinct_card word_count_ones_def distinct_filter distinct_upt)
qed

lemma bs_count_ones_spec: "bs_count_ones b = card (bs_abs b)"
proof (induction b)
  case (Cons w b)
  have "finite {i. bit w i}" "{i. bit w i} \<inter> (+) 64 ` bs_abs b = {}"
    by (auto intro: finite_subset [of _ "{..<64}"] dest: bit_imp_le_length)
  then have "card (bs_abs (w # b)) = card {i. bit w i} + card (bs_abs b)"
    by (simp add: bs_abs_Cons card_Un_disjoint finite_bs_abs card_image)
  then show ?case using Cons by (simp add: bs_count_ones_def word_count_ones_card)
qed (simp add: bs_count_ones_def)

lemma bs_abs_bitwise:
  assumes "length a = length b"
  shows "bs_abs (bs_union a b) = bs_abs a \<union> bs_abs b" and "bs_abs (bs_intersect a b) = bs_abs a \<inter> bs_abs b"
    and "bs_abs (bs_invert b) = {..<64 * length b} - bs_abs b"
proof -
  have less: "i div 64 < length b \<longleftrightarrow> i < 64 * length b" for i by (simp add: div_less_iff_less_mult mult.commute)
  show "bs_abs (bs_union a b) = bs_abs a \<union> bs_abs b"
    using assms by (auto simp: bs_abs_def bs_mem_def bs_union_def bit_simps)
  show "bs_abs (bs_intersect a b) = bs_abs a \<inter> bs_abs b"
    using assms by (auto simp: bs_abs_def bs_mem_def bs_intersect_def bit_simps)
  show "bs_abs (bs_invert b) = {..<64 * length b} - bs_abs b"
    by (auto simp: bs_abs_def bs_mem_def bs_invert_def bit_simps less)
qed

lemma length_bs_bitwise [simp]:
  "length (bs_union a b) = min (length a) (length b)" "length (bs_intersect a b) = min (length a) (length b)"
  "length (bs_invert a) = length a"
  by (simp_all add: bs_union_def bs_intersect_def bs_invert_def)

lemma bs_is_empty_spec: "bs_is_empty b \<longleftrightarrow> bs_abs b = {}"
proof (induction b)
  case (Cons w b)
  have "w = 0 \<longleftrightarrow> {i. bit w i} = {}" using ex_bit [of w] by auto
  with Cons show ?case by (simp add: bs_is_empty_def bs_abs_Cons)
qed (simp add: bs_is_empty_def)

lemma bs_intersects_spec:
  assumes "length a = length b"
  shows "bs_intersects a b \<longleftrightarrow> bs_abs a \<inter> bs_abs b \<noteq> {}"
proof -
  have "bs_intersects a b \<longleftrightarrow> \<not> bs_is_empty (bs_intersect a b)"
    by (force simp: bs_intersects_def bs_is_empty_def bs_intersect_def list_ex_iff list_all_iff)
  with assms show ?thesis by (simp add: bs_is_empty_spec bs_abs_bitwise)
qed

lemma bs_EMPTY_abs [simp]: "bs_abs (bs_EMPTY n) = {}" "length (bs_EMPTY n) = n"
  by (auto simp: bs_EMPTY_def bs_abs_def bs_mem_def)

lemma top_of_last:
  assumes "length a = length b" and "k < length a"
  shows "top_of (rev (take (Suc k) (enumerate 0 (zip a b)))) = last_set_from (bs_intersect a b) k"
  using assms(2)
proof (induction k)
  case 0
  then show ?case using assms(1) by (cases a; cases b) (auto simp: bs_intersect_def Let_def)
next
  case (Suc k)
  then have "take (Suc (Suc k)) (enumerate 0 (zip a b)) =
      take (Suc k) (enumerate 0 (zip a b)) @ [(Suc k, a ! Suc k, b ! Suc k)]"
    using assms(1) by (simp add: take_Suc_conv_app_nth nth_enumerate_eq)
  with Suc assms(1) show ?case by (simp add: bs_intersect_def Let_def)
qed

lemma bs_intersection_top_spec:
  assumes "length a = length b"
  shows "is_greatest (bs_abs a \<inter> bs_abs b) (bs_intersection_top a b)"
proof (cases "a = []")
  case False
  let ?k = "length a - 1"
  have "bs_intersection_top a b = last_set_from (bs_intersect a b) ?k"
    using top_of_last [OF assms, of ?k] False assms by (cases b) (simp_all add: bs_intersection_top_def)
  moreover have "is_greatest (bs_abs (bs_intersect a b)) (last_set_from (bs_intersect a b) ?k)"
    using last_set_from_spec [of ?k "bs_intersect a b"] False assms by (cases b) simp_all
  ultimately show ?thesis using assms by (simp add: bs_abs_bitwise)
qed (simp add: bs_intersection_top_def is_greatest_def)

lemma bit_low_mask: "k < 64 \<Longrightarrow> bit (push_bit k 1 - 1 :: u64) j \<longleftrightarrow> j < k"
  by (auto simp: push_bit_of_1 mask_eq_exp_minus_1 [symmetric] bit_simps)

lemma build_rank_mask_abs: "bs_abs (build_rank_mask n i) = {j. j \<le> i \<and> j < 64 * n}"
proof (intro set_eqI iffI)
  have word: "bit (mask_word (j div 64) i) (j mod 64) \<longleftrightarrow> j \<le> i" for j
  proof -
    consider "j div 64 < (i + 1) div 64" | "(i + 1) div 64 < j div 64" | "j div 64 = (i + 1) div 64" by linarith
    then show ?thesis
    proof cases
      case 1
      then have "j < i + 1" by (meson div_le_mono leD le_less_linear)
      with 1 show ?thesis by (simp add: mask_word_def bit_simps)
    next
      case 2
      then have "i + 1 < j" by (meson div_le_mono leD le_less_linear)
      with 2 show ?thesis by (simp add: mask_word_def)
    next
      case 3
      then have "j mod 64 < (i + 1) mod 64 \<longleftrightarrow> j < i + 1"
        by (metis add_less_cancel_left div_mult_mod_eq)
      with 3 bit_low_mask [of "(i + 1) mod 64" "j mod 64"] show ?thesis by (simp add: mask_word_def less_Suc_eq_le)
    qed
  qed
  fix j
  have less: "j div 64 < n \<longleftrightarrow> j < 64 * n" by (simp add: div_less_iff_less_mult mult.commute)
  show "j \<in> {j. j \<le> i \<and> j < 64 * n}" if "j \<in> bs_abs (build_rank_mask n i)"
    using that word [of j] less by (auto simp: bs_abs_def bs_mem_def build_rank_mask_def)
  show "j \<in> bs_abs (build_rank_mask n i)" if "j \<in> {j. j \<le> i \<and> j < 64 * n}"
    using that word [of j] less by (auto simp: bs_abs_def bs_mem_def build_rank_mask_def)
qed

lemma length_build_rank_mask [simp]: "length (build_rank_mask n i) = n"
  by (simp add: build_rank_mask_def)

lemma bs_rank_spec: "bs_rank i b = card {j \<in> bs_abs b. j \<le> i}"
proof -
  have "bs_abs (build_rank_mask (length b) i) \<inter> bs_abs b = {j \<in> bs_abs b. j \<le> i}"
    using bs_abs_less [of _ b] by (auto simp: build_rank_mask_abs)
  then show ?thesis by (simp add: bs_rank_def bs_count_ones_spec bs_abs_bitwise)
qed

lemma rank_mask256_eq: "i < 256 \<Longrightarrow> rank_mask256 i = Some (build_rank_mask 4 i)"
  by (simp add: rank_mask256_def RANK_MASK_def)

lemma bs_rank256_eq: "length b = 4 \<Longrightarrow> i < 256 \<Longrightarrow> bs_rank256 i b = Some (bs_rank i b)"
  by (simp add: bs_rank256_def rank_mask256_eq bs_rank_def)

lemma bs_bits_after_spec:
  assumes "length b = 4"
  shows "bs_bits_after n b = Some (sorted_list_of_set {j \<in> bs_abs b. unat n < j})"
proof -
  have n: "unat n < 256" using unat_less_2pow [of n] by simp
  have "bs_abs (bs_intersect (bs_invert (build_rank_mask 4 (unat n))) b) = {j \<in> bs_abs b. unat n < j}"
    using assms bs_abs_less [of _ b] by (auto simp: bs_abs_bitwise build_rank_mask_abs)
  then show ?thesis by (simp add: bs_bits_after_def rank_mask256_eq [OF n] bs_bits_spec)
qed

lemma bs_with_bits_spec:
  assumes "\<forall>i\<in>set is. i < 64 * length b"
  shows "\<exists>b'. bs_with_bits is b = Some b' \<and> length b' = length b \<and> bs_abs b' = bs_abs b \<union> set is"
  using assms
proof (induction "is" arbitrary: b)
  case (Cons i "is")
  obtain b1 where b1: "bs_set i b = Some b1" "length b1 = length b" "\<And>j. bs_mem b1 j \<longleftrightarrow> j = i \<or> bs_mem b j"
    using bs_set_spec [of i b] Cons.prems by auto
  then have "bs_abs b1 = insert i (bs_abs b)" by (auto simp: bs_abs_def)
  with Cons.IH [of b1] Cons.prems b1(1,2) show ?case by auto
qed simp

lemma bs_with_bits_upto_spec:
  assumes "k \<le> 64 * n"
  obtains b where "bs_with_bits_upto n k = Some b" and "length b = n" and "bs_abs b = {..<k}"
proof
  let ?f = "k div 64" and ?m = "push_bit (k mod 64) 1 - 1 :: u64"
  let ?b = "map (\<lambda>w. if w < ?f then -1 else if w = ?f then ?m else 0) [0..<n]"
  have f: "?f \<le> n" using assms by (metis div_le_mono div_mult_self1_is_m zero_less_numeral)
  have "(let out = replicate ?f (-1) @ replicate (n - ?f) 0 in if ?f < n then out[?f := ?m] else out) = ?b"
    by (rule nth_equalityI) (use f in \<open>auto simp: Let_def nth_append nth_list_update\<close>)
  with f show "bs_with_bits_upto n k = Some ?b" by (simp add: bs_with_bits_upto_def Let_def)
  show "bs_abs ?b = {..<k}"
  proof (intro set_eqI)
    fix i
    have i: "i div 64 < n" if "i < k" using that assms by (simp add: div_less_iff_less_mult mult.commute)
    consider "i div 64 < ?f" | "?f < i div 64" | "i div 64 = ?f" by linarith
    then show "i \<in> bs_abs ?b \<longleftrightarrow> i \<in> {..<k}"
    proof cases
      case 1
      then have "i < k" by (meson div_le_mono leD le_less_linear)
      with 1 i show ?thesis by (simp add: bs_abs_def bs_mem_def bit_simps)
    next
      case 2
      then have "k < i" by (meson div_le_mono leD le_less_linear)
      with 2 show ?thesis by (auto simp: bs_abs_def bs_mem_def)
    next
      case 3
      then have "i mod 64 < k mod 64 \<longleftrightarrow> i < k" by (metis add_less_cancel_left div_mult_mod_eq)
      with 3 i bit_low_mask [of "k mod 64" "i mod 64"] show ?thesis by (auto simp: bs_abs_def bs_mem_def)
    qed
  qed
qed simp

section \<open>Shifts\<close>

definition shl_word :: "nat \<Rightarrow> nat \<Rightarrow> Bitset \<Rightarrow> nat \<Rightarrow> u64" where
  "shl_word shift_words shift_bits b tgt =
     (let src = tgt - shift_words;
          w1 = b ! src;
          w2 = (if src = 0 then 0 else b ! (src - 1))
      in push_bit shift_bits w1 OR drop_bit (64 - shift_bits) w2)"

definition bs_shl_inplace :: "nat \<Rightarrow> Bitset \<Rightarrow> Bitset" where
  "bs_shl_inplace rhs b =
     (if N_BITS b \<le> rhs then bs_EMPTY (length b)
      else let shift_words = rhs div 64; shift_bits = rhs mod 64;
               b' = foldl (\<lambda>b tgt. b[tgt := shl_word shift_words shift_bits b tgt]) b (rev [shift_words..<length b])
           in replicate shift_words 0 @ drop shift_words b')"

definition shr_word :: "nat \<Rightarrow> nat \<Rightarrow> Bitset \<Rightarrow> nat \<Rightarrow> u64" where
  "shr_word shift_words shift_bits b tgt =
     (let src = tgt + shift_words;
          w1 = b ! src;
          w2 = (if src + 1 < length b then b ! (src + 1) else 0)
      in drop_bit shift_bits w1 OR push_bit (64 - shift_bits) w2)"

definition bs_shr_inplace :: "nat \<Rightarrow> Bitset \<Rightarrow> Bitset" where
  "bs_shr_inplace rhs b =
     (if N_BITS b \<le> rhs then bs_EMPTY (length b)
      else let shift_words = rhs div 64; shift_bits = rhs mod 64;
               n = length b - shift_words;
               b' = foldl (\<lambda>b tgt. b[tgt := shr_word shift_words shift_bits b tgt]) b [0..<n]
           in take n b' @ replicate shift_words 0)"

text \<open>The operators \<open>\<lless>\<close> and \<open>\<ggreater>\<close> panic on negative and on too large shifts.\<close>

definition bs_shl :: "int \<Rightarrow> Bitset \<Rightarrow> Bitset option" where
  "bs_shl rhs b = (if rhs < 0 \<or> int (N_BITS b) \<le> rhs then None else Some (bs_shl_inplace (nat rhs) b))"

definition bs_shr :: "int \<Rightarrow> Bitset \<Rightarrow> Bitset option" where
  "bs_shr rhs b = (if rhs < 0 \<or> int (N_BITS b) \<le> rhs then None else Some (bs_shr_inplace (nat rhs) b))"

lemma foldl_update_descending:
  assumes "\<And>b' t. length b' = length b \<Longrightarrow> \<forall>j\<le>t. b' ! j = b ! j \<Longrightarrow> g b' t = g b t" and "k \<le> length b"
  shows "length (foldl (\<lambda>b t. b[t := g b t]) b (rev [k..<length b])) = length b \<and>
    (\<forall>j<length b. foldl (\<lambda>b t. b[t := g b t]) b (rev [k..<length b]) ! j = (if k \<le> j then g b j else b ! j))"
  using assms(2)
proof (induction "length b - k" arbitrary: k)
  case (Suc d k)
  let ?r = "foldl (\<lambda>b t. b[t := g b t]) b (rev [Suc k..<length b])"
  have IH: "length ?r = length b" "\<forall>j<length b. ?r ! j = (if Suc k \<le> j then g b j else b ! j)"
    using Suc.hyps(1) [of "Suc k"] Suc.hyps(2) Suc.prems by simp_all
  have "g ?r k = g b k" using IH Suc.hyps(2) by (intro assms(1)) auto
  moreover have "rev [k..<length b] = rev [Suc k..<length b] @ [k]" using Suc.hyps(2) by (simp add: upt_conv_Cons)
  ultimately show ?case using IH by (auto simp: nth_list_update)
qed simp

lemma foldl_update_ascending:
  assumes "\<And>b' t. length b' = length b \<Longrightarrow> \<forall>j. t \<le> j \<longrightarrow> j < length b \<longrightarrow> b' ! j = b ! j \<Longrightarrow> t < n \<Longrightarrow> g b' t = g b t" and "n \<le> length b"
  shows "k \<le> n \<Longrightarrow> length (foldl (\<lambda>b t. b[t := g b t]) b [0..<k]) = length b \<and>
    (\<forall>j<length b. foldl (\<lambda>b t. b[t := g b t]) b [0..<k] ! j = (if j < k then g b j else b ! j))"
proof (induction k)
  case (Suc k)
  let ?r = "foldl (\<lambda>b t. b[t := g b t]) b [0..<k]"
  have IH: "length ?r = length b" "\<forall>j<length b. ?r ! j = (if j < k then g b j else b ! j)" using Suc by simp_all
  have "g ?r k = g b k" using IH Suc.prems assms(2) by (intro assms(1)) auto
  then show ?case using IH by (auto simp: nth_list_update less_Suc_eq)
qed simp

lemma bit_shl_word:
  assumes "k < 64" and "m < 64"
  shows "bit (push_bit k w1 OR drop_bit (64 - k) w2 :: u64) m \<longleftrightarrow> (if k \<le> m then bit w1 (m - k) else bit w2 (64 + m - k))"
  using assms by (auto simp: bit_simps not_le dest: bit_imp_le_length) 

lemma bit_shr_word:
  assumes "k < 64" and "m < 64"
  shows "bit (drop_bit k w1 OR push_bit (64 - k) w2 :: u64) m \<longleftrightarrow> (if m + k < 64 then bit w1 (m + k) else bit w2 (m + k - 64))"
  using assms by (auto simp: bit_simps add.commute dest: bit_imp_le_length)

lemma bs_mem_at: "m < 64 \<Longrightarrow> bs_mem b (64 * t + m) \<longleftrightarrow> t < length b \<and> bit (b ! t) m"
  by (simp add: bs_mem_def)

lemma shl_word_mem:
  assumes "rhs < 64 * length b" and "rhs div 64 \<le> t" and "t < length b" and "m < 64"
  shows "bit (shl_word (rhs div 64) (rhs mod 64) b t) m \<longleftrightarrow> rhs \<le> 64 * t + m \<and> bs_mem b (64 * t + m - rhs)"
proof -
  let ?s = "rhs div 64" and ?k = "rhs mod 64"
  have rhs: "rhs = 64 * ?s + ?k" by simp
  have k: "?k < 64" by simp
  obtain d where d: "t = ?s + d" using assms(2) le_Suc_ex by blast
  have "64 * t = 64 * ?s + 64 * d" by (simp add: d)
  then have eq: "64 * t + m - rhs = (64 * d + m) - ?k" "rhs \<le> 64 * t + m \<longleftrightarrow> ?k \<le> 64 * d + m"
    using rhs by linarith+
  show ?thesis
  proof (cases "?k \<le> m")
    case True
    then have "64 * d + m - ?k = 64 * d + (m - ?k)" by simp
    then have "bs_mem b (64 * d + m - ?k) \<longleftrightarrow> bit (b ! d) (m - ?k)"
      using bs_mem_at [of "m - ?k" b d] assms(3,4) d by simp
    with True show ?thesis unfolding eq using bit_shl_word [OF k assms(4)] d by (simp add: shl_word_def Let_def trans_le_add2)
  next
    case False
    show ?thesis
    proof (cases d)
      case 0
      with False show ?thesis unfolding eq using bit_shl_word [OF k assms(4), of "b ! 0" 0] d by (simp add: shl_word_def Let_def)
    next
      case (Suc e)
      have "64 * d + m - ?k = 64 * e + (64 + m - ?k)" using Suc k by simp
      then have "bs_mem b (64 * d + m - ?k) \<longleftrightarrow> bit (b ! e) (64 + m - ?k)"
        using bs_mem_at [of "64 + m - ?k" b e] False assms(3,4) d Suc by simp
      moreover have "?k \<le> 64 * d + m" using Suc k by simp
      ultimately show ?thesis unfolding eq using False Suc bit_shl_word [OF k assms(4)] d by (simp add: shl_word_def Let_def)
    qed
  qed
qed

lemma shr_word_mem:
  assumes "t + rhs div 64 < length b" and "m < 64"
  shows "bit (shr_word (rhs div 64) (rhs mod 64) b t) m \<longleftrightarrow> bs_mem b (64 * t + m + rhs)"
proof -
  let ?s = "rhs div 64" and ?k = "rhs mod 64"
  have k: "?k < 64" by simp
  have eq: "64 * t + m + rhs = 64 * (t + ?s) + (m + ?k)"
    using div_mult_mod_eq [of rhs 64] by (simp only: add_mult_distrib2)
  show ?thesis
  proof (cases "m + ?k < 64")
    case True
    then show ?thesis using bit_shr_word [OF k assms(2)] bs_mem_at [OF True, of b "t + ?s"] assms(1) by (simp add: shr_word_def Let_def eq)
  next
    case False
    have eq': "64 * (t + ?s) + (m + ?k) = 64 * (t + ?s + 1) + (m + ?k - 64)" using False by simp
    have "bs_mem b (64 * (t + ?s + 1) + (m + ?k - 64)) \<longleftrightarrow> t + ?s + 1 < length b \<and> bit (b ! (t + ?s + 1)) (m + ?k - 64)"
      by (rule bs_mem_at) (use assms(2) k in linarith)
    with False show ?thesis unfolding eq eq' using bit_shr_word [OF k assms(2)]
      by (simp only: shr_word_def Let_def) simp
  qed
qed

lemma bs_shl_spec: "bs_abs (bs_shl_inplace rhs b) = {i. rhs \<le> i \<and> i < 64 * length b \<and> i - rhs \<in> bs_abs b}"
proof (cases "N_BITS b \<le> rhs")
  case True
  then show ?thesis by (auto simp: bs_shl_inplace_def N_BITS_def)
next
  case False
  let ?s = "rhs div 64" and ?g = "shl_word (rhs div 64) (rhs mod 64)"
  let ?r = "foldl (\<lambda>b tgt. b[tgt := ?g b tgt]) b (rev [?s..<length b])"
  have rhs: "rhs < 64 * length b" using False by (simp add: N_BITS_def mult.commute)
  then have s: "?s < length b" by (simp add: div_less_iff_less_mult mult.commute)
  have r: "length ?r = length b" "\<forall>j<length b. ?r ! j = (if ?s \<le> j then ?g b j else b ! j)"
    using foldl_update_descending [of b ?g ?s] s by (auto simp: shl_word_def Let_def)
  have "bs_mem (replicate ?s 0 @ drop ?s ?r) i \<longleftrightarrow> rhs \<le> i \<and> i < 64 * length b \<and> bs_mem b (i - rhs)" for i
  proof -
    have i: "i div 64 < length b \<longleftrightarrow> i < 64 * length b" by (simp add: div_less_iff_less_mult mult.commute)
    have eq: "64 * (i div 64) + i mod 64 = i" by simp
    show ?thesis
    proof (cases "?s \<le> i div 64")
      case True
      then have "bs_mem (replicate ?s 0 @ drop ?s ?r) i \<longleftrightarrow> i div 64 < length b \<and> bit (?g b (i div 64)) (i mod 64)"
        using r s by (auto simp: bs_mem_def nth_append)
      with True shl_word_mem [OF rhs True, of "i mod 64"] show ?thesis unfolding eq i by auto
    next
      case F: False
      then have "\<not> rhs \<le> i" using div_le_mono [of rhs i 64] by auto
      with F s r show ?thesis by (simp add: bs_mem_def nth_append)
    qed
  qed
  with False show ?thesis by (simp add: bs_shl_inplace_def bs_abs_def Let_def)
qed

lemma bs_shr_spec: "bs_abs (bs_shr_inplace rhs b) = {i. i + rhs \<in> bs_abs b}"
proof (cases "N_BITS b \<le> rhs")
  case True
  then show ?thesis using bs_abs_less [of _ b] by (fastforce simp: bs_shr_inplace_def N_BITS_def)
next
  case False
  let ?s = "rhs div 64" and ?g = "shr_word (rhs div 64) (rhs mod 64)"
  let ?n = "length b - rhs div 64"
  let ?r = "foldl (\<lambda>b tgt. b[tgt := ?g b tgt]) b [0..<?n]"
  have "rhs < 64 * length b" using False by (simp add: N_BITS_def mult.commute)
  then have s: "?s < length b" by (simp add: div_less_iff_less_mult mult.commute)
  have r: "length ?r = length b" "\<forall>j<length b. ?r ! j = (if j < ?n then ?g b j else b ! j)"
    using foldl_update_ascending [of b ?n ?g ?n] s by (auto simp: shr_word_def Let_def)
  have "bs_mem (take ?n ?r @ replicate ?s 0) i \<longleftrightarrow> bs_mem b (i + rhs)" for i
  proof -
    have eq: "64 * (i div 64) + i mod 64 = i" by simp
    show ?thesis
    proof (cases "i div 64 < ?n")
      case True
      then have "bs_mem (take ?n ?r @ replicate ?s 0) i \<longleftrightarrow> bit (?g b (i div 64)) (i mod 64)"
        using r s by (auto simp: bs_mem_def nth_append)
      moreover have "i div 64 + ?s < length b" using True by linarith
      ultimately show ?thesis using shr_word_mem [of "i div 64" rhs b "i mod 64"] unfolding eq by simp
    next
      case F: False
      have "i div 64 + ?s \<le> (i + rhs) div 64" by (metis div_add1_eq le_add1)
      with F have "\<not> (i + rhs) div 64 < length b" by linarith
      then have "\<not> bs_mem b (i + rhs)" by (simp only: bs_mem_def) simp
      moreover have "\<not> bs_mem (take ?n ?r @ replicate ?s 0) i"
      proof
        assume "bs_mem (take ?n ?r @ replicate ?s 0) i"
        then have "i div 64 < length b" "bit (replicate ?s (0 :: u64) ! (i div 64 - ?n)) (i mod 64)"
          using F s r by (simp_all add: bs_mem_def nth_append)
        moreover from this(1) have "i div 64 - ?n < ?s" using F s by linarith
        ultimately show False by simp
      qed
      ultimately show ?thesis by simp
    qed
  qed
  with False show ?thesis by (simp add: bs_shr_inplace_def bs_abs_def Let_def)
qed

section \<open>The interface of a bitset\<close>

text \<open>
  The traits \<open>BitsetDyn\<close> and \<open>BitsetStatic\<close> (\<open>ts_bitset/src/traits.rs\<close>): what a client may rely on.
  Positions outside \<open>range b\<close> may panic.
\<close>

locale bitset_ops =
  fixes set_bit clear_bit :: "nat \<Rightarrow> 'b \<Rightarrow> 'b option" and test_bit :: "nat \<Rightarrow> 'b \<Rightarrow> bool option"
    and next_bit :: "nat \<Rightarrow> 'b \<Rightarrow> nat option option" and members :: "'b \<Rightarrow> nat set" and span :: "'b \<Rightarrow> nat set"
  assumes set_bit: "i \<in> span b \<Longrightarrow> \<exists>b'. set_bit i b = Some b' \<and> members b' = insert i (members b) \<and> span b' = span b"
    and clear_bit: "i \<in> span b \<Longrightarrow> \<exists>b'. clear_bit i b = Some b' \<and> members b' = members b - {i} \<and> span b' = span b"
    and test_bit: "i \<in> span b \<Longrightarrow> test_bit i b = Some (i \<in> members b)"
    and next_bit: "i \<in> span b \<Longrightarrow> \<exists>r. next_bit i b = Some r \<and> is_least {j \<in> members b. i \<le> j} r"
begin

lemma test_after_set:
  assumes "i \<in> span b" and "j \<in> span b"
  shows "Option.bind (set_bit i b) (test_bit j) = Some (j = i \<or> j \<in> members b)"
proof -
  obtain b' where "set_bit i b = Some b'" "members b' = insert i (members b)" "span b' = span b" using set_bit [OF assms(1)] by blast
  then show ?thesis using test_bit [of j b'] assms(2) by simp
qed

lemma test_after_clear:
  assumes "i \<in> span b" and "j \<in> span b"
  shows "Option.bind (clear_bit i b) (test_bit j) = Some (j \<noteq> i \<and> j \<in> members b)"
proof -
  obtain b' where "clear_bit i b = Some b'" "members b' = members b - {i}" "span b' = span b" using clear_bit [OF assms(1)] by blast
  then show ?thesis using test_bit [of j b'] assms(2) by auto
qed

text \<open>A position is a member exactly when a search from it stops at it.\<close>

lemma next_bit_member: "i \<in> span b \<Longrightarrow> next_bit i b = Some (Some i) \<longleftrightarrow> i \<in> members b"
  using next_bit [of i b] by (force simp: is_least_def split: option.splits)

end

interpretation bs: bitset_ops bs_set bs_clear bs_test bs_next_set bs_abs "\<lambda>b. {..<64 * length b}"
proof unfold_locales
  fix i and b :: Bitset assume "i \<in> {..<64 * length b}"
  then have i: "i < 64 * length b" by simp
  show "\<exists>b'. bs_set i b = Some b' \<and> bs_abs b' = insert i (bs_abs b) \<and> {..<64 * length b'} = {..<64 * length b}"
  proof -
    obtain b' where "bs_set i b = Some b'" "length b' = length b" "\<And>j. bs_mem b' j \<longleftrightarrow> j = i \<or> bs_mem b j"
      by (rule bs_set_spec [OF i]) (rule that)
    then show ?thesis by (auto simp: bs_abs_def)
  qed
  show "\<exists>b'. bs_clear i b = Some b' \<and> bs_abs b' = bs_abs b - {i} \<and> {..<64 * length b'} = {..<64 * length b}"
  proof -
    obtain b' where "bs_clear i b = Some b'" "length b' = length b" "\<And>j. bs_mem b' j \<longleftrightarrow> j \<noteq> i \<and> bs_mem b j"
      by (rule bs_clear_spec [OF i]) (rule that)
    then show ?thesis by (auto simp: bs_abs_def)
  qed
  show "bs_test i b = Some (i \<in> bs_abs b)" using bs_test_spec [OF i] by (simp add: bs_abs_def)
  show "\<exists>r. bs_next_set i b = Some r \<and> is_least {j \<in> bs_abs b. i \<le> j} r" by (rule bs_next_set_spec [OF i])
qed

text \<open>
  Every operation of the bitset computes what it says on the set of positions, for any
  number of words: updates and tests of a position, the searches from either end and from a
  position, the enumeration, the count, the rank, and both shifts.
\<close>

theorem bitset_refines_sets:
  assumes "i < 64 * length b"
  shows "(\<exists>b'. bs_set i b = Some b' \<and> bs_abs b' = insert i (bs_abs b)) \<and>
     (\<exists>b'. bs_clear i b = Some b' \<and> bs_abs b' = bs_abs b - {i}) \<and>
     bs_test i b = Some (i \<in> bs_abs b) \<and>
     is_least (bs_abs b) (bs_first_set b) \<and>
     (\<exists>r. bs_next_set i b = Some r \<and> is_least {j \<in> bs_abs b. i \<le> j} r) \<and>
     (\<exists>r. bs_last_set b = Some r \<and> is_greatest (bs_abs b) r) \<and>
     bs_bits b = sorted_list_of_set (bs_abs b) \<and>
     bs_count_ones b = card (bs_abs b) \<and>
     bs_rank i b = card {j \<in> bs_abs b. j \<le> i} \<and>
     bs_abs (bs_shl_inplace k b) = {j. k \<le> j \<and> j < 64 * length b \<and> j - k \<in> bs_abs b} \<and>
     bs_abs (bs_shr_inplace k b) = {j. j + k \<in> bs_abs b}"
proof -
  have i: "i \<in> {..<64 * length b}" and ne: "b \<noteq> []" using assms by auto
  have "is_least (bs_abs b) (bs_first_set b)" using first_set_from_spec [of 0 b] by (simp add: bs_first_set_def)
  moreover have "\<exists>b'. bs_set i b = Some b' \<and> bs_abs b' = insert i (bs_abs b)" using bs.set_bit [OF i] by blast
  moreover have "\<exists>b'. bs_clear i b = Some b' \<and> bs_abs b' = bs_abs b - {i}" using bs.clear_bit [OF i] by blast
  ultimately show ?thesis
    by (intro conjI bs.test_bit [OF i] bs.next_bit [OF i] bs_last_set_spec [OF ne] bs_bits_spec bs_count_ones_spec
        bs_rank_spec bs_shl_spec bs_shr_spec)
qed

theorem bitset_refines_sets_witness:
  "bs_test 65 [5, 2] = Some (65 \<in> bs_abs [5, 2]) \<and> bs_bits [5, 2] = sorted_list_of_set (bs_abs [5, 2]) \<and>
   bs_rank 65 [5, 2] = card {j \<in> bs_abs [5, 2]. j \<le> 65}"
  using bitset_refines_sets [of 65 "[5, 2]" 1] by simp

text \<open>
  \<open>resize\<close> is documented to set or clear the bits it adds.  Shrinking keeps the low words,
  but growing never adds a bit: copying the words into the longer array panics.
\<close>

lemma resize_never_grows:
  "bs_resize m v b = (if m \<le> length b then Some (take m b) else None)"
  by (simp add: bs_resize_def Let_def)

end
