(* ===== verification/Array256.thy ===== *)
theory Array256
  imports Bitset
begin

text \<open>
  The sparse array \<open>Array256\<close> (\<open>ts_array256/src/lib.rs\<close>): a 256-bit occupancy set and the
  occupied elements in index order.  An operation whose indexing would panic in Rust is \<open>None\<close>;
  on well-formed arrays every operation is \<open>Some\<close> and acts on the map the array stands for.
\<close>

section \<open>Vectors of the standard library\<close>

definition vec_index :: "'a list \<Rightarrow> nat \<Rightarrow> 'a option" where
  [rust_std]: "vec_index xs k = (if k < length xs then Some (xs ! k) else None)"

definition vec_insert :: "nat \<Rightarrow> 'a \<Rightarrow> 'a list \<Rightarrow> 'a list option" where
  [rust_std]: "vec_insert k x xs = (if k \<le> length xs then Some (take k xs @ x # drop k xs) else None)"

definition vec_remove :: "nat \<Rightarrow> 'a list \<Rightarrow> ('a \<times> 'a list) option" where
  [rust_std]: "vec_remove k xs = (if k < length xs then Some (xs ! k, take k xs @ drop (Suc k) xs) else None)"

section \<open>The array\<close>

datatype 'a Array256 = Array256 (a_bitset: Bitset) (a_storage: "'a list")

definition a_EMPTY :: "'a Array256" where
  "a_EMPTY = Array256 (bs_EMPTY 4) []"

definition a_test :: "u8 \<Rightarrow> 'a Array256 \<Rightarrow> bool option" where
  "a_test i a = bs_test (unat i) (a_bitset a)"

definition a_intersects :: "'a Array256 \<Rightarrow> Bitset \<Rightarrow> bool" where
  "a_intersects a other = bs_intersects (a_bitset a) other"

definition a_intersection_top :: "'a Array256 \<Rightarrow> Bitset \<Rightarrow> u8 option" where
  "a_intersection_top a other = map_option of_nat (bs_intersection_top (a_bitset a) other)"

definition a_is_empty :: "'a Array256 \<Rightarrow> bool" where
  "a_is_empty a = bs_is_empty (a_bitset a)"

definition a_len :: "'a Array256 \<Rightarrow> nat" where
  "a_len a = length (a_storage a)"

definition storage_index :: "u8 \<Rightarrow> Bitset \<Rightarrow> nat option" where
  "storage_index i b = Option.bind (bs_rank256 (unat i) b) (\<lambda>r. if r = 0 then None else Some (r - 1))"

definition a_get :: "u8 \<Rightarrow> 'a Array256 \<Rightarrow> 'a option option" where
  "a_get i a =
     Option.bind (a_test i a) (\<lambda>occupied.
       if occupied
       then Option.bind (storage_index i (a_bitset a)) (\<lambda>k. map_option Some (vec_index (a_storage a) k))
       else Some None)"

text \<open>Writing through \<open>get_mut\<close>: the element, if there is one, is replaced by \<open>f\<close> of it.\<close>

definition a_get_mut :: "u8 \<Rightarrow> ('a \<Rightarrow> 'a) \<Rightarrow> 'a Array256 \<Rightarrow> 'a Array256 option" where
  "a_get_mut i f a =
     Option.bind (a_test i a) (\<lambda>occupied.
       if occupied
       then Option.bind (storage_index i (a_bitset a)) (\<lambda>k.
            Option.bind (vec_index (a_storage a) k) (\<lambda>x. Some (Array256 (a_bitset a) ((a_storage a)[k := f x]))))
       else Some a)"

definition a_insert :: "u8 \<Rightarrow> 'a \<Rightarrow> 'a Array256 \<Rightarrow> ('a option \<times> 'a Array256) option" where
  "a_insert i x a =
     Option.bind (a_test i a) (\<lambda>occupied.
       if occupied
       then Option.bind (storage_index i (a_bitset a)) (\<lambda>k.
            Option.bind (vec_index (a_storage a) k) (\<lambda>old.
              Some (Some old, Array256 (a_bitset a) ((a_storage a)[k := x]))))
       else Option.bind (bs_set (unat i) (a_bitset a)) (\<lambda>b.
            Option.bind (storage_index i b) (\<lambda>k.
            Option.bind (vec_insert k x (a_storage a)) (\<lambda>st. Some (None, Array256 b st)))))"

definition a_remove :: "u8 \<Rightarrow> 'a Array256 \<Rightarrow> ('a option \<times> 'a Array256) option" where
  "a_remove i a =
     (if length (a_storage a) = 0 then Some (None, a)
      else Option.bind (a_test i a) (\<lambda>occupied.
        if \<not> occupied then Some (None, a)
        else Option.bind (storage_index i (a_bitset a)) (\<lambda>k.
             Option.bind (vec_remove k (a_storage a)) (\<lambda>(x, st).
             Option.bind (bs_clear (unat i) (a_bitset a)) (\<lambda>b. Some (Some x, Array256 b st))))))"

definition a_clear :: "'a Array256 \<Rightarrow> 'a Array256" where
  "a_clear a = Array256 (bs_EMPTY 4) []"

definition a_iter :: "'a Array256 \<Rightarrow> (u8 \<times> 'a) list" where
  "a_iter a = zip (map of_nat (bs_bits (a_bitset a))) (a_storage a)"

definition a_iter_after :: "u8 \<Rightarrow> 'a Array256 \<Rightarrow> (u8 \<times> 'a) option list option" where
  "a_iter_after n a =
     map_option (map (\<lambda>idx.
       Option.bind (storage_index (of_nat idx) (a_bitset a)) (\<lambda>k.
       map_option (Pair (of_nat idx)) (vec_index (a_storage a) k)))) (bs_bits_after n (a_bitset a))"

definition a_clone_with :: "('a \<Rightarrow> 'a) \<Rightarrow> 'a Array256 \<Rightarrow> 'a Array256" where
  "a_clone_with f a = Array256 (a_bitset a) (map f (a_storage a))"

definition a_index :: "u8 \<Rightarrow> 'a Array256 \<Rightarrow> 'a option" where
  "a_index i a = Option.bind (a_get i a) id"

fun a_insert_all :: "'a Array256 \<Rightarrow> (u8 \<times> 'a) list \<Rightarrow> 'a Array256 option" where
  "a_insert_all ary [] = Some ary"
| "a_insert_all ary ((addr, item) # items) =
     Option.bind (a_insert addr item ary) (\<lambda>(_, ary'). a_insert_all ary' items)"

definition a_from_iter :: "(u8 \<times> 'a) list \<Rightarrow> 'a Array256 option" where
  "a_from_iter items = a_insert_all a_EMPTY items"

section \<open>The map an array stands for\<close>

definition a_keys :: "'a Array256 \<Rightarrow> nat list" where
  "a_keys a = sorted_list_of_set (bs_abs (a_bitset a))"

definition a_map :: "'a Array256 \<Rightarrow> nat \<rightharpoonup> 'a" where
  "a_map a = map_of (zip (a_keys a) (a_storage a))"

definition a_wf :: "'a Array256 \<Rightarrow> bool" where
  "a_wf a \<longleftrightarrow> length (a_bitset a) = 4 \<and> length (a_storage a) = card (bs_abs (a_bitset a))"

lemma a_keys_props [simp]:
  "set (a_keys a) = bs_abs (a_bitset a)" "distinct (a_keys a)" "sorted (a_keys a)"
  "length (a_keys a) = card (bs_abs (a_bitset a))"
  by (simp_all add: a_keys_def finite_bs_abs)

lemma dom_a_map: "a_wf a \<Longrightarrow> dom (a_map a) = bs_abs (a_bitset a)"
  by (simp add: a_map_def a_wf_def)

text \<open>Inserting into and removing from parallel lists of keys and values.\<close>

lemma map_of_zip_insert:
  assumes "length xs = length ys" and "i \<notin> set xs"
  shows "map_of (zip (take k xs @ i # drop k xs) (take k ys @ y # drop k ys)) = (map_of (zip xs ys))(i \<mapsto> y)"
proof -
  let ?m = "map_of (zip (take k xs) (take k ys))"
  have "i \<notin> dom ?m" using assms by (auto dest: in_set_takeD)
  moreover have "zip xs ys = zip (take k xs) (take k ys) @ zip (drop k xs) (drop k ys)"
    by (metis append_take_drop_id assms(1) length_take zip_append)
  moreover have "zip (take k xs @ i # drop k xs) (take k ys @ y # drop k ys) =
      zip (take k xs) (take k ys) @ (i, y) # zip (drop k xs) (drop k ys)" using assms(1) by simp
  ultimately show ?thesis by (simp only: map_of_append map_of.simps fst_conv snd_conv map_add_upd_left not_False_eq_True)
qed

lemma map_of_zip_decomp:
  assumes "length xs = length ys" and "distinct xs" and "k < length xs"
  shows "map_of (zip xs (ys[k := y])) = (map_of (zip (take k xs @ drop (Suc k) xs) (take k ys @ drop (Suc k) ys)))(xs ! k \<mapsto> y)"
    and "map_of (zip (take k xs @ drop (Suc k) xs) (take k ys @ drop (Suc k) ys)) (xs ! k) = None"
proof -
  have xs: "xs = take k xs @ xs ! k # drop (Suc k) xs" using assms(3) by (rule id_take_nth_drop)
  have "distinct (take k xs @ xs ! k # drop (Suc k) xs)" using assms(2) xs by simp
  then have nin: "xs ! k \<notin> set (take k xs @ drop (Suc k) xs)" by auto
  let ?xs = "take k xs @ drop (Suc k) xs" and ?ys = "take k ys @ drop (Suc k) ys"
  have len: "length ?xs = length ?ys" using assms(1) by simp
  have "zip xs (ys[k := y]) = zip (take k ?xs @ xs ! k # drop k ?xs) (take k ?ys @ y # drop k ?ys)"
    using assms(1,3) xs upd_conv_take_nth_drop [of k ys y] by simp
  then show "map_of (zip xs (ys[k := y])) = (map_of (zip ?xs ?ys))(xs ! k \<mapsto> y)"
    using map_of_zip_insert [OF len nin, of k y] by simp
  show "map_of (zip ?xs ?ys) (xs ! k) = None" using nin len by (simp add: map_of_zip_is_None)
qed

lemma map_of_zip_update:
  assumes "length xs = length ys" and "distinct xs" and "k < length xs"
  shows "map_of (zip xs (ys[k := y])) = (map_of (zip xs ys))(xs ! k \<mapsto> y)"
  using map_of_zip_decomp(1) [OF assms, of y] map_of_zip_decomp(1) [OF assms, of "ys ! k"] by simp

lemma map_of_zip_remove:
  assumes "length xs = length ys" and "distinct xs" and "k < length xs"
  shows "map_of (zip (take k xs @ drop (Suc k) xs) (take k ys @ drop (Suc k) ys)) = (map_of (zip xs ys))(xs ! k := None)"
  using map_of_zip_decomp(1) [OF assms, of "ys ! k"] map_of_zip_decomp(2) [OF assms] by (simp add: fun_upd_idem)

lemma sorted_split_at:
  assumes "sorted_wrt (<) (xs :: nat list)"
  shows "filter (\<lambda>j. j < i) xs = take (length (filter (\<lambda>j. j < i) xs)) xs"
proof -
  have "filter (\<lambda>j. j < i) xs = takeWhile (\<lambda>j. j < i) xs" using assms
  proof (induction xs)
    case (Cons x xs)
    then show ?case by (cases "x < i"; cases xs) (auto simp: filter_empty_conv)
  qed simp
  then show ?thesis by (metis takeWhile_eq_take)
qed

lemma set_take_drop: "set (take k xs) \<union> set (drop k xs) = set xs"
  by (metis append_take_drop_id set_append)

lemma sorted_list_of_set_eqI: "sorted_wrt (<) xs \<Longrightarrow> set xs = A \<Longrightarrow> sorted_list_of_set (A :: nat set) = xs"
  by (metis sorted_list_of_set.idem_if_sorted_distinct strict_sorted_iff)

lemma strict_sorted_drop_one:
  "sorted_wrt (<) (xs @ (i :: nat) # ys) \<Longrightarrow> sorted_wrt (<) (xs @ ys) \<and> i \<notin> set (xs @ ys)"
  by (auto simp: sorted_wrt_append)

lemma a_keys_strict: "sorted_wrt (<) (a_keys a)"
  by (simp add: a_keys_def)

text \<open>The rank of a position counts the keys up to it.\<close>

lemma rank_keys: "card {j \<in> bs_abs (a_bitset a). P j} = length (filter P (a_keys a))"
proof -
  have "{j \<in> bs_abs (a_bitset a). P j} = set (filter P (a_keys a))" by auto
  then show ?thesis by (simp only: distinct_card distinct_filter a_keys_props)
qed

lemma keys_nth_rank:
  assumes "i \<in> bs_abs (a_bitset a)"
  shows "length (filter (\<lambda>j. j < i) (a_keys a)) < length (a_keys a)"
    and "a_keys a ! length (filter (\<lambda>j. j < i) (a_keys a)) = i"
    and "card {j \<in> bs_abs (a_bitset a). j \<le> i} = Suc (length (filter (\<lambda>j. j < i) (a_keys a)))"
proof -
  let ?xs = "a_keys a" and ?k = "length (filter (\<lambda>j. j < i) (a_keys a))"
  obtain n where n: "n < length ?xs" "?xs ! n = i" using assms by (metis a_keys_props(1) in_set_conv_nth)
  have "?xs = take n ?xs @ i # drop (Suc n) ?xs" using id_take_nth_drop [OF n(1)] n(2) by simp
  moreover have "\<forall>j\<in>set (take n ?xs). j < i" "\<forall>j\<in>set (drop (Suc n) ?xs). i < j"
    using a_keys_strict [of a] by (metis calculation sorted_wrt_append list.set_intros(1), metis calculation sorted_wrt_append sorted_wrt.simps(2))
  ultimately have "filter (\<lambda>j. j < i) ?xs = take n ?xs"
    by (metis (mono_tags, lifting) append_Nil2 filter.simps(2) filter_False filter_True filter_append less_asym less_irrefl_nat)
  then have k: "?k = n" using n(1) by simp
  with n show "?k < length ?xs" "?xs ! ?k = i" by simp_all
  have "{j \<in> bs_abs (a_bitset a). j \<le> i} = insert i {j \<in> bs_abs (a_bitset a). j < i}" using assms by auto
  then show "card {j \<in> bs_abs (a_bitset a). j \<le> i} = Suc ?k"
    using finite_bs_abs [of "a_bitset a"] rank_keys [of a "\<lambda>j. j < i"] by simp
qed

lemma storage_index_member:
  assumes "length (a_bitset a) = 4" and "unat i \<in> bs_abs (a_bitset a)"
  shows "storage_index i (a_bitset a) = Some (length (filter (\<lambda>j. j < unat i) (a_keys a)))"
proof -
  have "unat i < 256" using unat_less_2pow [of i] by simp
  with keys_nth_rank(3) [OF assms(2)] show ?thesis
    by (simp add: storage_index_def bs_rank256_eq [OF assms(1)] bs_rank_spec)
qed

lemma a_test_spec: "a_wf a \<Longrightarrow> a_test i a = Some (unat i \<in> bs_abs (a_bitset a))"
proof -
  assume "a_wf a"
  then have "unat i < 64 * length (a_bitset a)" using unat_less_2pow [of i] by (simp add: a_wf_def)
  from bs_test_spec [OF this] show ?thesis by (simp add: a_test_def bs_abs_def)
qed

lemma a_map_member:
  assumes "a_wf a" and "i \<in> bs_abs (a_bitset a)"
  shows "a_map a i = Some (a_storage a ! length (filter (\<lambda>j. j < i) (a_keys a)))"
  unfolding a_map_def
  using keys_nth_rank(1,2) [OF assms(2)] assms(1)
  by (intro map_of_is_SomeI) (auto simp: a_wf_def in_set_conv_nth intro!: exI [of _ "length (filter (\<lambda>j. j < i) (a_keys a))"])

lemma a_get_spec:
  assumes "a_wf a"
  shows "a_get i a = Some (a_map a (unat i))"
proof (cases "unat i \<in> bs_abs (a_bitset a)")
  case True
  then show ?thesis
    using assms storage_index_member [OF _ True] keys_nth_rank(1) [OF True] a_map_member [OF assms True]
    by (simp add: a_get_def a_test_spec vec_index_def a_wf_def)
next
  case False
  then have "a_map a (unat i) = None" using dom_a_map [OF assms] by blast
  with False assms show ?thesis by (simp add: a_get_def a_test_spec)
qed

lemma a_insert_new:
  assumes wf: "a_wf a" and new: "unat i \<notin> bs_abs (a_bitset a)"
  shows "\<exists>a'. a_insert i x a = Some (None, a') \<and> a_wf a' \<and> a_map a' = (a_map a)(unat i \<mapsto> x)"
proof -
  let ?i = "unat i" and ?k = "length (filter (\<lambda>j. j < unat i) (a_keys a))"
  have "?i < 64 * length (a_bitset a)" using wf unat_less_2pow [of i] by (simp add: a_wf_def)
  then obtain b where b: "bs_set ?i (a_bitset a) = Some b" "length b = 4" and mem: "\<And>j. bs_mem b j \<longleftrightarrow> j = ?i \<or> bs_mem (a_bitset a) j"
    using wf by (metis bs_set_spec a_wf_def)
  have abs: "bs_abs b = insert ?i (bs_abs (a_bitset a))" using mem by (auto simp: bs_abs_def)
  let ?a = "Array256 b (take ?k (a_storage a) @ x # drop ?k (a_storage a))"
  have k: "?k \<le> length (a_storage a)" using wf length_filter_le [of "\<lambda>j. j < ?i" "a_keys a"] by (simp add: a_wf_def)
  have sorted: "take ?k (a_keys a) @ ?i # drop ?k (a_keys a) = a_keys ?a"
  proof -
    have tk: "filter (\<lambda>j. j < ?i) (a_keys a) = take ?k (a_keys a)" by (rule sorted_split_at [OF a_keys_strict])
    have lt: "\<forall>j\<in>set (take ?k (a_keys a)). j < ?i" unfolding tk [symmetric] by simp
    have gt: "\<forall>j\<in>set (drop ?k (a_keys a)). ?i < j"
    proof
      fix j assume j: "j \<in> set (drop ?k (a_keys a))"
      then have "j \<notin> set (take ?k (a_keys a))" using a_keys_props(2) [of a] by (metis append_take_drop_id disjoint_iff distinct_append)
      then have "\<not> j < ?i" using j unfolding tk [symmetric] by (auto dest: in_set_dropD)
      moreover have "j \<noteq> ?i" using j new by (metis a_keys_props(1) in_set_dropD)
      ultimately show "?i < j" by simp
    qed
    have st: "sorted_wrt (<) (take ?k (a_keys a))" "sorted_wrt (<) (drop ?k (a_keys a))"
      using a_keys_strict [of a] by (simp_all add: sorted_wrt_take sorted_wrt_drop)
    have "\<forall>x\<in>set (take ?k (a_keys a)). \<forall>y\<in>set (?i # drop ?k (a_keys a)). x < y"
      using lt gt by (metis less_trans set_ConsD)
    with st gt have "sorted_wrt (<) (take ?k (a_keys a) @ ?i # drop ?k (a_keys a))"
      unfolding sorted_wrt_append sorted_wrt.simps by blast
    moreover have "set (take ?k (a_keys a) @ ?i # drop ?k (a_keys a)) = bs_abs b"
      using set_take_drop [of ?k "a_keys a"] by (simp add: abs)
    ultimately show ?thesis using sorted_list_of_set_eqI by (simp only: a_keys_def [of ?a] Array256.sel)
  qed
  have wf': "a_wf ?a" using wf new b(2) k abs by (simp add: a_wf_def finite_bs_abs)
  have "a_map ?a = (a_map a)(?i \<mapsto> x)"
    using wf new map_of_zip_insert [of "a_keys a" "a_storage a" ?i ?k x]
    by (simp add: a_map_def sorted [symmetric] a_wf_def)
  moreover have "storage_index i b = Some ?k"
  proof -
    have eq: "filter (\<lambda>j. j < ?i) (a_keys ?a) = filter (\<lambda>j. j < ?i) (a_keys a)"
      unfolding sorted [symmetric] by (metis (no_types) append_take_drop_id filter.simps(2) filter_append less_irrefl_nat)
    show ?thesis using storage_index_member [of ?a i] b(2) abs eq by simp
  qed
  ultimately show ?thesis using wf wf' new b(1) k by (simp add: a_insert_def a_test_spec vec_insert_def)
qed

lemma a_update_present:
  assumes wf: "a_wf a" and i: "unat i \<in> bs_abs (a_bitset a)"
  defines "k \<equiv> length (filter (\<lambda>j. j < unat i) (a_keys a))"
  shows "a_wf (Array256 (a_bitset a) ((a_storage a)[k := x])) \<and>
    a_map (Array256 (a_bitset a) ((a_storage a)[k := x])) = (a_map a)(unat i \<mapsto> x)"
proof -
  have k: "k < length (a_keys a)" "a_keys a ! k = unat i" using keys_nth_rank(1,2) [OF i] by (simp_all add: k_def)
  have keys: "a_keys (Array256 (a_bitset a) ys) = a_keys a" for ys :: "'a list" by (simp add: a_keys_def)
  have len: "length (a_keys a) = length (a_storage a)" using wf by (simp add: a_wf_def)
  have "map_of (zip (a_keys a) ((a_storage a)[k := x])) = (map_of (zip (a_keys a) (a_storage a)))(a_keys a ! k \<mapsto> x)"
    using len k(1) by (intro map_of_zip_update) simp_all
  then show ?thesis using wf k(2) by (simp add: a_map_def keys a_wf_def)
qed

lemma a_insert_spec:
  assumes wf: "a_wf a"
  shows "\<exists>a'. a_insert i x a = Some (a_map a (unat i), a') \<and> a_wf a' \<and> a_map a' = (a_map a)(unat i \<mapsto> x)"
proof (cases "unat i \<in> bs_abs (a_bitset a)")
  case True
  then show ?thesis
    using a_update_present [OF wf True, of x] storage_index_member [OF _ True] keys_nth_rank(1) [OF True] a_map_member [OF wf True] wf
    by (simp add: a_insert_def a_test_spec vec_index_def a_wf_def)
next
  case False
  then have "a_map a (unat i) = None" using dom_a_map [OF wf] by blast
  with a_insert_new [OF wf False, of x] show ?thesis by simp
qed

lemma a_get_mut_spec:
  assumes wf: "a_wf a"
  shows "\<exists>a'. a_get_mut i f a = Some a' \<and> a_wf a' \<and> a_map a' = (a_map a)(unat i := map_option f (a_map a (unat i)))"
proof (cases "unat i \<in> bs_abs (a_bitset a)")
  case True
  then show ?thesis
    using a_update_present [OF wf True] storage_index_member [OF _ True] keys_nth_rank(1) [OF True] a_map_member [OF wf True] wf
    by (simp add: a_get_mut_def a_test_spec vec_index_def a_wf_def)
next
  case False
  then have "a_map a (unat i) = None" using dom_a_map [OF wf] by blast
  with False wf show ?thesis by (simp add: a_get_mut_def a_test_spec fun_upd_idem)
qed

lemma a_remove_present:
  assumes wf: "a_wf a" and i: "unat i \<in> bs_abs (a_bitset a)"
  shows "\<exists>a'. a_remove i a = Some (a_map a (unat i), a') \<and> a_wf a' \<and> a_map a' = (a_map a)(unat i := None)"
proof -
  let ?i = "unat i" and ?k = "length (filter (\<lambda>j. j < unat i) (a_keys a))"
  have k: "?k < length (a_keys a)" "a_keys a ! ?k = ?i" using keys_nth_rank(1,2) [OF i] by simp_all
  have len: "length (a_keys a) = length (a_storage a)" using wf by (simp add: a_wf_def)
  have "?i < 64 * length (a_bitset a)" using wf unat_less_2pow [of i] by (simp add: a_wf_def)
  then obtain b where b: "bs_clear ?i (a_bitset a) = Some b" "length b = 4" and mem: "\<And>j. bs_mem b j \<longleftrightarrow> j \<noteq> ?i \<and> bs_mem (a_bitset a) j"
    using wf by (metis bs_clear_spec a_wf_def)
  have abs: "bs_abs b = bs_abs (a_bitset a) - {?i}" using mem by (auto simp: bs_abs_def)
  let ?a = "Array256 b (take ?k (a_storage a) @ drop (Suc ?k) (a_storage a))"
  have split: "a_keys a = take ?k (a_keys a) @ ?i # drop (Suc ?k) (a_keys a)"
    using id_take_nth_drop [OF k(1)] k(2) by simp
  note one = strict_sorted_drop_one [OF subst [OF split, of "sorted_wrt (<)", OF a_keys_strict]]
  have "bs_abs (a_bitset a) = insert ?i (set (take ?k (a_keys a) @ drop (Suc ?k) (a_keys a)))"
    unfolding a_keys_props(1) [symmetric] by (subst (1) split) simp
  then have "set (take ?k (a_keys a) @ drop (Suc ?k) (a_keys a)) = bs_abs b" unfolding abs using one by blast
  then have keys: "a_keys ?a = take ?k (a_keys a) @ drop (Suc ?k) (a_keys a)"
    unfolding a_keys_def [of ?a] Array256.sel using one by (intro sorted_list_of_set_eqI) blast+
  have wf': "a_wf ?a" using wf i b(2) k(1) len abs by (simp add: a_wf_def finite_bs_abs)
  have "a_map ?a = (a_map a)(?i := None)"
    unfolding a_map_def keys Array256.sel using map_of_zip_remove [OF len _ k(1)] k(2) by simp
  moreover have "a_storage a \<noteq> []" using k(1) len by auto
  ultimately show ?thesis
    using wf wf' i b(1) k(1) len storage_index_member [OF _ i] a_map_member [OF wf i]
    by (simp add: a_remove_def a_test_spec vec_remove_def a_wf_def)
qed

lemma a_remove_spec:
  assumes wf: "a_wf a"
  shows "\<exists>a'. a_remove i a = Some (a_map a (unat i), a') \<and> a_wf a' \<and> a_map a' = (a_map a)(unat i := None)"
proof (cases "unat i \<in> bs_abs (a_bitset a)")
  case False
  then have "a_map a (unat i) = None" using dom_a_map [OF wf] by blast
  with False wf show ?thesis by (simp add: a_remove_def a_test_spec fun_upd_idem)
qed (rule a_remove_present [OF wf])

lemma a_iter_spec: "a_iter a = zip (map of_nat (a_keys a)) (a_storage a)"
  by (simp add: a_iter_def a_keys_def bs_bits_spec)

lemma a_EMPTY_map [simp]: "a_wf a_EMPTY" "a_map a_EMPTY = Map.empty"
  by (simp_all add: a_wf_def a_map_def a_EMPTY_def bs_EMPTY_abs)

lemma a_clear_map: "a_wf (a_clear a) \<and> a_map (a_clear a) = Map.empty"
  using a_EMPTY_map by (simp add: a_clear_def a_EMPTY_def)

lemma a_iter_after_spec:
  assumes wf: "a_wf a"
  shows "a_iter_after n a =
    Some (map (\<lambda>j. Some (of_nat j, the (a_map a j))) (sorted_list_of_set {j \<in> dom (a_map a). unat n < j}))"
proof -
  have len: "length (a_bitset a) = 4" using wf by (simp add: a_wf_def)
  have one: "Option.bind (storage_index (of_nat j) (a_bitset a)) (\<lambda>k. map_option (Pair (of_nat j)) (vec_index (a_storage a) k)) =
      Some (of_nat j :: u8, the (a_map a j))" if j: "j \<in> bs_abs (a_bitset a)" for j
  proof -
    have "j < 256" using bs_abs_less [OF j] len by simp
    then have u: "unat (of_nat j :: u8) = j" by (simp add: unat_of_nat take_bit_nat_eq_self)
    show ?thesis using storage_index_member [OF len, of "of_nat j"] keys_nth_rank(1) [OF j] a_map_member [OF wf j] j wf
      by (simp add: u vec_index_def a_wf_def)
  qed
  show ?thesis unfolding a_iter_after_def bs_bits_after_spec [OF len] dom_a_map [OF wf]
    using one by (simp add: finite_bs_abs)
qed

section \<open>The interface of a slot map\<close>

text \<open>
  What the routing tries rely on: \<open>look\<close>, \<open>put\<close> and \<open>del\<close> never panic on a
  well-formed array, act on the map it stands for, and keep it well-formed.
\<close>

locale slot_map =
  fixes inv :: "'m \<Rightarrow> bool" and amap :: "'m \<Rightarrow> nat \<rightharpoonup> 'a"
    and look :: "u8 \<Rightarrow> 'm \<Rightarrow> 'a option option"
    and put :: "u8 \<Rightarrow> 'a \<Rightarrow> 'm \<Rightarrow> ('a option \<times> 'm) option"
    and del :: "u8 \<Rightarrow> 'm \<Rightarrow> ('a option \<times> 'm) option"
  assumes look_map: "inv m \<Longrightarrow> look i m = Some (amap m (unat i))"
    and put_map: "inv m \<Longrightarrow> \<exists>m'. put i x m = Some (amap m (unat i), m') \<and> inv m' \<and> amap m' = (amap m)(unat i \<mapsto> x)"
    and del_map: "inv m \<Longrightarrow> \<exists>m'. del i m = Some (amap m (unat i), m') \<and> inv m' \<and> amap m' = (amap m)(unat i := None)"
begin

lemma putE:
  assumes "inv m"
  obtains m' where "put i x m = Some (amap m (unat i), m')" "inv m'" "amap m' = (amap m)(unat i \<mapsto> x)"
  using put_map [OF assms, of i x] by blast

lemma delE:
  assumes "inv m"
  obtains m' where "del i m = Some (amap m (unat i), m')" "inv m'" "amap m' = (amap m)(unat i := None)"
  using del_map [OF assms, of i] by blast

lemma look_put: "inv m \<Longrightarrow> put i x m = Some (old, m') \<Longrightarrow> look j m' = (if j = i then Some (Some x) else look j m)"
  by (rule putE [of m i x]) (auto simp: look_map word_unat_eq_iff)

lemma look_del: "inv m \<Longrightarrow> del i m = Some (old, m') \<Longrightarrow> look j m' = (if j = i then Some None else look j m)"
  by (rule delE [of m i]) (auto simp: look_map word_unat_eq_iff)

lemma del_put:
  assumes "inv m" and "amap m (unat i) = None" and "put i x m = Some (old, m')"
  shows "\<exists>m''. del i m' = Some (Some x, m'') \<and> amap m'' = amap m"
proof -
  obtain m1 where m1: "put i x m = Some (amap m (unat i), m1)" "inv m1" "amap m1 = (amap m)(unat i \<mapsto> x)"
    using putE [OF assms(1)] by blast
  obtain m2 where "del i m1 = Some (amap m1 (unat i), m2)" "amap m2 = (amap m1)(unat i := None)" using delE [OF m1(2)] by blast
  then show ?thesis using m1 assms(2,3) by (auto simp: fun_upd_idem)
qed

end

interpretation arr: slot_map a_wf a_map a_get a_insert a_remove
  by unfold_locales (simp_all add: a_get_spec a_insert_spec a_remove_spec)

lemma a_insert_all_spec:
  "a_wf a \<Longrightarrow> \<exists>a'. a_insert_all a items = Some a' \<and> a_wf a' \<and> a_map a' = a_map a ++ map_of (rev (map (apfst unat) items))"
proof (induction items arbitrary: a)
  case (Cons kv items)
  obtain k v where kv: "kv = (k, v)" by fastforce
  obtain a1 where a1: "a_insert k v a = Some (a_map a (unat k), a1)" "a_wf a1" "a_map a1 = (a_map a)(unat k \<mapsto> v)"
    using arr.putE [OF Cons.prems] by blast
  obtain a2 where "a_insert_all a1 items = Some a2" "a_wf a2" "a_map a2 = a_map a1 ++ map_of (rev (map (apfst unat) items))"
    using Cons.IH [OF a1(2)] by blast
  then show ?case by (intro exI [of _ a2]) (simp add: kv a1)
qed simp

text \<open>
  C26. The sparse array behaves as a map from 8-bit indices: \<open>get\<close>, \<open>insert\<close>, \<open>remove\<close>
  and writing through \<open>get_mut\<close> never panic and read or update exactly the given index,
  enumeration visits the occupied indices in increasing order, also from a given index, \<open>len\<close>
  counts them, the intersection with a bitset finds the highest common index, and collecting a
  sequence of pairs keeps the last value of each index.
\<close>

theorem array256_refines_map:
  assumes "a_wf a" and "length other = 4"
  shows "a_get i a = Some (a_map a (unat i)) \<and>
    (\<exists>a'. a_insert i x a = Some (a_map a (unat i), a') \<and> a_wf a' \<and> a_map a' = (a_map a)(unat i \<mapsto> x)) \<and>
    (\<exists>a'. a_remove i a = Some (a_map a (unat i), a') \<and> a_wf a' \<and> a_map a' = (a_map a)(unat i := None)) \<and>
    (\<exists>a'. a_get_mut i f a = Some a' \<and> a_wf a' \<and> a_map a' = (a_map a)(unat i := map_option f (a_map a (unat i)))) \<and>
    map (unat \<circ> fst) (a_iter a) = sorted_list_of_set (dom (a_map a)) \<and>
    a_iter_after i a = Some (map (\<lambda>j. Some (of_nat j, the (a_map a j))) (sorted_list_of_set {j \<in> dom (a_map a). unat i < j})) \<and>
    a_len a = card (dom (a_map a)) \<and> (a_is_empty a \<longleftrightarrow> a_map a = Map.empty) \<and>
    is_greatest (dom (a_map a) \<inter> bs_abs other) (map_option unat (a_intersection_top a other)) \<and>
    (\<exists>a'. a_from_iter items = Some a' \<and> a_wf a' \<and> a_map a' = map_of (rev (map (apfst unat) items)))"
proof -
  have len: "length (a_bitset a) = length other" "length (a_bitset a) = 4" using assms by (simp_all add: a_wf_def)
  have small: "unat (of_nat j :: u8) = j" if "j \<in> bs_abs (a_bitset a)" for j
    using bs_abs_less [OF that] len by (simp add: unat_of_nat take_bit_nat_eq_self)
  have "map (unat \<circ> fst) (a_iter a) = map (unat \<circ> (of_nat :: nat \<Rightarrow> u8)) (a_keys a)"
    using assms(1) by (simp add: a_iter_spec a_wf_def flip: map_map)
  also have "\<dots> = a_keys a" by (intro map_idI) (simp add: small)
  finally have iter: "map (unat \<circ> fst) (a_iter a) = sorted_list_of_set (dom (a_map a))"
    by (simp add: dom_a_map [OF assms(1)] a_keys_def)
  have "map_option unat (a_intersection_top a other) = bs_intersection_top (a_bitset a) other"
    using bs_intersection_top_spec [OF len(1)] small
    by (cases "bs_intersection_top (a_bitset a) other") (auto simp: a_intersection_top_def is_greatest_def)
  then have top: "is_greatest (dom (a_map a) \<inter> bs_abs other) (map_option unat (a_intersection_top a other))"
    using bs_intersection_top_spec [OF len(1)] by (simp add: dom_a_map [OF assms(1)])
  have "a_is_empty a \<longleftrightarrow> dom (a_map a) = {}" by (simp add: a_is_empty_def bs_is_empty_spec dom_a_map [OF assms(1)] del: dom_eq_empty_conv)
  then have empty: "a_is_empty a \<longleftrightarrow> a_map a = Map.empty" by simp
  have len': "a_len a = card (dom (a_map a))" using assms(1) by (simp add: dom_a_map a_len_def a_wf_def)
  have "\<exists>a'. a_from_iter items = Some a' \<and> a_wf a' \<and> a_map a' = map_of (rev (map (apfst unat) items))"
    using a_insert_all_spec [OF a_EMPTY_map(1), of items] by (simp add: a_from_iter_def)
  with iter top empty len' show ?thesis
    by (intro conjI a_get_spec a_insert_spec a_remove_spec a_get_mut_spec a_iter_after_spec assms)
qed

theorem array256_refines_map_witness:
  "\<exists>a. a_insert 7 ''x'' a_EMPTY = Some (None, a) \<and> a_map a = [7 \<mapsto> ''x''] \<and> a_get 9 a_EMPTY = Some (None :: string option)"
  using array256_refines_map [OF a_EMPTY_map(1), of "bs_EMPTY 4" 7 "''x''" id "[]"]
    array256_refines_map [OF a_EMPTY_map(1), of "bs_EMPTY 4" 9 "''x''" id "[]"] by (auto simp: bs_EMPTY_def)

end
