(* ===== verification/Bart_Index.thy ===== *)
theory Bart_Index
  imports Array256 "HOL-Library.Monad_Syntax" "HOL-Library.Sublist"
begin

text \<open>
  Base indices of the routing trie (\<open>ts_bart/src/base_index.rs\<close>), the longest-prefix-match
  masks (\<open>lpm.rs\<close>).  A prefix of at most seven bits
  inside one octet is the number whose binary digits are a one followed by the bits of the
  prefix; \<open>bidx\<close> is that numbering on bit strings, and the word-level functions of the source
  are proved to compute it.  A panic is \<open>None\<close>.
\<close>

section \<open>Base indices\<close>

type_synonym BaseIndex = u8

definition BaseIndex_try_new :: "u8 \<Rightarrow> BaseIndex option" where
  "BaseIndex_try_new val = (if val = 0 then None else Some val)"

definition BaseIndex_new :: "u8 \<Rightarrow> BaseIndex option" where
  "BaseIndex_new val = (case BaseIndex_try_new val of None \<Rightarrow> None | Some i \<Rightarrow> Some i)"

definition from_prefix :: "u8 \<Rightarrow> u8 \<Rightarrow> BaseIndex option" where
  "from_prefix octet prefix_len =
     (if prefix_len \<le> 7
      then BaseIndex_new (drop_bit (8 - unat prefix_len) octet + push_bit (unat prefix_len) 1)
      else None)"

definition from_pfx_7 :: "u8 \<Rightarrow> BaseIndex option" where
  "from_pfx_7 octet = BaseIndex_new (0x80 + drop_bit 1 octet)"

definition BaseIndex_len :: "BaseIndex \<Rightarrow> u8" where
  "BaseIndex_len i = of_nat (8 - leading_zeros i)"

definition BaseIndex_prefix :: "BaseIndex \<Rightarrow> u8 \<times> u8" where
  "BaseIndex_prefix i =
     (let pfx_len = BaseIndex_len i - 1;
          shift_bits = 8 - pfx_len;
          mask = drop_bit (unat shift_bits) 0xff;
          octet = push_bit (unat shift_bits) (i AND mask)
      in (octet, pfx_len))"

definition prefix_bits :: "BaseIndex \<Rightarrow> nat \<Rightarrow> u8" where
  "prefix_bits i depth =
     (let pfx_len_in_stride = BaseIndex_len i - 1;
          base_bits = depth * 8
      in of_nat base_bits + pfx_len_in_stride)"

definition net_mask :: "u8 \<Rightarrow> u8 option" where
  "net_mask bits = (if bits \<le> 8 then Some (push_bit (unat (8 - bits)) 0xff) else None)"

definition BaseIndex_range :: "BaseIndex \<Rightarrow> (u8 \<times> u8) option" where
  "BaseIndex_range i =
     (let (first, pfx_len) = BaseIndex_prefix i
      in map_option (\<lambda>m. (first, first OR NOT m)) (net_mask pfx_len))"

datatype Ordering = Less | Equal | Greater

definition cmp_u8 :: "u8 \<Rightarrow> u8 \<Rightarrow> Ordering" where
  [rust_std]: "cmp_u8 a b = (if a < b then Less else if a = b then Equal else Greater)"

definition cmp_rank :: "BaseIndex \<Rightarrow> BaseIndex \<Rightarrow> Ordering" where
  "cmp_rank i j =
     (let (a_octet, a_bits) = BaseIndex_prefix i; (b_octet, b_bits) = BaseIndex_prefix j
      in case cmp_u8 a_octet b_octet of Equal \<Rightarrow> cmp_u8 a_bits b_bits | c \<Rightarrow> c)"

definition BaseIndex_parent :: "BaseIndex \<Rightarrow> BaseIndex option option" where
  "BaseIndex_parent i = (if i = 1 then Some None else map_option Some (BaseIndex_new (i div 2)))"

definition BaseIndex_children :: "BaseIndex \<Rightarrow> (BaseIndex \<times> BaseIndex) option option" where
  "BaseIndex_children i =
     (if 128 \<le> i then Some None
      else do { l \<leftarrow> BaseIndex_new (i * 2); r \<leftarrow> BaseIndex_new (i * 2 + 1); Some (Some (l, r)) })"

section \<open>Masks\<close>

lemma unat_of_nat_u8: "n < 256 \<Longrightarrow> unat (of_nat n :: u8) = n"
  by (simp add: unat_of_nat take_bit_nat_eq_self)

lemma unat_drop_bit_div: "unat (drop_bit n (w :: 'a::len word)) = unat w div 2 ^ n"
  by (subst unat_drop_bit_eq) (rule drop_bit_eq_div)

function lpm_loop :: "u8 \<Rightarrow> Bitset \<Rightarrow> Bitset option" where
  "lpm_loop j entry =
     (if 0 < j then do { entry' \<leftarrow> bs_set (unat j) entry; lpm_loop (drop_bit 1 j) entry' } else Some entry)"
  by pat_completeness auto
termination
  by (relation "measure (unat \<circ> fst)") (auto simp: unat_drop_bit_div word_less_nat_alt)

declare lpm_loop.simps [simp del]

definition lpm_entry :: "u8 \<Rightarrow> Bitset option" where
  "lpm_entry i = lpm_loop i (bs_EMPTY 4)"

definition lpm_LUT :: "Bitset option list" where
  "lpm_LUT = Some (bs_EMPTY 4) # map (\<lambda>i. lpm_entry (of_nat i)) [1..<256]"

definition lpm :: "BaseIndex \<Rightarrow> Bitset option" where
  "lpm index = Option.bind (vec_index lpm_LUT (unat index)) id"

section \<open>Numbering bit strings\<close>

definition bidx :: "bool list \<Rightarrow> nat" where
  "bidx bs = foldl (\<lambda>n b. 2 * n + of_bool b) 1 bs"

definition byte_bits :: "u8 \<Rightarrow> bool list" where
  "byte_bits b = map (\<lambda>i. bit b (7 - i)) [0..<8]"

lemma bit_unat_iff: "bit (unat (w :: 'a::len word)) n \<longleftrightarrow> bit w n"
  using bit_imp_le_length [of w n] by (auto simp: bit_unsigned_iff)

lemma bidx_simps [simp]: "bidx [] = 1" "bidx (bs @ [b]) = 2 * bidx bs + of_bool b"
  by (simp_all add: bidx_def)

lemma bidx_bounds: "2 ^ length bs \<le> bidx bs \<and> bidx bs < 2 ^ Suc (length bs)"
  by (induction bs rule: rev_induct) auto

lemma bidx_pos [simp]: "0 < bidx bs"
  using bidx_bounds [of bs] by (metis le_zero_eq not_gr_zero power_eq_0_iff zero_neq_numeral)

lemma bidx_inject [simp]: "bidx as = bidx bs \<longleftrightarrow> as = bs"
proof
  assume "bidx as = bidx bs"
  then show "as = bs"
  proof (induction as arbitrary: bs rule: rev_induct)
    case Nil
    have "Suc 0 \<noteq> 2 * n + of_bool c" if "0 < n" for n c using that by (cases c) simp_all
    with Nil show ?case by (cases bs rule: rev_cases) auto
  next
    case (snoc a as)
    have *: "bidx as = bidx cs \<and> a = c" if "2 * bidx as + of_bool a = 2 * bidx cs + of_bool c" for cs c
      using that by (cases a; cases c) (simp_all, presburger+)
    have "2 * bidx as + of_bool a \<noteq> Suc 0" using bidx_pos [of as] by (cases a) (simp_all del: bidx_pos)
    then show ?case using snoc by (cases bs rule: rev_cases) (auto dest: *)
  qed
qed simp

lemma bidx_parent: "bs \<noteq> [] \<Longrightarrow> bidx (butlast bs) = bidx bs div 2"
  by (cases bs rule: rev_cases) auto

lemma bidx_mono_length: "length as < length bs \<Longrightarrow> bidx as < bidx bs"
proof -
  assume l: "length as < length bs"
  have "bidx as < 2 ^ Suc (length as)" "2 ^ length bs \<le> bidx bs" using bidx_bounds by blast+
  moreover have "(2::nat) ^ Suc (length as) \<le> 2 ^ length bs" using l by (intro power_increasing) auto
  ultimately show ?thesis by linarith
qed

lemma bidx_surj:
  assumes "0 < n"
  obtains bs where "bidx bs = n"
proof -
  have "\<exists>bs. bidx bs = n" using assms
  proof (induction n rule: less_induct)
    case (less n)
    show ?case
    proof (cases "n = 1")
      case True
      then show ?thesis by (intro exI [of _ "[]"]) simp
    next
      case False
      with less.prems obtain bs where "bidx bs = n div 2" using less.IH [of "n div 2"] by force
      then have "bidx (bs @ [odd n]) = n" using less.prems by (simp add: of_bool_def)
      then show ?thesis by blast
    qed
  qed
  then show ?thesis using that by blast
qed

lemma length_byte_bits [simp]: "length (byte_bits b) = 8"
  by (simp add: byte_bits_def)

lemma bidx_byte_bits: "n \<le> 8 \<Longrightarrow> bidx (take n (byte_bits b)) = 2 ^ n + unat b div 2 ^ (8 - n)"
proof (induction n)
  case 0
  then show ?case using unat_less_2pow [of b] by simp
next
  case (Suc n)
  have "take (Suc n) (byte_bits b) = take n (byte_bits b) @ [bit b (7 - n)]"
    using Suc.prems by (simp add: take_Suc_conv_app_nth byte_bits_def)
  then have "bidx (take (Suc n) (byte_bits b)) = 2 * (2 ^ n + unat b div 2 ^ (8 - n)) + of_bool (bit b (7 - n))"
    using Suc by simp
  also have "8 - n = Suc (7 - n)" using Suc.prems by simp
  also have "2 * (2 ^ n + unat b div 2 ^ Suc (7 - n)) + of_bool (bit b (7 - n)) = 2 ^ Suc n + unat b div 2 ^ (7 - n)"
  proof -
    have "of_bool (bit b (7 - n)) = (unat b div 2 ^ (7 - n)) mod 2"
      unfolding bit_unat_iff [symmetric] bit_iff_odd by (rule of_bool_odd_eq_mod_2)
    moreover have "unat b div 2 ^ Suc (7 - n) = unat b div 2 ^ (7 - n) div 2" by (metis div_mult2_eq power_Suc2)
    ultimately show ?thesis by simp
  qed
  finally show ?case by simp
qed

lemma byte_bits_inject [simp]: "byte_bits a = byte_bits b \<longleftrightarrow> a = b"
proof
  assume "byte_bits a = byte_bits b"
  then show "a = b" using bidx_byte_bits [of 8 a] bidx_byte_bits [of 8 b] by (simp add: word_unat_eq_iff)
qed simp

lemma byte_bits_surj:
  assumes "length bs = 8"
  obtains b where "byte_bits b = bs"
proof -
  obtain m where m: "bidx bs = 256 + m" "m < 256"
    using bidx_bounds [of bs] assms le_Suc_ex [of 256 "bidx bs"] by force
  then have "bidx (byte_bits (of_nat m)) = bidx bs"
    using bidx_byte_bits [of 8 "of_nat m"] by (simp add: unat_of_nat take_bit_nat_eq_self)
  then show ?thesis using that by simp
qed


section \<open>What the word-level functions compute\<close>

lemma bidx_div: "bs \<noteq> [] \<Longrightarrow> k \<le> length bs \<Longrightarrow> bidx bs div 2 ^ k = bidx (take (length bs - k) bs)"
proof (induction k)
  case (Suc k)
  have "bidx bs div 2 ^ Suc k = bidx (take (length bs - k) bs) div 2" using Suc by (metis Suc_leD div_mult2_eq power_Suc2)
  also have "\<dots> = bidx (butlast (take (length bs - k) bs))" using Suc.prems by (subst bidx_parent) auto
  also have "butlast (take (length bs - k) bs) = take (length bs - Suc k) bs" using Suc.prems by (simp add: butlast_take)
  finally show ?case .
qed simp

lemma BaseIndex_len_spec:
  assumes "unat i = bidx bs"
  shows "unat (BaseIndex_len i) = Suc (length bs)" and "length bs \<le> 7"
proof -
  have i0: "i \<noteq> 0" using assms by (metis bidx_pos less_irrefl unat_0)
  have b: "2 ^ length bs \<le> unat i" "unat i < 2 ^ Suc (length bs)" using bidx_bounds [of bs] assms by simp_all
  have "(2 :: nat) ^ length bs < 2 ^ 8" using b(1) unat_less_2pow [of i] by simp
  then show l: "length bs \<le> 7" using power_less_imp_less_exp [of "2 :: nat" "length bs" 8] by simp
  have "unat i div 2 ^ length bs = 1" using b by (simp add: div_nat_eqI)
  then have top: "bit i (length bs)" unfolding bit_unat_iff [symmetric] by (simp add: bit_iff_odd)
  have "m \<le> length bs" if "bit i m" for m
  proof (rule ccontr)
    assume "\<not> m \<le> length bs"
    then have "(2 :: nat) ^ Suc (length bs) \<le> 2 ^ m" by (intro power_increasing) simp_all
    then have "unat i div 2 ^ m = 0" using b(2) by simp
    then show False using that unfolding bit_unat_iff [symmetric] by (simp add: bit_iff_odd)
  qed
  then have "bit_len i - 1 = length bs" using bit_len_props(3,4) [OF i0] top by (meson antisym)
  then have "bit_len i = Suc (length bs)" using bit_len_props(1) [OF i0] by simp
  then show "unat (BaseIndex_len i) = Suc (length bs)"
    using l unat_of_nat_u8 [of "Suc (length bs)"] by (simp add: BaseIndex_len_def bit_len_def del: of_nat_Suc)
qed

lemma from_prefix_spec:
  assumes "unat plen \<le> 7"
  obtains i where "from_prefix octet plen = Some i" and "unat i = bidx (take (unat plen) (byte_bits octet))"
proof
  let ?n = "unat plen" and ?i = "drop_bit (8 - unat plen) octet + push_bit (unat plen) 1"
  have "(2 :: nat) ^ ?n \<le> 2 ^ 7" using assms by (intro power_increasing) simp_all
  moreover have p: "unat (push_bit ?n 1 :: u8) = 2 ^ ?n" using \<open>2 ^ ?n \<le> 2 ^ 7\<close> unat_of_nat_u8 [of "2 ^ ?n"] by (simp add: push_bit_eq_mult)
  moreover have "unat octet div 2 ^ (8 - ?n) < 2 ^ ?n"
    using unat_less_2pow [of octet] assms by (simp add: div_less_iff_less_mult flip: power_add)
  ultimately have "unat ?i = unat octet div 2 ^ (8 - ?n) + 2 ^ ?n"
    by (subst unat_plus_simple [THEN iffD1]) (simp_all add: unat_drop_bit_div no_olen_add_nat)
  then show i: "unat ?i = bidx (take ?n (byte_bits octet))" using assms by (simp add: bidx_byte_bits)
  then have "?i \<noteq> 0" by (metis bidx_pos less_irrefl unat_0)
  then show "from_prefix octet plen = Some ?i"
    using assms by (simp add: from_prefix_def BaseIndex_new_def BaseIndex_try_new_def word_le_nat_alt)
qed

lemma from_pfx_7_spec:
  obtains i where "from_pfx_7 octet = Some i" and "unat i = bidx (take 7 (byte_bits octet))"
proof -
  have u7: "unat (7 :: u8) = 7" using unat_of_nat_u8 [of 7] by simp
  have "from_prefix octet 7 = from_pfx_7 octet"
    unfolding from_prefix_def from_pfx_7_def u7 by (simp add: add.commute push_bit_eq_mult)
  with from_prefix_spec [of 7 octet] that show ?thesis unfolding u7 by auto
qed

lemma byte_bits_nth: "i < 8 \<Longrightarrow> byte_bits b ! i = bit b (7 - i)"
  by (simp add: byte_bits_def)

lemma bit_bidx:
  assumes "unat i = bidx bs" and "m < length bs"
  shows "bit i (length bs - 1 - m) \<longleftrightarrow> bs ! m"
proof -
  have "bidx bs div 2 ^ (length bs - 1 - m) = bidx (take (Suc m) bs)" using bidx_div [of bs "length bs - 1 - m"] assms(2) by (cases bs) auto
  also have "\<dots> = 2 * bidx (take m bs) + of_bool (bs ! m)" using assms(2) by (simp add: take_Suc_conv_app_nth)
  finally show ?thesis unfolding bit_unat_iff [symmetric] by (simp add: assms(1) bit_iff_odd)
qed

lemma BaseIndex_prefix_spec:
  assumes "unat i = bidx bs"
  obtains octet where "BaseIndex_prefix i = (octet, of_nat (length bs))"
    and "byte_bits octet = bs @ replicate (8 - length bs) False"
proof -
  let ?n = "length bs"
  have n: "?n \<le> 7" and len: "BaseIndex_len i - 1 = of_nat ?n"
    using BaseIndex_len_spec [OF assms] by (simp_all add: word_unat_eq_iff unat_sub word_le_nat_alt unat_of_nat_u8)
  have sh: "unat (8 - of_nat ?n :: u8) = 8 - ?n" using n by (simp add: unat_sub word_le_nat_alt unat_of_nat_u8)
  define octet where "octet = push_bit (8 - ?n) (i AND drop_bit (8 - ?n) 0xff)"
  have bits: "bit octet m \<longleftrightarrow> 8 - ?n \<le> m \<and> m < 8 \<and> bit i (m - (8 - ?n))" for m
  proof -
    have "(0xff :: u8) = - 1" by simp
    then have "octet = push_bit (8 - ?n) (i AND drop_bit (8 - ?n) (- 1))" by (simp only: octet_def)
    then show ?thesis using n by (auto simp: bit_simps)
  qed
  have "byte_bits octet ! m = (bs @ replicate (8 - ?n) False) ! m" if "m < 8" for m
  proof (cases "m < ?n")
    case True
    then have "7 - m - (8 - ?n) = ?n - 1 - m" "8 - ?n \<le> 7 - m" "7 - m < 8" using n by simp_all
    with True n bit_bidx [OF assms True] show ?thesis by (simp add: byte_bits_nth bits nth_append)
  next
    case False
    then have "\<not> 8 - ?n \<le> 7 - m" using n by linarith
    with False that n show ?thesis by (simp add: byte_bits_nth bits nth_append)
  qed
  then have "byte_bits octet = bs @ replicate (8 - ?n) False" using n by (intro nth_equalityI) simp_all
  moreover have "BaseIndex_prefix i = (octet, of_nat ?n)" by (simp add: BaseIndex_prefix_def Let_def len sh octet_def)
  ultimately show ?thesis using that by blast
qed

lemma lpm_loop_spec:
  "unat j = bidx bs \<Longrightarrow> length entry = 4 \<Longrightarrow>
   \<exists>e. lpm_loop j entry = Some e \<and> length e = 4 \<and> bs_abs e = bs_abs entry \<union> {bidx p | p. Sublist.prefix p bs}"
proof (induction bs arbitrary: j entry rule: rev_induct)
  case Nil
  then have j: "j = 1" by (simp add: word_unat_eq_iff)
  obtain e where "bs_set 1 entry = Some e" "length e = 4" "\<And>k. bs_mem e k \<longleftrightarrow> k = 1 \<or> bs_mem entry k"
    using bs_set_spec [of 1 entry] Nil.prems(2) by auto
  then show ?case by (simp add: j lpm_loop.simps [of 1] lpm_loop.simps [of 0] bs_abs_def) blast
next
  case (snoc b bs)
  have j: "0 < j" "unat j < 256" using snoc.prems(1) unat_less_2pow [of j] by (simp_all add: word_less_nat_alt)
  obtain e where e: "bs_set (unat j) entry = Some e" "length e = 4" "\<And>k. bs_mem e k \<longleftrightarrow> k = unat j \<or> bs_mem entry k"
    using bs_set_spec [of "unat j" entry] snoc.prems(2) j(2) by auto
  have "unat (drop_bit 1 j) = bidx bs" using snoc.prems(1) by (simp add: unat_drop_bit_div)
  from snoc.IH [OF this e(2)] obtain e' where e': "lpm_loop (drop_bit 1 j) e = Some e'" "length e' = 4"
    "bs_abs e' = bs_abs e \<union> {bidx p | p. Sublist.prefix p bs}" by blast
  have "bs_abs e = insert (bidx (bs @ [b])) (bs_abs entry)" using e(3) snoc.prems(1) by (auto simp: bs_abs_def)
  moreover have "{bidx p | p. Sublist.prefix p (bs @ [b])} = insert (bidx (bs @ [b])) {bidx p | p. Sublist.prefix p bs}"
    by (auto simp: prefix_snoc simp del: bidx_simps(2))
  ultimately show ?case using e' e(1) j(1) by (subst lpm_loop.simps) simp
qed

lemma lpm_spec:
  assumes "unat i = bidx bs"
  obtains b where "lpm i = Some b" and "length b = 4" and "bs_abs b = {bidx p | p. Sublist.prefix p bs}"
proof -
  have "0 < unat i" "unat i < 256" using assms unat_less_2pow [of i] by simp_all
  then have "lpm i = lpm_entry i"
    using nth_upt [of 1 "unat i - 1" 256] by (simp add: lpm_def vec_index_def lpm_LUT_def nth_Cons')
  moreover obtain e where "lpm_loop i (bs_EMPTY 4) = Some e" "length e = 4" "bs_abs e = {} \<union> {bidx p | p. Sublist.prefix p bs}"
    using lpm_loop_spec [OF assms, of "bs_EMPTY 4"] by auto
  ultimately show ?thesis using that by (simp add: lpm_entry_def)
qed

end
