(* ===== verification/Bart_Net.thy ===== *)
theory Bart_Net
  imports Bart_Index Packet
begin

text \<open>
  IP prefixes.  The type of prefixes and its operations come from the crate \<open>ipnet\<close> and are a
  parameter of the model: the record \<open>ipnet\<close> holds the operations the routing trie calls, and
  \<open>ipnet_ok\<close> states their documented behaviour.  The helper functions of
  \<open>ts_bart/src/iptrie/util.rs\<close> are defined over it.  Octets of an address are read most
  significant bit first, so a prefix of length \<open>n\<close> is the string of its first \<open>n\<close> bits.
\<close>

section \<open>Addresses\<close>

definition ip_octets :: "IpAddr \<Rightarrow> bytes" where
  "ip_octets ip = (case ip of V4 v4 \<Rightarrow> take 4 v4 | V6 v6 \<Rightarrow> take 16 v6)"

definition is_ipv4 :: "IpAddr \<Rightarrow> bool" where
  [rust_std]: "is_ipv4 ip = (case ip of V4 _ \<Rightarrow> True | V6 _ \<Rightarrow> False)"

definition ip_width :: "bool \<Rightarrow> nat" where
  "ip_width v4 = (if v4 then 4 else 16)"

definition ip_wf :: "IpAddr \<Rightarrow> bool" where
  "ip_wf ip = (case ip of V4 v4 \<Rightarrow> length v4 = 4 | V6 v6 \<Rightarrow> length v6 = 16)"

definition octet_bits :: "bytes \<Rightarrow> bool list" where
  "octet_bits os = concat (map byte_bits os)"

definition ip_bits :: "IpAddr \<Rightarrow> bool list" where
  "ip_bits ip = octet_bits (ip_octets ip)"

section \<open>The prefix library\<close>

record 'n ipnet =
  net_addr :: "'n \<Rightarrow> IpAddr"
  net_len :: "'n \<Rightarrow> u8"
  net_trunc :: "'n \<Rightarrow> 'n"
  net_contains :: "'n \<Rightarrow> IpAddr \<Rightarrow> bool"
  net_new_assert :: "IpAddr \<Rightarrow> u8 \<Rightarrow> 'n option"

definition net_bits :: "'n ipnet \<Rightarrow> 'n \<Rightarrow> bool list" where
  "net_bits N p = take (unat (net_len N p)) (ip_bits (net_addr N p))"

text \<open>
  A prefix holds an address and a length that fits it and is determined by them; \<open>trunc\<close> clears
  the bits behind the length; \<open>contains\<close> compares the leading bits of an address of the same
  family; \<open>new_assert\<close> panics exactly on a length that does not fit.
\<close>

definition net_fits :: "'n ipnet \<Rightarrow> 'n \<Rightarrow> bool" where
  "net_fits N p \<longleftrightarrow> ip_wf (net_addr N p) \<and> unat (net_len N p) \<le> length (ip_bits (net_addr N p))"

definition ipnet_ok :: "'n ipnet \<Rightarrow> bool" where
  "ipnet_ok N \<longleftrightarrow>
     (\<forall>p. net_fits N p) \<and>
     (\<forall>p q. net_addr N p = net_addr N q \<longrightarrow> net_len N p = net_len N q \<longrightarrow> p = q) \<and>
     (\<forall>p. net_len N (net_trunc N p) = net_len N p \<and> is_ipv4 (net_addr N (net_trunc N p)) = is_ipv4 (net_addr N p) \<and>
        ip_bits (net_addr N (net_trunc N p)) =
          net_bits N p @ replicate (length (ip_bits (net_addr N p)) - unat (net_len N p)) False) \<and>
     (\<forall>p ip. ip_wf ip \<longrightarrow> net_contains N p ip =
        (is_ipv4 ip = is_ipv4 (net_addr N p) \<and> take (unat (net_len N p)) (ip_bits ip) = net_bits N p)) \<and>
     (\<forall>ip n. ip_wf ip \<longrightarrow> unat n \<le> length (ip_bits ip) \<longrightarrow>
        (\<exists>p. net_new_assert N ip n = Some p \<and> net_addr N p = ip \<and> net_len N p = n))"

section \<open>Helpers of the trie\<close>

definition MAX_DEPTH :: nat where "MAX_DEPTH = 16"

definition DEPTH_MASK :: nat where "DEPTH_MASK = MAX_DEPTH - 1"

definition stride_count_and_overflow :: "'n ipnet \<Rightarrow> 'n \<Rightarrow> nat \<times> u8" where
  "stride_count_and_overflow N p = (let len = net_len N p in (unat (len div 8), len mod 8))"

definition is_fringe :: "'n ipnet \<Rightarrow> nat \<Rightarrow> 'n \<Rightarrow> bool option" where
  "is_fringe N depth p =
     (let (octet_count, overflow_bits) = stride_count_and_overflow N p
      in if octet_count = 0 then None else Some (depth = octet_count - 1 \<and> overflow_bits = 0))"

definition ip_from_path :: "bytes \<Rightarrow> bool \<Rightarrow> IpAddr" where
  "ip_from_path path is4 = (if is4 then V4 (take 4 path) else V6 path)"

definition prefix_from_path :: "'n ipnet \<Rightarrow> bytes \<Rightarrow> nat \<Rightarrow> bool \<Rightarrow> BaseIndex \<Rightarrow> 'n option" where
  "prefix_from_path N path_octets depth0 ipv4 idx =
     (let depth = depth0 AND DEPTH_MASK;
          (octet, idx_len) = BaseIndex_prefix idx;
          octet_depth = min (length path_octets) depth;
          path = (take octet_depth path_octets @ replicate (MAX_DEPTH - octet_depth) 0)[depth := octet]
      in net_new_assert N (ip_from_path path ipv4) (of_nat depth * 8 + idx_len))"

definition fringe_prefix :: "'n ipnet \<Rightarrow> bytes \<Rightarrow> nat \<Rightarrow> bool \<Rightarrow> u8 \<Rightarrow> 'n option" where
  "fringe_prefix N path_octets depth0 ipv4 last_octet =
     (let depth = depth0 AND DEPTH_MASK;
          path = map (\<lambda>i. if depth < i then 0 else if i = depth then last_octet
                          else if i < length path_octets then path_octets ! i else 0) [0..<MAX_DEPTH];
          ip = ip_from_path path ipv4;
          bits = (depth + 1) * 8
      in net_new_assert N ip (of_nat bits))"

section \<open>Bit strings of addresses and prefixes\<close>

lemma octet_bits_simps [simp]:
  "octet_bits [] = []" "octet_bits (o1 # os) = byte_bits o1 @ octet_bits os"
  "octet_bits (as @ bs) = octet_bits as @ octet_bits bs" "length (octet_bits os) = 8 * length os"
  by (induction os) (simp_all add: octet_bits_def)

lemma drop_octet_bits: "drop (8 * d) (octet_bits os) = octet_bits (drop d os)"
proof (induction d arbitrary: os)
  case (Suc d)
  then show ?case by (cases os) simp_all
qed simp

lemma take_octet_bits: "take (8 * d) (octet_bits os) = octet_bits (take d os)"
proof (induction d arbitrary: os)
  case (Suc d)
  then show ?case by (cases os) simp_all
qed simp

lemma octet_bits_inject: "length as = length bs \<Longrightarrow> octet_bits as = octet_bits bs \<longleftrightarrow> as = bs"
  by (induction as bs rule: list_induct2) auto

lemma ip_wf_octets: "ip_wf ip \<Longrightarrow> length (ip_octets ip) = ip_width (is_ipv4 ip)"
  by (cases ip) (simp_all add: ip_wf_def ip_octets_def ip_width_def is_ipv4_def)

lemma ip_wf_bits: "ip_wf ip \<Longrightarrow> length (ip_bits ip) = 8 * ip_width (is_ipv4 ip)"
  by (simp add: ip_bits_def ip_wf_octets)

lemma ip_width_bounds: "ip_width v4 \<le> 16" "0 < ip_width v4"
  by (simp_all add: ip_width_def)

lemma length_ip_octets: "length (ip_octets ip) \<le> 16"
  by (cases ip) (simp_all add: ip_octets_def)

lemma ip_bits_inject:
  assumes "ip_wf a" "ip_wf b" "is_ipv4 a = is_ipv4 b" "ip_bits a = ip_bits b"
  shows "a = b"
proof -
  have "ip_octets a = ip_octets b" using assms ip_wf_octets [of a] ip_wf_octets [of b] by (simp add: ip_bits_def octet_bits_inject)
  with assms show ?thesis by (cases a; cases b) (simp_all add: ip_wf_def ip_octets_def is_ipv4_def)
qed

text \<open>\<open>rel N p d\<close> is what remains of a prefix below depth \<open>d\<close> of the trie.\<close>

definition rel :: "'n ipnet \<Rightarrow> 'n \<Rightarrow> nat \<Rightarrow> bool list" where
  "rel N p d = drop (8 * d) (net_bits N p)"

lemma ipnet_okD:
  assumes "ipnet_ok N"
  shows "net_fits N p"
    and "net_addr N p = net_addr N q \<Longrightarrow> net_len N p = net_len N q \<Longrightarrow> p = q"
    and "ip_wf ip \<Longrightarrow> net_contains N p ip =
      (is_ipv4 ip = is_ipv4 (net_addr N p) \<and> take (unat (net_len N p)) (ip_bits ip) = net_bits N p)"
    and "ip_wf ip \<Longrightarrow> unat n \<le> length (ip_bits ip) \<Longrightarrow>
      \<exists>p. net_new_assert N ip n = Some p \<and> net_addr N p = ip \<and> net_len N p = n"
    and "net_len N (net_trunc N p) = net_len N p"
    and "is_ipv4 (net_addr N (net_trunc N p)) = is_ipv4 (net_addr N p)"
    and "ip_bits (net_addr N (net_trunc N p)) =
          net_bits N p @ replicate (length (ip_bits (net_addr N p)) - unat (net_len N p)) False"
  using assms unfolding ipnet_ok_def by blast+

lemma net_bits_length: "net_fits N p \<Longrightarrow> length (net_bits N p) = unat (net_len N p)"
  by (simp add: net_bits_def net_fits_def)

lemma strides:
  assumes "net_fits N p"
  obtains s ov where "stride_count_and_overflow N p = (s, ov)" and "unat ov < 8"
    and "length (net_bits N p) = 8 * s + unat ov" and "s \<le> ip_width (is_ipv4 (net_addr N p))"
    and "s = ip_width (is_ipv4 (net_addr N p)) \<Longrightarrow> ov = 0"
proof -
  let ?l = "net_len N p"
  have u8: "unat (8 :: u8) = 8" using unat_of_nat_u8 [of 8] by simp
  have d: "unat (?l div 8) = unat ?l div 8" "unat (?l mod 8) = unat ?l mod 8" using unat_div [of ?l 8] unat_mod [of ?l 8] u8 by simp_all
  have le: "unat ?l \<le> 8 * ip_width (is_ipv4 (net_addr N p))" using assms ip_wf_bits [of "net_addr N p"] by (auto simp: net_fits_def)
  show ?thesis
  proof (rule that [of "unat (?l div 8)" "?l mod 8"])
    show "stride_count_and_overflow N p = (unat (?l div 8), ?l mod 8)" by (simp add: stride_count_and_overflow_def Let_def)
    show "unat (?l mod 8) < 8" by (simp add: d)
    show "length (net_bits N p) = 8 * unat (?l div 8) + unat (?l mod 8)" using net_bits_length [OF assms] by (simp add: d)
    show "unat (?l div 8) \<le> ip_width (is_ipv4 (net_addr N p))" using le by (simp add: d)
    show "?l mod 8 = 0" if "unat (?l div 8) = ip_width (is_ipv4 (net_addr N p))"
      using that le d by (metis add_cancel_left_right antisym_conv le_add1 mult_div_mod_eq nle_le unat_eq_zero)
  qed
qed

lemma rel_take:
  assumes "net_fits N p"
  shows "rel N p d = take (length (net_bits N p) - 8 * d) (octet_bits (drop d (ip_octets (net_addr N p))))"
  using net_bits_length [OF assms] by (simp add: rel_def net_bits_def drop_take ip_bits_def flip: drop_octet_bits)

lemma rel_below:
  assumes "net_fits N p" and "stride_count_and_overflow N p = (s, ov)" and "d < s"
  shows "rel N p d = byte_bits (ip_octets (net_addr N p) ! d) @ rel N p (Suc d)"
    and "is_fringe N d p = Some (rel N p (Suc d) = [])"
    and "d < length (ip_octets (net_addr N p))"
proof -
  obtain s' ov' where st: "stride_count_and_overflow N p = (s', ov')" "unat ov' < 8"
    "length (net_bits N p) = 8 * s' + unat ov'" "s' \<le> ip_width (is_ipv4 (net_addr N p))"
    using strides [OF assms(1)] by blast
  have len: "length (ip_octets (net_addr N p)) = ip_width (is_ipv4 (net_addr N p))"
    using assms(1) by (simp add: net_fits_def ip_wf_octets)
  show d: "d < length (ip_octets (net_addr N p))" using st(1,4) len assms(2,3) by simp
  have l: "length (net_bits N p) - 8 * d = 8 + (length (net_bits N p) - 8 * Suc d)" using st(1,3) assms(2,3) by simp
  show "rel N p d = byte_bits (ip_octets (net_addr N p) ! d) @ rel N p (Suc d)"
    unfolding rel_take [OF assms(1)] l Cons_nth_drop_Suc [OF d, symmetric] by simp
  have "rel N p (Suc d) = [] \<longleftrightarrow> length (net_bits N p) \<le> 8 * Suc d" by (simp add: rel_def)
  also have "\<dots> \<longleftrightarrow> d = s - 1 \<and> ov = 0" using st(1-3) assms(2,3) by (auto simp flip: unat_eq_zero)
  finally show "is_fringe N d p = Some (rel N p (Suc d) = [])"
    using assms(2,3) by (simp add: is_fringe_def)
qed

lemma rel_last:
  assumes "net_fits N p" and "stride_count_and_overflow N p = (s, ov)" and "s < length (ip_octets (net_addr N p))"
  shows "rel N p s = take (unat ov) (byte_bits (ip_octets (net_addr N p) ! s))" and "unat ov < 8" and "length (rel N p s) < 8"
proof -
  show ov: "unat ov < 8" using strides [OF assms(1)] assms(2) by (metis Pair_inject)
  have "length (net_bits N p) - 8 * s = unat ov" using strides [OF assms(1)] assms(2) by (metis Pair_inject diff_add_inverse)
  then show r: "rel N p s = take (unat ov) (byte_bits (ip_octets (net_addr N p) ! s))"
    using ov unfolding rel_take [OF assms(1)] Cons_nth_drop_Suc [OF assms(3), symmetric] by simp
  show "length (rel N p s) < 8" using ov by (simp add: r)
qed

lemma rel_end:
  assumes "net_fits N p" and "stride_count_and_overflow N p = (s, ov)" and "length (ip_octets (net_addr N p)) \<le> s"
  shows "s = length (ip_octets (net_addr N p))"
  using strides [OF assms(1)] assms by (metis Pair_inject ip_wf_octets le_antisym net_fits_def)

end
