(* ===== verification/Bart_Node.thy ===== *)
theory Bart_Node
  imports Bart_Net
begin

text \<open>
  One level of the routing trie: nodes, their children and the operations on them
  (\<open>ts_bart/src/node\<close>), and the iteration over the prefixes of a node that cover an octet.  The
  container of a child (inline or boxed) holds the child itself.
\<close>

section \<open>Nodes and children\<close>

datatype ('n, 'v) Node = Node (n_prefixes: "'v Array256") (n_children: "('n, 'v) Child Array256")
  and ('n, 'v) Child = Path "('n, 'v) Node" | Leaf 'n 'v | Fringe 'v

definition into_value :: "('n, 'v) Child \<Rightarrow> 'v option" where
  "into_value c = (case c of Leaf _ v \<Rightarrow> Some v | Fringe v \<Rightarrow> Some v | Path _ \<Rightarrow> None)"

definition into_node :: "('n, 'v) Child \<Rightarrow> ('n, 'v) Node option" where
  "into_node c = (case c of Path n \<Rightarrow> Some n | _ \<Rightarrow> None)"

definition node_EMPTY :: "('n, 'v) Node" where
  "node_EMPTY = Node a_EMPTY a_EMPTY"

definition node_is_empty :: "('n, 'v) Node \<Rightarrow> bool" where
  "node_is_empty n \<longleftrightarrow> a_is_empty (n_prefixes n) \<and> a_is_empty (n_children n)"

definition prefix_bitset :: "('n, 'v) Node \<Rightarrow> Bitset" where
  "prefix_bitset n = a_bitset (n_prefixes n)"

definition prefix_count :: "('n, 'v) Node \<Rightarrow> nat" where
  "prefix_count n = a_len (n_prefixes n)"

definition lookup_index :: "BaseIndex \<Rightarrow> ('n, 'v) Node \<Rightarrow> (BaseIndex \<times> 'v) option option" where
  "lookup_index idx n =
     do {
       mask \<leftarrow> lpm idx;
       case a_intersection_top (n_prefixes n) mask of
         None \<Rightarrow> Some None
       | Some t \<Rightarrow>
           (case BaseIndex_try_new t of
              None \<Rightarrow> Some None
            | Some i \<Rightarrow> do { v \<leftarrow> a_get t (n_prefixes n); Some (map_option (Pair i) v) })
     }"

definition get_prefix_exact :: "BaseIndex \<Rightarrow> ('n, 'v) Node \<Rightarrow> 'v option option" where
  "get_prefix_exact idx n = a_get idx (n_prefixes n)"

definition insert_prefix :: "BaseIndex \<Rightarrow> 'v \<Rightarrow> ('n, 'v) Node \<Rightarrow> ('v option \<times> ('n, 'v) Node) option" where
  "insert_prefix idx v n = do { (old, ps) \<leftarrow> a_insert idx v (n_prefixes n); Some (old, Node ps (n_children n)) }"

definition remove_prefix :: "BaseIndex \<Rightarrow> ('n, 'v) Node \<Rightarrow> ('v option \<times> ('n, 'v) Node) option" where
  "remove_prefix idx n = do { (old, ps) \<leftarrow> a_remove idx (n_prefixes n); Some (old, Node ps (n_children n)) }"

text \<open>Writing through the reference \<open>get_prefix_exact_mut\<close> returns.\<close>

definition get_prefix_exact_mut :: "BaseIndex \<Rightarrow> ('v \<Rightarrow> 'v) \<Rightarrow> ('n, 'v) Node \<Rightarrow> ('n, 'v) Node option" where
  "get_prefix_exact_mut idx f n = do { ps \<leftarrow> a_get_mut idx f (n_prefixes n); Some (Node ps (n_children n)) }"

definition child_bitset :: "('n, 'v) Node \<Rightarrow> Bitset" where
  "child_bitset n = a_bitset (n_children n)"

definition child_count :: "('n, 'v) Node \<Rightarrow> nat" where
  "child_count n = a_len (n_children n)"

definition insert_child :: "u8 \<Rightarrow> ('n, 'v) Child \<Rightarrow> ('n, 'v) Node \<Rightarrow> (('n, 'v) Child option \<times> ('n, 'v) Node) option" where
  "insert_child addr c n = do { (old, cs) \<leftarrow> a_insert addr c (n_children n); Some (old, Node (n_prefixes n) cs) }"

definition remove_child :: "u8 \<Rightarrow> ('n, 'v) Node \<Rightarrow> (('n, 'v) Child option \<times> ('n, 'v) Node) option" where
  "remove_child addr n = do { (old, cs) \<leftarrow> a_remove addr (n_children n); Some (old, Node (n_prefixes n) cs) }"

definition get_child :: "u8 \<Rightarrow> ('n, 'v) Node \<Rightarrow> ('n, 'v) Child option option" where
  "get_child addr n = a_get addr (n_children n)"

text \<open>Writing the child \<open>c\<close> through the reference \<open>get_child_mut\<close> returns.\<close>

definition get_child_mut :: "u8 \<Rightarrow> ('n, 'v) Child \<Rightarrow> ('n, 'v) Node \<Rightarrow> ('n, 'v) Node option" where
  "get_child_mut addr c n = do { cs \<leftarrow> a_get_mut addr (\<lambda>_. c) (n_children n); Some (Node (n_prefixes n) cs) }"

definition direct_children :: "('n, 'v) Node \<Rightarrow> (u8 \<times> ('n, 'v) Child) list" where
  "direct_children n = a_iter (n_children n)"

definition direct_prefixes :: "('n, 'v) Node \<Rightarrow> (BaseIndex option \<times> 'v) list" where
  "direct_prefixes n = map (\<lambda>(idx, v). (BaseIndex_new idx, v)) (a_iter (n_prefixes n))"

definition supersets_prefix :: "BaseIndex \<Rightarrow> ('n, 'v) Node \<Rightarrow> bool option" where
  "supersets_prefix idx n = do { mask \<leftarrow> lpm idx; Some (bs_intersects (prefix_bitset n) mask) }"

definition node_lookup :: "BaseIndex \<Rightarrow> ('n, 'v) Node \<Rightarrow> 'v option option" where
  "node_lookup idx n = map_option (map_option snd) (lookup_index idx n)"

section \<open>Iterating over the prefixes that cover an octet\<close>

record ('n, 'v) NodePrefixIter =
  pi_node :: "('n, 'v) Node"
  pi_yield_state :: Bitset

definition for_octet :: "('n, 'v) Node \<Rightarrow> u8 \<Rightarrow> ('n, 'v) NodePrefixIter option" where
  "for_octet n octet =
     do {
       idx \<leftarrow> from_pfx_7 octet;
       mask \<leftarrow> lpm idx;
       Some \<lparr>pi_node = n, pi_yield_state = bs_intersect (prefix_bitset n) mask\<rparr>
     }"

lemma last_set_clear_card:
  assumes "bs_last_set b = Some (Some i)" and "bs_clear i b = Some b'"
  shows "card (bs_abs b') < card (bs_abs b)"
proof -
  have "b \<noteq> []" using assms(1) by (auto simp: bs_last_set_def)
  then have i: "i \<in> bs_abs b" using bs_last_set_spec [of b] assms(1) by (auto simp: is_greatest_def)
  obtain b'' where "bs_clear i b = Some b''" "\<And>j. bs_mem b'' j \<longleftrightarrow> j \<noteq> i \<and> bs_mem b j"
    using bs_clear_spec [OF bs_abs_less [OF i]] by blast
  then have "bs_abs b' = bs_abs b - {i}" using assms(2) by (auto simp: bs_abs_def)
  then show ?thesis using i by (metis card_Diff1_less finite_bs_abs)
qed

function pfx_next :: "('n, 'v) Node \<Rightarrow> Bitset \<Rightarrow> ((BaseIndex \<times> 'v) option \<times> Bitset) option" where
  "pfx_next n st =
     do {
       found \<leftarrow> bs_last_set st;
       case found of
         None \<Rightarrow> Some (None, st)
       | Some b \<Rightarrow>
           do {
             st' \<leftarrow> bs_clear b st;
             index \<leftarrow> BaseIndex_new (of_nat b);
             v \<leftarrow> get_prefix_exact index n;
             case v of
               Some val \<Rightarrow> Some (Some (index, val), st')
             | None \<Rightarrow> pfx_next n st'
           }
     }"
  by pat_completeness auto
termination
  by (relation "measure (card \<circ> bs_abs \<circ> snd)") (auto simp: last_set_clear_card)

declare pfx_next.simps [simp del]

definition NodePrefixIter_next ::
  "('n, 'v) NodePrefixIter \<Rightarrow> ((BaseIndex \<times> 'v) option \<times> ('n, 'v) NodePrefixIter) option" where
  "NodePrefixIter_next it =
     do { (r, st) \<leftarrow> pfx_next (pi_node it) (pi_yield_state it); Some (r, it\<lparr>pi_yield_state := st\<rparr>) }"

section \<open>Nodes as pairs of maps\<close>

definition pmap :: "('n, 'v) Node \<Rightarrow> nat \<rightharpoonup> 'v" where
  "pmap n = a_map (n_prefixes n)"

definition cmap :: "('n, 'v) Node \<Rightarrow> nat \<rightharpoonup> ('n, 'v) Child" where
  "cmap n = a_map (n_children n)"

definition node_wf :: "('n, 'v) Node \<Rightarrow> bool" where
  "node_wf n \<longleftrightarrow> a_wf (n_prefixes n) \<and> a_wf (n_children n) \<and> pmap n 0 = None"

lemma node_EMPTY_maps [simp]: "node_wf node_EMPTY" "pmap node_EMPTY = Map.empty" "cmap node_EMPTY = Map.empty"
  by (simp_all add: node_wf_def pmap_def cmap_def node_EMPTY_def)

lemma get_prefix_exact_spec [simp]: "node_wf n \<Longrightarrow> get_prefix_exact i n = Some (pmap n (unat i))"
  by (simp add: node_wf_def get_prefix_exact_def arr.look_map pmap_def)

lemma get_child_spec [simp]: "node_wf n \<Longrightarrow> get_child i n = Some (cmap n (unat i))"
  by (simp add: node_wf_def get_child_def arr.look_map cmap_def)

lemma child_test_spec [simp]: "node_wf n \<Longrightarrow> bs_test (unat (i :: u8)) (child_bitset n) = Some (cmap n (unat i) \<noteq> None)"
  using a_test_spec [of "n_children n" i] dom_a_map [of "n_children n"]
  by (auto simp: node_wf_def child_bitset_def a_test_def cmap_def)

lemma insert_prefix_spec:
  assumes "node_wf n" and "i \<noteq> 0"
  obtains n' where "insert_prefix i v n = Some (pmap n (unat i), n')" "node_wf n'"
    "pmap n' = (pmap n)(unat i \<mapsto> v)" "cmap n' = cmap n"
proof -
  have wf: "a_wf (n_prefixes n)" using assms(1) by (simp add: node_wf_def)
  obtain m' where "a_insert i v (n_prefixes n) = Some (a_map (n_prefixes n) (unat i), m')" "a_wf m'"
    "a_map m' = (a_map (n_prefixes n))(unat i \<mapsto> v)" using arr.putE [OF wf] by blast
  with assms show ?thesis by (intro that [of "Node m' (n_children n)"]) (simp_all add: insert_prefix_def node_wf_def pmap_def cmap_def unat_eq_zero)
qed

lemma remove_prefix_spec:
  assumes "node_wf n"
  obtains n' where "remove_prefix i n = Some (pmap n (unat i), n')" "node_wf n'"
    "pmap n' = (pmap n)(unat i := None)" "cmap n' = cmap n"
proof -
  have wf: "a_wf (n_prefixes n)" using assms(1) by (simp add: node_wf_def)
  obtain m' where "a_remove i (n_prefixes n) = Some (a_map (n_prefixes n) (unat i), m')" "a_wf m'"
    "a_map m' = (a_map (n_prefixes n))(unat i := None)" using arr.delE [OF wf] by blast
  with assms show ?thesis by (intro that [of "Node m' (n_children n)"]) (simp_all add: remove_prefix_def node_wf_def pmap_def cmap_def)
qed

lemma insert_child_spec:
  assumes "node_wf n"
  obtains n' where "insert_child i c n = Some (cmap n (unat i), n')" "node_wf n'"
    "pmap n' = pmap n" "cmap n' = (cmap n)(unat i \<mapsto> c)"
proof -
  have wf: "a_wf (n_children n)" using assms(1) by (simp add: node_wf_def)
  obtain m' where "a_insert i c (n_children n) = Some (a_map (n_children n) (unat i), m')" "a_wf m'"
    "a_map m' = (a_map (n_children n))(unat i \<mapsto> c)" using arr.putE [OF wf] by blast
  with assms show ?thesis by (intro that [of "Node (n_prefixes n) m'"]) (simp_all add: insert_child_def node_wf_def pmap_def cmap_def)
qed

lemma remove_child_spec:
  assumes "node_wf n"
  obtains n' where "remove_child i n = Some (cmap n (unat i), n')" "node_wf n'"
    "pmap n' = pmap n" "cmap n' = (cmap n)(unat i := None)"
proof -
  have wf: "a_wf (n_children n)" using assms(1) by (simp add: node_wf_def)
  obtain m' where "a_remove i (n_children n) = Some (a_map (n_children n) (unat i), m')" "a_wf m'"
    "a_map m' = (a_map (n_children n))(unat i := None)" using arr.delE [OF wf] by blast
  with assms show ?thesis by (intro that [of "Node (n_prefixes n) m'"]) (simp_all add: remove_child_def node_wf_def pmap_def cmap_def)
qed

lemma get_child_mut_spec:
  assumes "node_wf n" and "cmap n (unat i) = Some c0"
  obtains n' where "get_child_mut i c n = Some n'" "node_wf n'" "pmap n' = pmap n" "cmap n' = (cmap n)(unat i \<mapsto> c)"
proof -
  obtain m' where "a_get_mut i (\<lambda>_. c) (n_children n) = Some m'" "a_wf m'"
    "a_map m' = (a_map (n_children n))(unat i := map_option (\<lambda>_. c) (a_map (n_children n) (unat i)))"
    using a_get_mut_spec [of "n_children n" i "\<lambda>_. c"] assms(1) by (auto simp: node_wf_def)
  with assms show ?thesis by (intro that [of "Node (n_prefixes n) m'"]) (simp_all add: get_child_mut_def node_wf_def pmap_def cmap_def)
qed

section \<open>What the iteration yields\<close>

text \<open>The values of a node along a bit string of one octet, from the longest prefix below \<open>m\<close> bits.\<close>

definition covering :: "('n, 'v) Node \<Rightarrow> bool list \<Rightarrow> nat \<Rightarrow> (BaseIndex \<times> 'v) list" where
  "covering n bs m =
     List.map_filter (\<lambda>k. map_option (Pair (of_nat (bidx (take k bs)))) (pmap n (bidx (take k bs)))) (rev [0..<m])"

definition yield_set :: "('n, 'v) Node \<Rightarrow> bool list \<Rightarrow> nat \<Rightarrow> nat set" where
  "yield_set n bs m = {bidx (take k bs) | k. k < m \<and> pmap n (bidx (take k bs)) \<noteq> None}"

lemma covering_simps [simp]:
  "covering n bs 0 = []"
  "covering n bs (Suc m) =
     (case pmap n (bidx (take m bs)) of None \<Rightarrow> [] | Some v \<Rightarrow> [(of_nat (bidx (take m bs)), v)]) @ covering n bs m"
  by (simp_all add: covering_def map_filter_simps split: option.split)

lemma yield_set_simps [simp]:
  "yield_set n bs 0 = {}"
  "yield_set n bs (Suc m) = (if pmap n (bidx (take m bs)) = None then {} else {bidx (take m bs)}) \<union> yield_set n bs m"
  by (auto simp: yield_set_def less_Suc_eq)

lemma yield_set_less: "m \<le> length bs \<Longrightarrow> j \<in> yield_set n bs m \<Longrightarrow> j < bidx (take m bs)"
  by (auto simp: yield_set_def intro!: bidx_mono_length)

lemma last_setI: "b \<noteq> [] \<Longrightarrow> is_greatest (bs_abs b) r \<Longrightarrow> bs_last_set b = Some r"
  by (metis bs_last_set_spec is_greatest_unique)

lemma pfx_next_spec:
  assumes "node_wf n" and "length bs = 8" and "m \<le> 8" and "length st = 4" and "bs_abs st = yield_set n bs m"
  shows "case covering n bs m of
      [] \<Rightarrow> pfx_next n st = Some (None, st)
    | x # xs \<Rightarrow> \<exists>m' st'. pfx_next n st = Some (Some x, st') \<and> m' \<le> 8 \<and> length st' = 4 \<and>
        bs_abs st' = yield_set n bs m' \<and> covering n bs m' = xs"
  using assms(3,5)
proof (induction m)
  case 0
  then have "bs_last_set st = Some None" using assms(4) by (intro last_setI) (auto simp: is_greatest_def)
  then show ?case by (simp add: pfx_next.simps [of n st])
next
  case (Suc m)
  show ?case
  proof (cases "pmap n (bidx (take m bs))")
    case None
    with Suc show ?thesis by simp
  next
    case (Some v)
    let ?i = "bidx (take m bs)"
    have abs: "bs_abs st = insert ?i (yield_set n bs m)" using Suc.prems(2) Some by simp
    have less: "j < ?i" if "j \<in> yield_set n bs m" for j using yield_set_less [OF _ that] Suc.prems(1) assms(2) by simp
    then have "is_greatest (bs_abs st) (Some ?i)" unfolding abs is_greatest_def by (auto intro: less_imp_le)
    then have last: "bs_last_set st = Some (Some ?i)" using assms(4) by (intro last_setI) auto
    have i: "?i < 256" using bidx_bounds [of "take m bs"] Suc.prems(1) assms(2) bs_abs_less [of ?i st] abs assms(4) by simp
    then have u: "unat (of_nat ?i :: u8) = ?i" by (rule unat_of_nat_u8)
    then have nz: "(of_nat ?i :: u8) \<noteq> 0" by (metis bidx_pos less_irrefl unat_0)
    obtain st' where st': "bs_clear ?i st = Some st'" "length st' = 4" "\<And>j. bs_mem st' j \<longleftrightarrow> j \<noteq> ?i \<and> bs_mem st j"
      using bs_clear_spec [of ?i st] i assms(4) by auto
    have "bs_abs st' = bs_abs st - {?i}" using st'(3) by (auto simp: bs_abs_def)
    also have "\<dots> = yield_set n bs m" unfolding abs using less by blast
    finally have "bs_abs st' = yield_set n bs m" .
    moreover have "pfx_next n st = Some (Some (of_nat ?i, v), st')"
      using assms(1) nz by (simp add: pfx_next.simps [of n st] last st'(1) BaseIndex_new_def BaseIndex_try_new_def u Some)
    ultimately show ?thesis using Some st'(2) Suc.prems(1) by (auto intro!: exI [of _ m])
  qed
qed

lemma for_octet_spec:
  assumes "node_wf n"
  obtains st where "for_octet n octet = Some \<lparr>pi_node = n, pi_yield_state = st\<rparr>"
    and "length st = 4" and "bs_abs st = yield_set n (byte_bits octet) 8"
proof -
  obtain i where i: "from_pfx_7 octet = Some i" "unat i = bidx (take 7 (byte_bits octet))" by (rule from_pfx_7_spec)
  obtain mask where mask: "lpm i = Some mask" "length mask = 4" "bs_abs mask = {bidx p | p. Sublist.prefix p (take 7 (byte_bits octet))}"
    using lpm_spec [OF i(2)] by blast
  have len: "length (prefix_bitset n) = 4" using assms by (simp add: node_wf_def a_wf_def prefix_bitset_def)
  have "bs_abs (prefix_bitset n) = dom (pmap n)" using assms by (simp add: node_wf_def prefix_bitset_def pmap_def dom_a_map)
  moreover have "Sublist.prefix p (take 7 (byte_bits octet)) \<longleftrightarrow> (\<exists>k<8. p = take k (byte_bits octet))" for p
  proof
    assume "Sublist.prefix p (take 7 (byte_bits octet))"
    then have "p = take (length p) (take 7 (byte_bits octet))" "length p \<le> 7"
      using prefix_length_le [of p "take 7 (byte_bits octet)"] by (metis append_eq_conv_conj prefix_def, simp)
    then show "\<exists>k<8. p = take k (byte_bits octet)" by (intro exI [of _ "length p"]) (auto simp: take_take)
  next
    assume "\<exists>k<8. p = take k (byte_bits octet)"
    then obtain k where k: "k < 8" "p = take k (byte_bits octet)" by blast
    then have "p = take k (take 7 (byte_bits octet))" by (simp add: take_take min_def)
    then show "Sublist.prefix p (take 7 (byte_bits octet))" by (metis take_is_prefix)
  qed
  ultimately have "bs_abs (bs_intersect (prefix_bitset n) mask) = yield_set n (byte_bits octet) 8"
    using len mask(2,3) by (auto simp: bs_abs_bitwise yield_set_def)
  then show ?thesis
    using i(1) mask(1,2) len by (intro that [of "bs_intersect (prefix_bitset n) mask"]) (simp_all add: for_octet_def bs_intersect_def)
qed

end
