(* ===== verification/Bart_Lookup.thy ===== *)
theory Bart_Lookup
  imports Bart_Node
begin

text \<open>
  Lookups in the routing trie (\<open>ts_bart/src/iptrie/mod.rs\<close> and \<open>iptrie/lookup\<close>), the routes a
  trie stands for, and the proof that address lookups find the longest match.  The bounded
  stack of 16 nodes is a list; pushing a seventeenth element panics.
\<close>

section \<open>The iterator over all matches\<close>

type_synonym ('n, 'v) node_stack = "(('n, 'v) Node \<times> u8) list"

record ('n, 'v) LookupIter =
  li_value :: "'v option"
  li_stack :: "('n, 'v) node_stack"
  li_prefix_iter :: "('n, 'v) NodePrefixIter option"

function walk_stack ::
  "('n, 'v) node_stack \<Rightarrow> ('n, 'v) NodePrefixIter option \<Rightarrow>
   ('v option \<times> ('n, 'v) node_stack \<times> ('n, 'v) NodePrefixIter option) option" where
  "walk_stack stack prefix_iter =
     (if stack = [] then Some (None, stack, prefix_iter)
      else let (node, octet) = last stack
           in case prefix_iter of
                Some iter \<Rightarrow>
                  do {
                    (r, iter') \<leftarrow> NodePrefixIter_next iter;
                    case r of
                      Some (_, val) \<Rightarrow> Some (Some val, stack, Some iter')
                    | None \<Rightarrow> walk_stack (butlast stack) None
                  }
              | None \<Rightarrow> do { iter \<leftarrow> for_octet node octet; walk_stack stack (Some iter) })"
  by pat_completeness auto
termination
  by (relation "measure (\<lambda>(stack, it). 2 * length stack + (if it = None then 1 else 0))")
     (auto simp: neq_Nil_conv split: if_splits)

declare walk_stack.simps [simp del]

definition LookupIter_next :: "('n, 'v) LookupIter \<Rightarrow> ('v option \<times> ('n, 'v) LookupIter) option" where
  "LookupIter_next it =
     (case li_value it of
        Some val \<Rightarrow> Some (Some val, it\<lparr>li_value := None\<rparr>)
      | None \<Rightarrow>
          do {
            (r, stack, pi) \<leftarrow> walk_stack (li_stack it) (li_prefix_iter it);
            Some (r, it\<lparr>li_stack := stack, li_prefix_iter := pi\<rparr>)
          })"

definition LookupIter_default :: "('n, 'v) LookupIter" where
  "LookupIter_default = \<lparr>li_value = None, li_stack = [], li_prefix_iter = None\<rparr>"

section \<open>Lookups\<close>

fun address_all_walk ::
  "'n ipnet \<Rightarrow> IpAddr \<Rightarrow> bytes \<Rightarrow> ('n, 'v) Node \<Rightarrow> ('n, 'v) LookupIter \<Rightarrow> ('n, 'v) LookupIter option" where
  "address_all_walk N addr [] node it = Some it"
| "address_all_walk N addr (octet # os) node it =
     (if length (li_stack it) < MAX_DEPTH
      then let it' = it\<lparr>li_stack := li_stack it @ [(node, octet)]\<rparr>
           in do {
                child \<leftarrow> get_child octet node;
                case child of
                  None \<Rightarrow> Some it'
                | Some (Path n) \<Rightarrow> address_all_walk N addr os n it'
                | Some (Fringe val) \<Rightarrow> Some (it'\<lparr>li_value := Some val\<rparr>)
                | Some (Leaf pfx val) \<Rightarrow>
                    Some (if net_contains N pfx addr then it'\<lparr>li_value := Some val\<rparr> else it')
              }
      else None)"

definition lookup_address_all :: "'n ipnet \<Rightarrow> ('n, 'v) Node \<Rightarrow> IpAddr \<Rightarrow> ('n, 'v) LookupIter option" where
  "lookup_address_all N node addr = address_all_walk N addr (ip_octets addr) node LookupIter_default"

text \<open>The descent of \<open>lookup_address\<close> either returns early with a value or leaves a stack.\<close>

fun address_walk ::
  "'n ipnet \<Rightarrow> IpAddr \<Rightarrow> bytes \<Rightarrow> ('n, 'v) Node \<Rightarrow> ('n, 'v) node_stack \<Rightarrow> ('v + ('n, 'v) node_stack) option" where
  "address_walk N addr [] node stack = Some (Inr stack)"
| "address_walk N addr (octet # os) node stack =
     (if length stack < MAX_DEPTH
      then let stack' = stack @ [(node, octet)]
           in do {
                child \<leftarrow> get_child octet node;
                case child of
                  None \<Rightarrow> Some (Inr stack')
                | Some (Path n) \<Rightarrow> address_walk N addr os n stack'
                | Some (Fringe val) \<Rightarrow> Some (Inl val)
                | Some (Leaf pfx val) \<Rightarrow> Some (if net_contains N pfx addr then Inl val else Inr stack')
              }
      else None)"

definition lookup_address :: "'n ipnet \<Rightarrow> ('n, 'v) Node \<Rightarrow> IpAddr \<Rightarrow> 'v option option" where
  "lookup_address N node addr =
     do {
       r \<leftarrow> address_walk N addr (ip_octets addr) node [];
       case r of
         Inl val \<Rightarrow> Some (Some val)
       | Inr stack \<Rightarrow> do { (val, _, _) \<leftarrow> walk_stack stack None; Some val }
     }"

fun contains_walk :: "'n ipnet \<Rightarrow> IpAddr \<Rightarrow> bytes \<Rightarrow> ('n, 'v) Node \<Rightarrow> bool option" where
  "contains_walk N ip [] node = Some False"
| "contains_walk N ip (octet # os) node =
     do {
       index \<leftarrow> from_pfx_7 octet;
       covered \<leftarrow> (if prefix_count node \<noteq> 0 then supersets_prefix index node else Some False);
       if covered then Some True
       else do {
         child \<leftarrow> get_child octet node;
         case child of
           None \<Rightarrow> Some False
         | Some (Path n) \<Rightarrow> contains_walk N ip os n
         | Some (Fringe _) \<Rightarrow> Some True
         | Some (Leaf pfx _) \<Rightarrow> Some (net_contains N pfx ip)
       }
     }"

definition trie_contains :: "'n ipnet \<Rightarrow> ('n, 'v) Node \<Rightarrow> IpAddr \<Rightarrow> bool option" where
  "trie_contains N node ip = contains_walk N ip (ip_octets ip) node"

fun exact_walk :: "'n ipnet \<Rightarrow> 'n \<Rightarrow> bytes \<Rightarrow> nat \<Rightarrow> ('n, 'v) Node \<Rightarrow> 'v option option" where
  "exact_walk N pfx [] depth node = None"
| "exact_walk N pfx (octet # os) depth node =
     (let (last_octet_plus_one, last_bits) = stride_count_and_overflow N pfx
      in if depth = last_octet_plus_one
         then do { i \<leftarrow> from_prefix octet last_bits; get_prefix_exact i node }
         else do {
           child \<leftarrow> get_child octet node;
           case child of
             None \<Rightarrow> Some None
           | Some (Path n) \<Rightarrow> exact_walk N pfx os (depth + 1) n
           | Some (Leaf leaf_prefix val) \<Rightarrow> Some (if pfx = leaf_prefix then Some val else None)
           | Some (Fringe val) \<Rightarrow> do { f \<leftarrow> is_fringe N depth pfx; Some (if f then Some val else None) }
         })"

definition lookup_prefix_exact :: "'n ipnet \<Rightarrow> ('n, 'v) Node \<Rightarrow> 'n \<Rightarrow> 'v option option" where
  "lookup_prefix_exact N node pfx = exact_walk N pfx (ip_octets (net_addr N pfx)) 0 node"

text \<open>
  In \<open>lookup_prefix_lpm\<close> the pattern of a leaf rebinds \<open>prefix\<close>, so both conditions on a leaf
  compare the prefix of the leaf with itself.
\<close>

fun lpm_walk ::
  "'n ipnet \<Rightarrow> 'n \<Rightarrow> bytes \<Rightarrow> nat \<Rightarrow> ('n, 'v) Node \<Rightarrow> (('n, 'v) Node \<times> u8 \<times> nat) list \<Rightarrow>
   (('n \<times> 'v) + (('n, 'v) Node \<times> u8 \<times> nat) list) option" where
  "lpm_walk N pfx [] depth node stack = Some (Inr stack)"
| "lpm_walk N pfx (octet # os) depth node stack =
     (if fst (stride_count_and_overflow N pfx) < depth then Some (Inr stack)
      else if length stack < MAX_DEPTH
      then let stack' = stack @ [(node, octet, depth)]
           in do {
                child \<leftarrow> get_child octet node;
                case child of
                  None \<Rightarrow> Some (Inr stack')
                | Some (Path n) \<Rightarrow> lpm_walk N pfx os (depth + 1) n stack'
                | Some (Leaf leaf val) \<Rightarrow>
                    Some (if net_len N leaf < net_len N leaf \<or> \<not> net_contains N leaf (net_addr N leaf) then Inr stack'
                          else Inl (leaf, val))
                | Some (Fringe val) \<Rightarrow>
                    (let fringe_prefix_len = (depth + 1) * 8
                     in if unat (net_len N pfx) < fringe_prefix_len then Some (Inr stack')
                        else do {
                          fringe_prefix \<leftarrow> net_new_assert N (net_addr N pfx) (of_nat fringe_prefix_len);
                          Some (Inl (fringe_prefix, val)) })
              }
      else None)"

fun lpm_unwind ::
  "'n ipnet \<Rightarrow> 'n \<Rightarrow> (('n, 'v) Node \<times> u8 \<times> nat) list \<Rightarrow> ('n \<times> 'v) option option" where
  "lpm_unwind N pfx [] = Some None"
| "lpm_unwind N pfx ((node, octet, depth) # stack) =
     (if prefix_count node = 0 then lpm_unwind N pfx stack
      else let (last_octet_plus_one, last_bits) = stride_count_and_overflow N pfx
           in do {
                idx \<leftarrow> (if depth = last_octet_plus_one then from_prefix octet last_bits else from_pfx_7 octet);
                found \<leftarrow> lookup_index idx node;
                case found of
                  None \<Rightarrow> lpm_unwind N pfx stack
                | Some (t, val) \<Rightarrow>
                    do { lpm_prefix \<leftarrow> net_new_assert N (net_addr N pfx) (prefix_bits t depth); Some (Some (lpm_prefix, val)) }
              })"

definition lookup_prefix_lpm :: "'n ipnet \<Rightarrow> ('n, 'v) Node \<Rightarrow> 'n \<Rightarrow> ('n \<times> 'v) option option" where
  "lookup_prefix_lpm N node pfx0 =
     (let pfx = net_trunc N pfx0
      in do {
           r \<leftarrow> lpm_walk N pfx (ip_octets (net_addr N pfx)) 0 node [];
           case r of
             Inl found \<Rightarrow> Some (Some found)
           | Inr stack \<Rightarrow> lpm_unwind N pfx (rev stack)
         })"

section \<open>The routes of a trie\<close>

definition octet_idx :: "bool list \<Rightarrow> nat" where
  "octet_idx bs = bidx bs - 256"

lemma octet_idx_byte [simp]: "octet_idx (byte_bits b) = unat b"
  using bidx_byte_bits [of 8 b] by (simp add: octet_idx_def)

text \<open>
  \<open>routes k N d n\<close> maps the bit strings below a node at depth \<open>d\<close> with \<open>k\<close> octets left to the
  values stored for them.
\<close>

primrec routes :: "nat \<Rightarrow> 'n ipnet \<Rightarrow> nat \<Rightarrow> ('n, 'v) Node \<Rightarrow> bool list \<rightharpoonup> 'v" where
  "routes 0 N d n = Map.empty"
| "routes (Suc k) N d n = (\<lambda>r.
     if length r < 8 then pmap n (bidx r)
     else case cmap n (octet_idx (take 8 r)) of
            None \<Rightarrow> None
          | Some (Path m) \<Rightarrow> routes k N (Suc d) m (drop 8 r)
          | Some (Fringe v) \<Rightarrow> if drop 8 r = [] then Some v else None
          | Some (Leaf p v) \<Rightarrow> if rel N p d = r then Some v else None)"

definition leaf_wf :: "'n ipnet \<Rightarrow> bool \<Rightarrow> bytes \<Rightarrow> 'n \<Rightarrow> bool" where
  "leaf_wf N v4 path p \<longleftrightarrow> is_ipv4 (net_addr N p) = v4 \<and> net_trunc N p = p \<and>
     take (length path) (ip_octets (net_addr N p)) = path \<and> 8 * length path < length (net_bits N p)"

primrec trie_wf :: "nat \<Rightarrow> 'n ipnet \<Rightarrow> bool \<Rightarrow> bytes \<Rightarrow> ('n, 'v) Node \<Rightarrow> bool" where
  "trie_wf 0 N v4 path n \<longleftrightarrow> False"
| "trie_wf (Suc k) N v4 path n \<longleftrightarrow> node_wf n \<and>
     (\<forall>b c. cmap n (unat b) = Some c \<longrightarrow>
       (case c of Path m \<Rightarrow> trie_wf k N v4 (path @ [b]) m | Fringe _ \<Rightarrow> True | Leaf p _ \<Rightarrow> leaf_wf N v4 (path @ [b]) p))"

text \<open>The matches of a bit string in a route map, from the longest prefix to the shortest.\<close>

definition matches :: "(bool list \<rightharpoonup> 'v) \<Rightarrow> bool list \<Rightarrow> 'v list" where
  "matches R bs = List.map_filter (\<lambda>k. R (take k bs)) (rev [0..<Suc (length bs)])"

inductive yields :: "('n, 'v) LookupIter \<Rightarrow> 'v list \<Rightarrow> bool" where
  yields_end: "LookupIter_next it = Some (None, it') \<Longrightarrow> yields it []"
| yields_step: "LookupIter_next it = Some (Some v, it') \<Longrightarrow> yields it' vs \<Longrightarrow> yields it (v # vs)"

lemma LookupIter_default_sel [simp]:
  "li_value LookupIter_default = None" "li_stack LookupIter_default = []" "li_prefix_iter LookupIter_default = None"
  by (simp_all add: LookupIter_default_def)

section \<open>The early return of \<open>lookup_address\<close>\<close>

lemma address_walk_all:
  assumes "li_value it = None"
  shows "address_walk N addr os node (li_stack it) =
    map_option (\<lambda>it'. case li_value it' of Some v \<Rightarrow> Inl v | None \<Rightarrow> Inr (li_stack it')) (address_all_walk N addr os node it)"
  using assms
proof (induction os arbitrary: node it)
  case (Cons octet os)
  let ?it = "it\<lparr>li_stack := li_stack it @ [(node, octet)]\<rparr>"
  have it: "li_value ?it = None" "li_stack ?it = li_stack it @ [(node, octet)]" using Cons.prems by simp_all
  show ?case using Cons.IH [OF it(1)] it Cons.prems
    by (cases "get_child octet node") (auto simp: Let_def split: option.splits Child.splits)
qed simp

lemma address_all_walk_iter:
  "address_all_walk N addr os node it = Some it' \<Longrightarrow> li_prefix_iter it' = li_prefix_iter it"
proof (induction os arbitrary: node it)
  case (Cons octet os)
  from Cons.IH [of _ "it\<lparr>li_stack := li_stack it @ [(node, octet)]\<rparr>"] Cons.prems show ?case
    by (cases "get_child octet node") (auto simp: Let_def split: option.splits Child.splits if_splits)
qed simp

lemma first_of_all:
  "lookup_address N node addr =
     do { it \<leftarrow> lookup_address_all N node addr; (v, _) \<leftarrow> LookupIter_next it; Some v }"
proof -
  note w = address_walk_all [of LookupIter_default N addr "ip_octets addr" node, simplified]
  show ?thesis
  proof (cases "address_all_walk N addr (ip_octets addr) node LookupIter_default")
    case None
    with w show ?thesis by (simp add: lookup_address_def lookup_address_all_def)
  next
    case (Some it')
    with w address_all_walk_iter [OF Some] show ?thesis
      by (cases "walk_stack (li_stack it') None")
         (auto simp: lookup_address_def lookup_address_all_def LookupIter_next_def split: option.split)
  qed
qed

text \<open>
  \<open>lookup_address\<close>, written with an early return and its own stack, is the first element of
  \<open>lookup_address_all\<close> on every trie, panics included.
\<close>

theorem lookup_address_is_first_of_all:
  "lookup_address N node addr =
     do { it \<leftarrow> lookup_address_all N node addr; (v, _) \<leftarrow> LookupIter_next it; Some v }"
  by (rule first_of_all)

section \<open>Matches level by level\<close>

lemma map_filter_append: "List.map_filter f (xs @ ys) = List.map_filter f xs @ List.map_filter f ys"
  by (simp add: List.map_filter_def)

lemma map_filter_comp: "List.map_filter f (map g xs) = List.map_filter (f \<circ> g) xs"
  by (induction xs) (simp_all add: map_filter_simps split: option.split)

lemma map_filter_cong: "(\<And>x. x \<in> set xs \<Longrightarrow> f x = g x) \<Longrightarrow> List.map_filter f xs = List.map_filter g xs"
  by (induction xs) (auto simp: map_filter_simps split: option.split)

lemma map_map_filter: "map g (List.map_filter f xs) = List.map_filter (map_option g \<circ> f) xs"
  by (induction xs) (simp_all add: map_filter_simps split: option.split)

lemma append_take_iff:
  assumes "length b = 8" and "8 < length r" and "j \<le> length rest"
  shows "r = b @ take j rest \<longleftrightarrow> j = length r - 8 \<and> Sublist.prefix r (b @ rest)"
proof
  assume r: "r = b @ take j rest"
  then have "length r = 8 + j" using assms by simp
  then show "j = length r - 8 \<and> Sublist.prefix r (b @ rest)" by (simp add: r take_is_prefix)
next
  assume a: "j = length r - 8 \<and> Sublist.prefix r (b @ rest)"
  then obtain zs where "b @ rest = r @ zs" by (auto simp: prefix_def)
  then have "r = take (length r) (b @ rest)" by (simp del: take_append) simp
  also have "length r = 8 + j" using a assms(2) by simp
  finally show "r = b @ take j rest" using assms(1) by simp
qed

lemma map_filter_single:
  "distinct xs \<Longrightarrow> List.map_filter (\<lambda>j. if j = i then Some v else None) xs = (if i \<in> set xs then [v] else [])"
  by (induction xs) (auto simp: map_filter_simps)

definition level_values :: "('n, 'v) Node \<Rightarrow> u8 \<Rightarrow> 'v list" where
  "level_values n octet = map snd (covering n (byte_bits octet) 8)"

lemma level_values_filter:
  "level_values n octet = List.map_filter (\<lambda>k. pmap n (bidx (take k (byte_bits octet)))) (rev [0..<8])"
  unfolding level_values_def covering_def map_map_filter by (simp add: comp_def option.map_comp option.map_ident)

lemma matches_split:
  assumes "length b = 8"
  shows "matches R (b @ rest) =
    List.map_filter (\<lambda>j. R (b @ take j rest)) (rev [0..<Suc (length rest)]) @
    List.map_filter (\<lambda>k. R (take k b)) (rev [0..<8])"
proof -
  have "[0..<Suc (8 + length rest)] = [0..<8] @ [8..<8 + Suc (length rest)]" by (subst upt_add_eq_append [symmetric]) simp_all
  also have "[8..<8 + Suc (length rest)] = map (\<lambda>j. 8 + j) [0..<Suc (length rest)]" using map_add_upt [of 8 "Suc (length rest)"] by (simp only: add.commute)
  finally have "rev [0..<Suc (length (b @ rest))] = map (\<lambda>j. 8 + j) (rev [0..<Suc (length rest)]) @ rev [0..<8]"
    using assms by (simp add: rev_map)
  then have "matches R (b @ rest) =
      List.map_filter (\<lambda>j. R (take (8 + j) (b @ rest))) (rev [0..<Suc (length rest)]) @
      List.map_filter (\<lambda>k. R (take k (b @ rest))) (rev [0..<8])"
    by (simp only: matches_def map_filter_append map_filter_comp comp_def)
  moreover have "List.map_filter (\<lambda>k. R (take k (b @ rest))) (rev [0..<8]) = List.map_filter (\<lambda>k. R (take k b)) (rev [0..<8])"
    using assms by (intro map_filter_cong) simp
  ultimately show ?thesis using assms by simp
qed

lemma matches_step:
  assumes "\<And>p v. cmap n (unat octet) = Some (Leaf p v) \<Longrightarrow> 8 < length (rel N p d)"
  shows "matches (routes (Suc k) N d n) (byte_bits octet @ rest) =
    (case cmap n (unat octet) of
       None \<Rightarrow> []
     | Some (Path m) \<Rightarrow> matches (routes k N (Suc d) m) rest
     | Some (Fringe v) \<Rightarrow> [v]
     | Some (Leaf p v) \<Rightarrow> if Sublist.prefix (rel N p d) (byte_bits octet @ rest) then [v] else []) @ level_values n octet"
proof -
  let ?b = "byte_bits octet" and ?js = "rev [0..<Suc (length rest)]"
  have low: "List.map_filter (\<lambda>k'. routes (Suc k) N d n (take k' ?b)) (rev [0..<8]) = level_values n octet"
    unfolding level_values_filter by (intro map_filter_cong) simp
  have high: "List.map_filter (\<lambda>j. routes (Suc k) N d n (?b @ take j rest)) ?js =
    (case cmap n (unat octet) of
       None \<Rightarrow> []
     | Some (Path m) \<Rightarrow> matches (routes k N (Suc d) m) rest
     | Some (Fringe v) \<Rightarrow> [v]
     | Some (Leaf p v) \<Rightarrow> if Sublist.prefix (rel N p d) (?b @ rest) then [v] else [])"
  proof (cases "cmap n (unat octet)")
    case None
    then show ?thesis by (simp add: List.map_filter_def)
  next
    case (Some c)
    show ?thesis
    proof (cases c)
      case (Path m)
      with Some show ?thesis by (simp add: matches_def)
    next
      case (Fringe v)
      have "List.map_filter (\<lambda>j. routes (Suc k) N d n (?b @ take j rest)) ?js = List.map_filter (\<lambda>j. if j = 0 then Some v else None) ?js"
        using Some Fringe by (intro map_filter_cong) auto
      also have "\<dots> = [v]" by (subst map_filter_single) simp_all
      finally show ?thesis using Some Fringe by simp
    next
      case (Leaf p v)
      let ?r = "rel N p d"
      have l: "8 < length ?r" using assms Some Leaf by blast
      have iff: "?r = ?b @ take j rest \<longleftrightarrow> j = length ?r - 8 \<and> Sublist.prefix ?r (?b @ rest)" if "j \<le> length rest" for j
        using append_take_iff [OF length_byte_bits l that] .
      have "List.map_filter (\<lambda>j. routes (Suc k) N d n (?b @ take j rest)) ?js =
          List.map_filter (\<lambda>j. if j = length ?r - 8 then (if Sublist.prefix ?r (?b @ rest) then Some v else None) else None) ?js"
      proof (rule map_filter_cong)
        fix j assume "j \<in> set ?js"
        then have "j \<le> length rest" by auto
        from iff [OF this] show "routes (Suc k) N d n (?b @ take j rest) =
            (if j = length ?r - 8 then (if Sublist.prefix ?r (?b @ rest) then Some v else None) else None)"
          using Some Leaf by simp
      qed
      also have "\<dots> = (if Sublist.prefix ?r (?b @ rest) then [v] else [])"
      proof (cases "Sublist.prefix ?r (?b @ rest)")
        case True
        then have "length ?r - 8 \<in> set ?js" using prefix_length_le [OF True] by auto
        moreover have "distinct ?js" by simp
        ultimately show ?thesis by (simp only: True if_True map_filter_single)
      next
        case False
        then show ?thesis by (simp add: List.map_filter_def)
      qed
      finally show ?thesis using Some Leaf by simp
    qed
  qed
  show ?thesis unfolding matches_split [OF length_byte_bits] low high ..
qed

section \<open>What the walks find\<close>

definition stack_values :: "('n, 'v) node_stack \<Rightarrow> 'v list" where
  "stack_values stack = concat (map (\<lambda>(n, octet). level_values n octet) (rev stack))"

lemma stack_values_simps [simp]:
  "stack_values [] = []" "stack_values (stack @ [(n, octet)]) = level_values n octet @ stack_values stack"
  by (simp_all add: stack_values_def)

text \<open>The state of the iterator in the middle of a node.\<close>

definition iter_at :: "('n, 'v) node_stack \<Rightarrow> ('n, 'v) NodePrefixIter \<Rightarrow> 'v list \<Rightarrow> bool" where
  "iter_at stack it vs \<longleftrightarrow>
     (\<exists>stack0 n octet m. stack = stack0 @ [(n, octet)] \<and> pi_node it = n \<and> m \<le> 8 \<and> length (pi_yield_state it) = 4 \<and>
        bs_abs (pi_yield_state it) = yield_set n (byte_bits octet) m \<and>
        vs = map snd (covering n (byte_bits octet) m) @ stack_values stack0)"

definition walk_finds ::
  "'v list \<Rightarrow> ('v option \<times> ('n, 'v) node_stack \<times> ('n, 'v) NodePrefixIter option) option \<Rightarrow> bool" where
  "walk_finds vs r = (case vs of
     [] \<Rightarrow> (\<exists>it. r = Some (None, [], it))
   | v # vs' \<Rightarrow> \<exists>stack it. r = Some (Some v, stack, Some it) \<and> iter_at stack it vs' \<and> list_all (\<lambda>x. node_wf (fst x)) stack)"

lemma walk_stack_iter:
  assumes "list_all (\<lambda>x. node_wf (fst x)) (stack @ [(n, octet)])" and "pi_node it = n" and "m \<le> 8" and "length (pi_yield_state it) = 4"
    and "bs_abs (pi_yield_state it) = yield_set n (byte_bits octet) m"
    and below: "walk_finds (stack_values stack) (walk_stack stack None)"
  shows "walk_finds (map snd (covering n (byte_bits octet) m) @ stack_values stack) (walk_stack (stack @ [(n, octet)]) (Some it))"
proof -
  have wf: "node_wf n" using assms(1) by simp
  note next_spec = pfx_next_spec [OF wf length_byte_bits assms(3-5)]
  show ?thesis
  proof (cases "covering n (byte_bits octet) m")
    case Nil
    with next_spec have "pfx_next n (pi_yield_state it) = Some (None, pi_yield_state it)" by simp
    then have "walk_stack (stack @ [(n, octet)]) (Some it) = walk_stack stack None"
      by (simp add: walk_stack.simps [of "stack @ _"] NodePrefixIter_next_def assms(2))
    with Nil below show ?thesis by simp
  next
    case (Cons x xs)
    with next_spec obtain m' st' where st': "pfx_next n (pi_yield_state it) = Some (Some x, st')" "m' \<le> 8" "length st' = 4"
      "bs_abs st' = yield_set n (byte_bits octet) m'" "covering n (byte_bits octet) m' = xs" by auto
    then have "walk_stack (stack @ [(n, octet)]) (Some it) = Some (Some (snd x), stack @ [(n, octet)], Some (it\<lparr>pi_yield_state := st'\<rparr>))"
      by (simp add: walk_stack.simps [of "stack @ _"] NodePrefixIter_next_def assms(2) split: prod.split)
    moreover have "iter_at (stack @ [(n, octet)]) (it\<lparr>pi_yield_state := st'\<rparr>) (map snd xs @ stack_values stack)"
      using st' assms(2) by (auto simp: iter_at_def)
    ultimately show ?thesis using Cons assms(1) by (simp add: walk_finds_def)
  qed
qed

lemma walk_stack_start:
  "list_all (\<lambda>x. node_wf (fst x)) stack \<Longrightarrow> walk_finds (stack_values stack) (walk_stack stack None)"
proof (induction stack rule: rev_induct)
  case Nil
  then show ?case by (simp add: walk_finds_def walk_stack.simps)
next
  case (snoc x stack)
  obtain n octet where x: "x = (n, octet)" by fastforce
  have wf: "node_wf n" and below: "walk_finds (stack_values stack) (walk_stack stack None)" using snoc x by simp_all
  obtain st where st: "for_octet n octet = Some \<lparr>pi_node = n, pi_yield_state = st\<rparr>" "length st = 4" "bs_abs st = yield_set n (byte_bits octet) 8"
    using for_octet_spec [OF wf] by blast
  have "walk_stack (stack @ [x]) None = walk_stack (stack @ [x]) (Some \<lparr>pi_node = n, pi_yield_state = st\<rparr>)"
    by (simp add: walk_stack.simps [of "stack @ _" None] x st(1))
  moreover have "walk_finds (map snd (covering n (byte_bits octet) 8) @ stack_values stack)
      (walk_stack (stack @ [(n, octet)]) (Some \<lparr>pi_node = n, pi_yield_state = st\<rparr>))"
    using snoc.prems x st below by (intro walk_stack_iter) simp_all
  ultimately show ?case by (simp add: x level_values_def)
qed

lemma walk_stack_resume:
  assumes "iter_at stack it vs" and "list_all (\<lambda>x. node_wf (fst x)) stack"
  shows "walk_finds vs (walk_stack stack (Some it))"
proof -
  obtain stack0 n octet m where st: "stack = stack0 @ [(n, octet)]" "pi_node it = n" "m \<le> 8" "length (pi_yield_state it) = 4"
    "bs_abs (pi_yield_state it) = yield_set n (byte_bits octet) m" "vs = map snd (covering n (byte_bits octet) m) @ stack_values stack0"
    using assms(1) by (auto simp: iter_at_def)
  have "walk_finds (stack_values stack0) (walk_stack stack0 None)" using assms(2) st(1) by (intro walk_stack_start) simp
  with st assms(2) show ?thesis by (auto intro!: walk_stack_iter)
qed

lemma yields_resume:
  "li_value it = None \<Longrightarrow> li_prefix_iter it = Some pi \<Longrightarrow> iter_at (li_stack it) pi vs \<Longrightarrow>
   list_all (\<lambda>x. node_wf (fst x)) (li_stack it) \<Longrightarrow> yields it vs"
proof (induction vs arbitrary: it pi)
  case Nil
  from walk_stack_resume [OF Nil(3,4)] obtain i where "walk_stack (li_stack it) (Some pi) = Some (None, [], i)" by (auto simp: walk_finds_def)
  then have "LookupIter_next it = Some (None, it\<lparr>li_stack := [], li_prefix_iter := i\<rparr>)" using Nil(1,2) by (simp add: LookupIter_next_def)
  then show ?case by (rule yields_end)
next
  case (Cons v vs)
  from walk_stack_resume [OF Cons.prems(3,4)] obtain stack pi' where w: "walk_stack (li_stack it) (Some pi) = Some (Some v, stack, Some pi')"
    "iter_at stack pi' vs" "list_all (\<lambda>x. node_wf (fst x)) stack" by (auto simp: walk_finds_def)
  have "LookupIter_next it = Some (Some v, it\<lparr>li_stack := stack, li_prefix_iter := Some pi'\<rparr>)"
    using Cons.prems(1,2) w(1) by (simp add: LookupIter_next_def)
  then show ?case by (rule yields_step) (rule Cons.IH [of _ pi'], simp_all add: Cons.prems w)
qed

lemma yields_start:
  assumes "li_value it = None" and "li_prefix_iter it = None" and "list_all (\<lambda>x. node_wf (fst x)) (li_stack it)"
  shows "yields it (stack_values (li_stack it))"
proof (cases "stack_values (li_stack it)")
  case Nil
  with walk_stack_start [OF assms(3)] obtain i where "walk_stack (li_stack it) None = Some (None, [], i)" by (auto simp: walk_finds_def)
  then have "LookupIter_next it = Some (None, it\<lparr>li_stack := [], li_prefix_iter := i\<rparr>)" using assms(1,2) by (simp add: LookupIter_next_def)
  then show ?thesis unfolding Nil by (rule yields_end)
next
  case (Cons v vs)
  with walk_stack_start [OF assms(3)] obtain stack pi' where w: "walk_stack (li_stack it) None = Some (Some v, stack, Some pi')"
    "iter_at stack pi' vs" "list_all (\<lambda>x. node_wf (fst x)) stack" by (auto simp: walk_finds_def)
  have "LookupIter_next it = Some (Some v, it\<lparr>li_stack := stack, li_prefix_iter := Some pi'\<rparr>)"
    using assms(1,2) w(1) by (simp add: LookupIter_next_def)
  then show ?thesis unfolding Cons by (rule yields_step) (rule yields_resume [of _ pi'], simp_all add: assms w)
qed

declare routes.simps [simp del]

lemma net_bits_path:
  assumes "net_fits N p" and "take (length path) (ip_octets (net_addr N p)) = path" and "8 * length path \<le> length (net_bits N p)"
  shows "net_bits N p = octet_bits path @ rel N p (length path)"
proof -
  have "take (8 * length path) (net_bits N p) = take (8 * length path) (ip_bits (net_addr N p))"
    using assms(3) net_bits_length [OF assms(1)] by (simp add: net_bits_def)
  also have "\<dots> = octet_bits path" by (simp add: ip_bits_def take_octet_bits assms(2))
  finally show ?thesis unfolding rel_def by (metis append_take_drop_id)
qed

lemma leaf_contains:
  assumes ok: "ipnet_ok N" and leaf: "leaf_wf N v4 (path @ [b]) p" and addr: "ip_wf addr" "is_ipv4 addr = v4" "ip_octets addr = path @ b # os"
  shows "net_contains N p addr \<longleftrightarrow> Sublist.prefix (rel N p (length path)) (octet_bits (b # os))"
    and "8 < length (rel N p (length path))"
proof -
  have fits: "net_fits N p" using ok by (rule ipnet_okD)
  have "take (length path) (take (Suc (length path)) (ip_octets (net_addr N p))) = path" using leaf by (simp add: leaf_wf_def)
  then have path: "take (length path) (ip_octets (net_addr N p)) = path" by (simp add: take_take)
  have l: "8 * length path + 8 < length (net_bits N p)" using leaf by (simp add: leaf_wf_def)
  note nb = net_bits_path [OF fits path]
  show l': "8 < length (rel N p (length path))" using l by (simp add: rel_def)
  have len: "unat (net_len N p) = 8 * length path + length (rel N p (length path))" using l net_bits_length [OF fits] by (simp add: rel_def)
  have "net_contains N p addr \<longleftrightarrow> take (unat (net_len N p)) (ip_bits addr) = net_bits N p"
    using ipnet_okD(3) [OF ok addr(1)] leaf addr(2) by (simp add: leaf_wf_def)
  also have "\<dots> \<longleftrightarrow> take (length (rel N p (length path))) (octet_bits (b # os)) = rel N p (length path)"
    using nb l by (simp add: len ip_bits_def addr(3) del: octet_bits_simps(2))
  also have "\<dots> \<longleftrightarrow> Sublist.prefix (rel N p (length path)) (octet_bits (b # os))"
    by (metis append_eq_conv_conj prefix_def take_is_prefix)
  finally show "net_contains N p addr \<longleftrightarrow> Sublist.prefix (rel N p (length path)) (octet_bits (b # os))" .
qed

lemma stack_values_append: "stack_values (as @ bs) = stack_values bs @ stack_values as"
  by (simp add: stack_values_def)

lemma address_all_walk_spec:
  assumes ok: "ipnet_ok N" and addr: "ip_wf addr" "is_ipv4 addr = v4"
  shows "trie_wf (length os) N v4 path node \<Longrightarrow> ip_octets addr = path @ os \<Longrightarrow> length (li_stack it) = length path \<Longrightarrow>
    li_value it = None \<Longrightarrow>
    \<exists>it' new. address_all_walk N addr os node it = Some it' \<and> li_stack it' = li_stack it @ new \<and>
      list_all (\<lambda>x. node_wf (fst x)) new \<and>
      matches (routes (length os) N (length path) node) (octet_bits os) =
        (case li_value it' of None \<Rightarrow> [] | Some v \<Rightarrow> [v]) @ stack_values new"
proof (induction os arbitrary: node it path)
  case (Cons b os)
  have wf: "node_wf node" using Cons.prems(1) by simp
  have child: "case c of Path m \<Rightarrow> trie_wf (length os) N v4 (path @ [b]) m | Fringe _ \<Rightarrow> True | Leaf p _ \<Rightarrow> leaf_wf N v4 (path @ [b]) p"
    if "cmap node (unat b) = Some c" for c using Cons.prems(1) that by auto
  have leaf: "leaf_wf N v4 (path @ [b]) p" if "cmap node (unat b) = Some (Leaf p v)" for p v using child [OF that] by simp
  have len: "length (li_stack it) < MAX_DEPTH"
    using Cons.prems(2,3) length_ip_octets [of addr] by (simp add: MAX_DEPTH_def)
  let ?it = "it\<lparr>li_stack := li_stack it @ [(node, b)]\<rparr>"
  have step: "matches (routes (Suc (length os)) N (length path) node) (octet_bits (b # os)) =
    (case cmap node (unat b) of
       None \<Rightarrow> []
     | Some (Path m) \<Rightarrow> matches (routes (length os) N (Suc (length path)) m) (octet_bits os)
     | Some (Fringe v) \<Rightarrow> [v]
     | Some (Leaf p v) \<Rightarrow> if Sublist.prefix (rel N p (length path)) (octet_bits (b # os)) then [v] else []) @ level_values node b"
    unfolding octet_bits_simps(2) by (rule matches_step) (rule leaf_contains(2) [OF ok leaf addr Cons.prems(2)])
  have found: ?case if "address_all_walk N addr (b # os) node it = Some it'" "li_stack it' = li_stack it @ [(node, b)]"
    "matches (routes (Suc (length os)) N (length path) node) (octet_bits (b # os)) =
       (case li_value it' of None \<Rightarrow> [] | Some v \<Rightarrow> [v]) @ level_values node b" for it'
    using that wf by (intro exI [of _ it'] exI [of _ "[(node, b)]"]) (simp add: stack_values_def del: address_all_walk.simps)
  show ?case
  proof (cases "cmap node (unat b)")
    case None
    show ?thesis by (rule found [of ?it]) (use None wf len step Cons.prems(4) in \<open>simp_all add: Let_def\<close>)
  next
    case (Some c)
    show ?thesis
    proof (cases c)
      case (Path m)
      have "trie_wf (length os) N v4 (path @ [b]) m" using child [OF Some] Path by simp
      then obtain it' new where it': "address_all_walk N addr os m ?it = Some it'" "li_stack it' = li_stack ?it @ new"
        "list_all (\<lambda>x. node_wf (fst x)) new"
        "matches (routes (length os) N (length (path @ [b])) m) (octet_bits os) =
          (case li_value it' of None \<Rightarrow> [] | Some v \<Rightarrow> [v]) @ stack_values new"
        using Cons.IH [of "path @ [b]" m ?it] Cons.prems(2-4) by auto
      then show ?thesis using Some Path wf len step
        by (intro exI [of _ it'] exI [of _ "(node, b) # new"]) (simp add: Let_def stack_values_def)
    next
      case (Fringe v)
      show ?thesis by (rule found [of "?it\<lparr>li_value := Some v\<rparr>"]) (use Some Fringe wf len step in \<open>simp_all add: Let_def\<close>)
    next
      case (Leaf p v)
      have "leaf_wf N v4 (path @ [b]) p" using leaf Some Leaf by blast
      note contains = leaf_contains(1) [OF ok this addr Cons.prems(2)]
      show ?thesis
        by (rule found [of "if net_contains N p addr then ?it\<lparr>li_value := Some v\<rparr> else ?it"])
           (use Some Leaf wf len step contains Cons.prems(4) in \<open>auto simp: Let_def\<close>)
    qed
  qed
qed simp

section \<open>Address lookups find the longest match\<close>

definition trie_ok :: "'n ipnet \<Rightarrow> bool \<Rightarrow> ('n, 'v) Node \<Rightarrow> bool" where
  "trie_ok N v4 node \<longleftrightarrow> trie_wf (ip_width v4) N v4 [] node"

definition trie_routes :: "'n ipnet \<Rightarrow> bool \<Rightarrow> ('n, 'v) Node \<Rightarrow> bool list \<rightharpoonup> 'v" where
  "trie_routes N v4 node = routes (ip_width v4) N 0 node"

definition is_lpm :: "(bool list \<rightharpoonup> 'v) \<Rightarrow> bool list \<Rightarrow> 'v option \<Rightarrow> bool" where
  "is_lpm R bs r = (case r of
     None \<Rightarrow> \<forall>p. Sublist.prefix p bs \<longrightarrow> R p = None
   | Some v \<Rightarrow> \<exists>p. Sublist.prefix p bs \<and> R p = Some v \<and> (\<forall>q. Sublist.prefix q bs \<longrightarrow> R q \<noteq> None \<longrightarrow> length q \<le> length p))"

lemma map_filter_first:
  "case List.map_filter f (rev [0..<m]) of
     [] \<Rightarrow> (\<forall>k<m. f k = None)
   | v # _ \<Rightarrow> \<exists>k<m. f k = Some v \<and> (\<forall>j<m. f j \<noteq> None \<longrightarrow> j \<le> k)"
proof (induction m)
  case (Suc m)
  show ?case
  proof (cases "f m")
    case None
    with Suc show ?thesis by (auto simp: map_filter_simps less_Suc_eq split: list.splits)
  next
    case (Some v)
    then show ?thesis by (auto simp: map_filter_simps intro!: exI [of _ m])
  qed
qed (simp add: map_filter_simps)

lemma prefix_iff_take: "Sublist.prefix p bs \<longleftrightarrow> (\<exists>k<Suc (length bs). p = take k bs)"
proof
  assume "Sublist.prefix p bs"
  then have "p = take (length p) bs" "length p < Suc (length bs)" by (auto simp: prefix_def)
  then show "\<exists>k<Suc (length bs). p = take k bs" by blast
qed (auto simp: take_is_prefix)

definition best_match :: "(bool list \<rightharpoonup> 'v) \<Rightarrow> bool list \<Rightarrow> 'v option" where
  "best_match R bs = (case matches R bs of [] \<Rightarrow> None | v # _ \<Rightarrow> Some v)"

lemma best_match_lpm: "is_lpm R bs (best_match R bs)"
proof (cases "matches R bs")
  case Nil
  with map_filter_first [where f = "\<lambda>k. R (take k bs)" and m = "Suc (length bs)"] show ?thesis
    by (auto simp: is_lpm_def prefix_iff_take matches_def best_match_def)
next
  case (Cons v vs)
  with map_filter_first [where f = "\<lambda>k. R (take k bs)" and m = "Suc (length bs)"]
  obtain k where k: "k < Suc (length bs)" "R (take k bs) = Some v" "\<And>j. j < Suc (length bs) \<Longrightarrow> R (take j bs) \<noteq> None \<Longrightarrow> j \<le> k"
    by (auto simp: matches_def)
  have "length (take j bs) \<le> length (take k bs)" if "j < Suc (length bs)" "R (take j bs) \<noteq> None" for j
    using k(3) [OF that] by simp
  with k(1,2) Cons show ?thesis unfolding is_lpm_def prefix_iff_take best_match_def by auto
qed

lemma best_match_cong: "(\<And>p. Sublist.prefix p bs \<Longrightarrow> R p = R' p) \<Longrightarrow> best_match R bs = best_match R' bs"
  unfolding best_match_def matches_def
  by (rule arg_cong [where f = "case_list None (\<lambda>v _. Some v)"], rule map_filter_cong) (simp add: take_is_prefix)

lemma lookup_all_spec:
  assumes "ipnet_ok N" and "ip_wf addr" and "trie_ok N (is_ipv4 addr) node"
  obtains it where "lookup_address_all N node addr = Some it"
    and "yields it (matches (trie_routes N (is_ipv4 addr) node) (ip_bits addr))"
proof -
  let ?os = "ip_octets addr"
  have len: "length ?os = ip_width (is_ipv4 addr)" using assms(2) by (rule ip_wf_octets)
  obtain it new where it: "address_all_walk N addr ?os node LookupIter_default = Some it" "li_stack it = new"
    "list_all (\<lambda>x. node_wf (fst x)) new"
    "matches (routes (length ?os) N 0 node) (octet_bits ?os) = (case li_value it of None \<Rightarrow> [] | Some v \<Rightarrow> [v]) @ stack_values new"
    using address_all_walk_spec [OF assms(1,2) refl, of ?os "[]" node LookupIter_default] assms(3) len by (auto simp: trie_ok_def)
  have pi: "li_prefix_iter it = None" using address_all_walk_iter [OF it(1)] by simp
  have "yields it (matches (routes (length ?os) N 0 node) (octet_bits ?os))"
  proof (cases "li_value it")
    case None
    with yields_start [of it] pi it show ?thesis by simp
  next
    case (Some v)
    have "yields (it\<lparr>li_value := None\<rparr>) (stack_values new)" using yields_start [of "it\<lparr>li_value := None\<rparr>"] pi it by simp
    moreover have "LookupIter_next it = Some (Some v, it\<lparr>li_value := None\<rparr>)" using Some by (simp add: LookupIter_next_def)
    ultimately show ?thesis using Some it(4) by (auto intro: yields_step)
  qed
  then show ?thesis using that it(1) by (simp add: lookup_address_all_def trie_routes_def ip_bits_def len)
qed

inductive_cases yields_NilE: "yields it []"
inductive_cases yields_ConsE: "yields it (v # vs)"

lemma yields_first:
  "yields it vs \<Longrightarrow> \<exists>it'. LookupIter_next it = Some (case vs of [] \<Rightarrow> None | v # _ \<Rightarrow> Some v, it')"
  by (cases vs) (auto elim: yields_NilE yields_ConsE)

lemma lookup_address_spec:
  assumes "ipnet_ok N" and "ip_wf addr" and "trie_ok N (is_ipv4 addr) node"
  shows "lookup_address N node addr = Some (best_match (trie_routes N (is_ipv4 addr) node) (ip_bits addr))"
proof -
  obtain it where it: "lookup_address_all N node addr = Some it"
    "yields it (matches (trie_routes N (is_ipv4 addr) node) (ip_bits addr))" by (rule lookup_all_spec [OF assms])
  from yields_first [OF it(2)] obtain it' where
    "LookupIter_next it = Some (case matches (trie_routes N (is_ipv4 addr) node) (ip_bits addr) of [] \<Rightarrow> None | v # _ \<Rightarrow> Some v, it')" by blast
  with it(1) show ?thesis unfolding first_of_all [of N node addr] by (simp add: best_match_def)
qed

end
