(* ===== verification/Bart_Update.thy ===== *)
theory Bart_Update
  imports Bart_Lookup
begin

text \<open>
  Updates of the routing trie: insertion (\<open>ts_bart/src/iptrie/insert.rs\<close>), removal with path
  compression (\<open>remove.rs\<close>) and modification through a closure (\<open>modify.rs\<close>).  The loops that
  descend through mutable references are recursions that return the updated node.  The lemmas
  show that on well-formed tries no unwrap fails and that the routes change as on a map.
\<close>

section \<open>Insertion\<close>

function insert_inner :: "'n ipnet \<Rightarrow> ('n, 'v) Node \<Rightarrow> 'n \<Rightarrow> 'v \<Rightarrow> nat \<Rightarrow> ('v option \<times> ('n, 'v) Node) option" where
  "insert_inner N node pfx val depth =
     (let octets = ip_octets (net_addr N pfx);
          (pfx_full_strides, pfx_overflow_bits) = stride_count_and_overflow N pfx
      in if depth < length octets
         then let octet = octets ! depth
              in if depth = pfx_full_strides
                 then do { i \<leftarrow> from_prefix octet pfx_overflow_bits; insert_prefix i val node }
                 else do {
                   occupied \<leftarrow> bs_test (unat octet) (child_bitset node);
                   if \<not> occupied
                   then do {
                     f \<leftarrow> is_fringe N depth pfx;
                     (old, node') \<leftarrow> insert_child octet (if f then Fringe val else Leaf pfx val) node;
                     Some (Option.bind old into_value, node')
                   }
                   else do {
                     found \<leftarrow> get_child octet node;
                     child \<leftarrow> found;
                     case child of
                       Path n \<Rightarrow>
                         do {
                           (old, n') \<leftarrow> insert_inner N n pfx val (depth + 1);
                           node' \<leftarrow> get_child_mut octet (Path n') node;
                           Some (old, node')
                         }
                     | Leaf leaf_pfx leaf_value \<Rightarrow>
                         if pfx = leaf_pfx
                         then do { node' \<leftarrow> get_child_mut octet (Leaf leaf_pfx val) node; Some (Some leaf_value, node') }
                         else do {
                           (_, node1) \<leftarrow> insert_child octet (Path node_EMPTY) node;
                           (_, n) \<leftarrow> insert_inner N node_EMPTY leaf_pfx leaf_value (depth + 1);
                           (old, n') \<leftarrow> insert_inner N n pfx val (depth + 1);
                           node' \<leftarrow> get_child_mut octet (Path n') node1;
                           Some (old, node')
                         }
                     | Fringe old_value \<Rightarrow>
                         do {
                           f \<leftarrow> is_fringe N depth pfx;
                           if f
                           then do { node' \<leftarrow> get_child_mut octet (Fringe val) node; Some (Some old_value, node') }
                           else do {
                             (_, node1) \<leftarrow> insert_child octet (Path node_EMPTY) node;
                             i \<leftarrow> BaseIndex_new 1;
                             (_, n) \<leftarrow> insert_prefix i old_value node_EMPTY;
                             (old, n') \<leftarrow> insert_inner N n pfx val (depth + 1);
                             node' \<leftarrow> get_child_mut octet (Path n') node1;
                             Some (old, node')
                           }
                         }
                   }
                 }
         else Some (None, node))"
  by pat_completeness auto
termination
  by (relation "measure (\<lambda>(_, _, _, _, depth). 16 - depth)") (auto dest!: less_le_trans [OF _ length_ip_octets])

declare insert_inner.simps [simp del]

definition trie_insert :: "'n ipnet \<Rightarrow> ('n, 'v) Node \<Rightarrow> 'n \<Rightarrow> 'v \<Rightarrow> ('v option \<times> ('n, 'v) Node) option" where
  "trie_insert N node pfx val = insert_inner N node (net_trunc N pfx) val 0"

section \<open>Removal\<close>

record ('n, 'v) RemovalInfo =
  ri_value :: 'v
  ri_compression_root_depth :: nat
  ri_node_prefix :: 'n

definition try_remove_last_child ::
  "'n ipnet \<Rightarrow> ('n, 'v) Node \<Rightarrow> bytes \<Rightarrow> nat \<Rightarrow> bool \<Rightarrow> nat \<Rightarrow> (('n, 'v) RemovalInfo option \<times> ('n, 'v) Node) option" where
  "try_remove_last_child N node octets depth ipv4 compression_root_depth =
     (if depth = compression_root_depth then Some (None, node)
      else if child_count node = 0 \<and> prefix_count node = 1
      then do {
        idx \<leftarrow> bs_first_set (prefix_bitset node);
        i \<leftarrow> BaseIndex_new (of_nat idx);
        (removed, node') \<leftarrow> remove_prefix i node;
        val \<leftarrow> removed;
        pfx \<leftarrow> prefix_from_path N octets depth ipv4 i;
        Some (Some \<lparr>ri_value = val, ri_compression_root_depth = compression_root_depth, ri_node_prefix = pfx\<rparr>, node')
      }
      else if child_count node = 1 \<and> prefix_count node = 0
      then do {
        addr0 \<leftarrow> bs_first_set (child_bitset node);
        let addr = of_nat addr0 in do {
        found \<leftarrow> get_child addr node;
        child \<leftarrow> found;
        case child of
          Path _ \<Rightarrow> Some (None, node)
        | _ \<Rightarrow>
            do {
              (removed, node') \<leftarrow> remove_child addr node;
              c \<leftarrow> removed;
              (pfx, val) \<leftarrow> (case c of
                  Fringe val \<Rightarrow> do { pfx \<leftarrow> fringe_prefix N octets depth ipv4 addr; Some (pfx, val) }
                | Leaf pfx val \<Rightarrow> Some (pfx, val)
                | Path _ \<Rightarrow> None);
              Some (Some \<lparr>ri_value = val, ri_compression_root_depth = compression_root_depth, ri_node_prefix = pfx\<rparr>, node')
            }
        }
      }
      else Some (None, node))"

fun remove_walk ::
  "'n ipnet \<Rightarrow> bytes \<Rightarrow> 'n \<Rightarrow> bytes \<Rightarrow> nat \<Rightarrow> nat \<Rightarrow> ('n, 'v) Node \<Rightarrow>
   ('v option \<times> ('n, 'v) RemovalInfo option \<times> ('n, 'v) Node) option" where
  "remove_walk N octets pfx [] depth root_depth node = Some (None, None, node)"
| "remove_walk N octets pfx (octet # os) depth root_depth node =
     (let (stride_count, overflow_bits) = stride_count_and_overflow N pfx
      in if depth = stride_count
         then do {
           i \<leftarrow> from_prefix octet overflow_bits;
           (ret, node1) \<leftarrow> remove_prefix i node;
           (info, node2) \<leftarrow> try_remove_last_child N node1 octets depth (is_ipv4 (net_addr N pfx)) root_depth;
           Some (ret, info, node2)
         }
         else do {
           found \<leftarrow> get_child octet node;
           case found of
             None \<Rightarrow> Some (None, None, node)
           | Some child \<Rightarrow>
               do {
                 here \<leftarrow> (case child of
                     Leaf leaf_pfx _ \<Rightarrow> Some (if leaf_pfx \<noteq> pfx then None else Some True)
                   | Fringe _ \<Rightarrow> do { f \<leftarrow> is_fringe N depth pfx; Some (if f then Some True else None) }
                   | Path _ \<Rightarrow> Some (Some False));
                 case here of
                   None \<Rightarrow> Some (None, None, node)
                 | Some True \<Rightarrow>
                     do {
                       (removed, node1) \<leftarrow> remove_child octet node;
                       c \<leftarrow> removed;
                       (info, node2) \<leftarrow> try_remove_last_child N node1 octets depth (is_ipv4 (net_addr N pfx)) root_depth;
                       Some (into_value c, info, node2)
                     }
                 | Some False \<Rightarrow>
                     (let is_deletable = (child_count node = 1 \<and> prefix_count node = 0);
                          root_depth' = (if \<not> is_deletable then depth else root_depth)
                      in do {
                           n \<leftarrow> into_node child;
                           (ret, info, n') \<leftarrow> remove_walk N octets pfx os (depth + 1) root_depth' n;
                           node' \<leftarrow> get_child_mut octet (Path n') node;
                           Some (ret, info, node')
                         })
               }
         })"

fun compress_walk :: "'n ipnet \<Rightarrow> ('n, 'v) RemovalInfo \<Rightarrow> bytes \<Rightarrow> nat \<Rightarrow> ('n, 'v) Node \<Rightarrow> ('n, 'v) Node option" where
  "compress_walk N info [] depth node = None"
| "compress_walk N info (octet # os) depth node =
     (if depth < ri_compression_root_depth info
      then do {
        found \<leftarrow> get_child octet node;
        child \<leftarrow> found;
        n \<leftarrow> into_node child;
        n' \<leftarrow> compress_walk N info os (depth + 1) n;
        get_child_mut octet (Path n') node
      }
      else do {
        (removed, node1) \<leftarrow> remove_child octet node;
        _ \<leftarrow> removed;
        (_, node2) \<leftarrow> insert_inner N node1 (ri_node_prefix info) (ri_value info) (ri_compression_root_depth info);
        Some node2
      })"

definition compress_removal_path :: "'n ipnet \<Rightarrow> ('n, 'v) Node \<Rightarrow> ('n, 'v) RemovalInfo \<Rightarrow> ('n, 'v) Node option" where
  "compress_removal_path N root info = compress_walk N info (ip_octets (net_addr N (ri_node_prefix info))) 0 root"

definition trie_remove :: "'n ipnet \<Rightarrow> ('n, 'v) Node \<Rightarrow> 'n \<Rightarrow> ('v option \<times> ('n, 'v) Node) option" where
  "trie_remove N node pfx0 =
     (let pfx = net_trunc N pfx0;
          octets = ip_octets (net_addr N pfx)
      in do {
           (ret, removal, node1) \<leftarrow> remove_walk N octets pfx octets 0 0 node;
           case removal of
             None \<Rightarrow> Some (ret, node1)
           | Some info \<Rightarrow> do { node2 \<leftarrow> compress_removal_path N node1 info; Some (ret, node2) }
         })"

section \<open>Routes and prefixes, level by level\<close>

lemma routes_short: "length r < 8 \<Longrightarrow> routes (Suc k) N d n r = pmap n (bidx r)"
  by (simp add: routes.simps)

lemma routes_long:
  "routes (Suc k) N d n (byte_bits b @ r) =
     (case cmap n (unat b) of
        None \<Rightarrow> None
      | Some (Path m) \<Rightarrow> routes k N (Suc d) m r
      | Some (Fringe v) \<Rightarrow> if r = [] then Some v else None
      | Some (Leaf p v) \<Rightarrow> if rel N p d = byte_bits b @ r then Some v else None)"
  by (simp add: routes.simps split: option.split Child.split)

lemma routes_ext:
  assumes "\<And>r. length r < 8 \<Longrightarrow> f r = g r" and "\<And>b r. f (byte_bits b @ r) = g (byte_bits b @ r)"
  shows "f = g"
proof
  fix r :: "bool list"
  show "f r = g r"
  proof (cases "length r < 8")
    case False
    then obtain b where "byte_bits b = take 8 r" using byte_bits_surj [of "take 8 r"] by auto
    then have "r = byte_bits b @ drop 8 r" by (metis append_take_drop_id)
    with assms(2) show ?thesis by metis
  qed (rule assms(1))
qed

lemma routes_upd_prefix:
  assumes "cmap n' = cmap n" and "pmap n' = (pmap n)(bidx s := x)" and "length s < 8"
  shows "routes (Suc k) N d n' = (routes (Suc k) N d n)(s := x)"
proof (rule routes_ext)
  show "routes (Suc k) N d n' r = ((routes (Suc k) N d n)(s := x)) r" if "length r < 8" for r
    using that assms(2) by (simp add: routes_short)
  show "routes (Suc k) N d n' (byte_bits b @ r) = ((routes (Suc k) N d n)(s := x)) (byte_bits b @ r)" for b r
    using assms(1,3) by (auto simp: routes_long)
qed

lemma routes_upd_child:
  assumes "pmap n' = pmap n" and "cmap n' = (cmap n)(unat b := c)"
    and "\<And>r. routes (Suc k) N d n' (byte_bits b @ r) = (if r = s then x else routes (Suc k) N d n (byte_bits b @ r))"
  shows "routes (Suc k) N d n' = (routes (Suc k) N d n)(byte_bits b @ s := x)"
proof (rule routes_ext)
  show "routes (Suc k) N d n' r = ((routes (Suc k) N d n)(byte_bits b @ s := x)) r" if "length r < 8" for r
    using that assms(1) by (auto simp: routes_short)
  show "routes (Suc k) N d n' (byte_bits b' @ r) = ((routes (Suc k) N d n)(byte_bits b @ s := x)) (byte_bits b' @ r)" for b' r
  proof (cases "b' = b")
    case False
    then have "unat b' \<noteq> unat b" by (simp add: word_unat_eq_iff)
    with False assms(2) show ?thesis by (simp add: routes_long)
  qed (use assms(3) in simp)
qed

definition net_at :: "'n ipnet \<Rightarrow> bool \<Rightarrow> bytes \<Rightarrow> 'n \<Rightarrow> bool" where
  "net_at N v4 path p \<longleftrightarrow> is_ipv4 (net_addr N p) = v4 \<and> net_trunc N p = p \<and>
     take (length path) (ip_octets (net_addr N p)) = path \<and> 8 * length path \<le> length (net_bits N p)"

lemma net_bits_inject:
  assumes ok: "ipnet_ok N" and "net_trunc N p = p" "net_trunc N q = q" "is_ipv4 (net_addr N p) = is_ipv4 (net_addr N q)"
    and bits: "net_bits N p = net_bits N q"
  shows "p = q"
proof -
  have fits: "net_fits N p" "net_fits N q" using ok by (rule ipnet_okD)+
  have len: "net_len N p = net_len N q" using net_bits_length [OF fits(1)] net_bits_length [OF fits(2)] bits by (simp add: word_unat_eq_iff)
  have wf: "ip_wf (net_addr N p)" "ip_wf (net_addr N q)" using fits by (simp_all add: net_fits_def)
  have "ip_bits (net_addr N p) = ip_bits (net_addr N q)"
    using ipnet_okD(7) [OF ok, of p] ipnet_okD(7) [OF ok, of q] assms(2-4) bits len ip_wf_bits [OF wf(1)] ip_wf_bits [OF wf(2)] by simp
  with wf assms(4) have "net_addr N p = net_addr N q" by (intro ip_bits_inject)
  with len show ?thesis by (intro ipnet_okD(2) [OF ok])
qed

lemma net_at_bits:
  assumes "ipnet_ok N" and "net_at N v4 path p"
  shows "net_bits N p = octet_bits path @ rel N p (length path)"
  using net_bits_path [OF ipnet_okD(1) [OF assms(1)]] assms(2) by (simp add: net_at_def)

lemma net_at_inject:
  assumes "ipnet_ok N" and "net_at N v4 path p" and "net_at N v4 path q"
  shows "rel N p (length path) = rel N q (length path) \<longleftrightarrow> p = q"
proof
  assume "rel N p (length path) = rel N q (length path)"
  then have "net_bits N p = net_bits N q" using net_at_bits [OF assms(1,2)] net_at_bits [OF assms(1,3)] by simp
  then show "p = q" by (rule net_bits_inject [OF assms(1), rotated 3]) (use assms in \<open>simp_all add: net_at_def\<close>)
qed simp

lemma leaf_at: "leaf_wf N v4 path p \<longleftrightarrow> net_at N v4 path p \<and> rel N p (length path) \<noteq> []"
  by (auto simp: leaf_wf_def net_at_def rel_def)

lemma net_at_up:
  assumes "net_at N v4 (path @ [b]) p"
  shows "net_at N v4 path p"
proof -
  have "take (length path) (take (Suc (length path)) (ip_octets (net_addr N p))) = path" using assms by (simp add: net_at_def)
  then have "take (length path) (ip_octets (net_addr N p)) = path" by (simp add: take_take)
  with assms show ?thesis by (simp add: net_at_def)
qed

lemma net_at_width:
  assumes "ipnet_ok N" and "net_at N v4 path p"
  shows "length (ip_octets (net_addr N p)) = ip_width v4"
  using ipnet_okD(1) [OF assms(1), of p] assms(2) by (simp add: net_fits_def net_at_def ip_wf_octets)

text \<open>A prefix below a node either ends in the stride of the node or goes on through one octet.\<close>

lemma net_at_cases [consumes 3, case_names here below]:
  assumes ok: "ipnet_ok N" and at: "net_at N v4 path p" and k: "length path + Suc k = ip_width v4"
  obtains (here) b ov where "stride_count_and_overflow N p = (length path, ov)" and "unat ov < 8"
      and "ip_octets (net_addr N p) ! length path = b" and "rel N p (length path) = take (unat ov) (byte_bits b)"
  | (below) b s ov where "stride_count_and_overflow N p = (s, ov)" and "length path < s"
      and "ip_octets (net_addr N p) ! length path = b" and "rel N p (length path) = byte_bits b @ rel N p (Suc (length path))"
      and "is_fringe N (length path) p = Some (rel N p (Suc (length path)) = [])" and "net_at N v4 (path @ [b]) p"
proof -
  have fits: "net_fits N p" using ok by (rule ipnet_okD)
  have len: "length (ip_octets (net_addr N p)) = ip_width v4" using fits at by (simp add: net_fits_def net_at_def ip_wf_octets)
  obtain s ov where st: "stride_count_and_overflow N p = (s, ov)" "unat ov < 8" "length (net_bits N p) = 8 * s + unat ov"
    using strides [OF fits] by blast
  have "length path \<le> s" using at st(2,3) by (simp add: net_at_def)
  then consider "s = length path" | "length path < s" by linarith
  then show ?thesis
  proof cases
    case 1
    have "s < length (ip_octets (net_addr N p))" using 1 len k by simp
    note r = rel_last [OF fits st(1) this]
    show ?thesis by (rule here [OF st(1) [unfolded 1] st(2) refl]) (use r(1) 1 in simp)
  next
    case 2
    note r = rel_below [OF fits st(1) 2]
    have "take (length (path @ [ip_octets (net_addr N p) ! length path])) (ip_octets (net_addr N p)) =
        path @ [ip_octets (net_addr N p) ! length path]"
      using at r(3) by (simp add: net_at_def take_Suc_conv_app_nth)
    then have "net_at N v4 (path @ [ip_octets (net_addr N p) ! length path]) p"
      using at 2 st(3) by (simp add: net_at_def)
    then show ?thesis by (rule below [OF st(1) 2 refl r(1,2)])
  qed
qed

definition child_wf :: "nat \<Rightarrow> 'n ipnet \<Rightarrow> bool \<Rightarrow> bytes \<Rightarrow> ('n, 'v) Child \<Rightarrow> bool" where
  "child_wf k N v4 path c =
     (case c of Path m \<Rightarrow> trie_wf k N v4 path m | Fringe _ \<Rightarrow> True | Leaf p _ \<Rightarrow> leaf_wf N v4 path p)"

lemma child_wf_simps [simp]:
  "child_wf k N v4 path (Path m) = trie_wf k N v4 path m" "child_wf k N v4 path (Fringe v)"
  "child_wf k N v4 path (Leaf p v) = leaf_wf N v4 path p"
  by (simp_all add: child_wf_def)

lemma trie_wf_Suc:
  "trie_wf (Suc k) N v4 path n \<longleftrightarrow> node_wf n \<and> (\<forall>b c. cmap n (unat b) = Some c \<longrightarrow> child_wf k N v4 (path @ [b]) c)"
  by (simp add: child_wf_def)

declare trie_wf.simps(2) [simp del]

lemma trie_wfD:
  "trie_wf (Suc k) N v4 path n \<Longrightarrow> node_wf n"
  "trie_wf (Suc k) N v4 path n \<Longrightarrow> cmap n (unat b) = Some c \<Longrightarrow> child_wf k N v4 (path @ [b]) c"
  by (simp_all add: trie_wf_Suc)

lemma trie_wf_upd_child:
  assumes "trie_wf (Suc k) N v4 path n" and "node_wf n'" and "cmap n' = (cmap n)(unat b := c)"
    and "\<And>c'. c = Some c' \<Longrightarrow> child_wf k N v4 (path @ [b]) c'"
  shows "trie_wf (Suc k) N v4 path n'"
  using assms unfolding trie_wf_Suc by (auto simp: word_unat_eq_iff [symmetric] split: if_splits)

lemma trie_wf_EMPTY [simp]: "trie_wf (Suc k) N v4 path node_EMPTY"
  by (simp add: trie_wf_Suc)

lemma routes_EMPTY [simp]: "routes k N d node_EMPTY = Map.empty"
  by (cases k) (auto simp: routes.simps)

section \<open>Exact lookups\<close>

lemma exact_walk_spec:
  assumes ok: "ipnet_ok N"
  shows "trie_wf (length os) N v4 path node \<Longrightarrow> net_at N v4 path p \<Longrightarrow> ip_octets (net_addr N p) = path @ os \<Longrightarrow>
    exact_walk N p os (length path) node = Some (routes (length os) N (length path) node (rel N p (length path)))"
proof (induction os arbitrary: path node)
  case (Cons b os)
  have wf: "node_wf node" using trie_wfD(1) Cons.prems(1) by (metis length_Cons)
  have k: "length path + Suc (length os) = ip_width v4"
    using net_at_width [OF ok Cons.prems(2)] Cons.prems(3) by simp
  from ok Cons.prems(2) k show ?case
  proof (cases rule: net_at_cases)
    case (here b' ov)
    then have b: "b' = b" using Cons.prems(3) by simp
    obtain i where "from_prefix b ov = Some i" "unat i = bidx (take (unat ov) (byte_bits b))"
      using from_prefix_spec [of ov b] here(2) by auto
    with here b wf show ?thesis by (simp add: routes_short)
  next
    case (below b' s ov)
    then have b: "b' = b" using Cons.prems(3) by simp
    show ?thesis
    proof (cases "cmap node (unat b)")
      case None
      with wf below b show ?thesis by (simp add: routes_long)
    next
      case (Some c)
      then have c: "child_wf (length os) N v4 (path @ [b]) c" using trie_wfD(2) Cons.prems(1) by (metis length_Cons)
      show ?thesis
      proof (cases c)
        case (Path m)
        then have "trie_wf (length os) N v4 (path @ [b]) m" using c by simp
        from Cons.IH [OF this] have "exact_walk N p os (Suc (length path)) m =
            Some (routes (length os) N (Suc (length path)) m (rel N p (Suc (length path))))"
          using below(6) b Cons.prems(3) by simp
        with wf below b Some Path show ?thesis by (simp add: routes_long)
      next
        case (Fringe v)
        with wf below b Some show ?thesis by (simp add: routes_long)
      next
        case (Leaf q v)
        then have "net_at N v4 path q" using c by (auto simp: leaf_at intro: net_at_up)
        from net_at_inject [OF ok this Cons.prems(2)] have "rel N q (length path) = rel N p (length path) \<longleftrightarrow> p = q" by auto
        with wf below b Some Leaf show ?thesis by (simp add: routes_long)
      qed
    qed
  qed
qed simp

section \<open>Insertion updates the routes\<close>

definition sets_route ::
  "nat \<Rightarrow> 'n ipnet \<Rightarrow> bool \<Rightarrow> bytes \<Rightarrow> ('n, 'v) Node \<Rightarrow> bool list \<Rightarrow> 'v \<Rightarrow> ('v option \<times> ('n, 'v) Node) option \<Rightarrow> bool" where
  "sets_route k N v4 path node s v r \<longleftrightarrow>
     (\<exists>node'. r = Some (routes k N (length path) node s, node') \<and> trie_wf k N v4 path node' \<and>
        routes k N (length path) node' = (routes k N (length path) node)(s \<mapsto> v))"

lemma sets_prefix:
  assumes wf: "trie_wf (Suc k) N v4 path node" and "unat i = bidx s" and "length s < 8"
  shows "sets_route (Suc k) N v4 path node s v (insert_prefix i v node)"
proof -
  have "i \<noteq> 0" using assms(2) by (metis bidx_pos less_irrefl unat_0)
  then obtain n' where n': "insert_prefix i v node = Some (pmap node (unat i), n')" "node_wf n'"
    "pmap n' = (pmap node)(unat i \<mapsto> v)" "cmap n' = cmap node" using insert_prefix_spec [OF trie_wfD(1) [OF wf]] by blast
  have "trie_wf (Suc k) N v4 path n'" using wf n'(2,4) by (simp add: trie_wf_Suc)
  with n' assms(2,3) routes_upd_prefix [of n' node s "Some v"] show ?thesis by (auto simp: sets_route_def routes_short)
qed

lemma sets_child:
  assumes wf: "trie_wf (Suc k) N v4 path node" and "node_wf n'" and "pmap n' = pmap node" and "cmap n' = (cmap node)(unat b \<mapsto> c)"
    and "child_wf k N v4 (path @ [b]) c"
    and "\<And>r. routes (Suc k) N (length path) n' (byte_bits b @ r) =
      (if r = s then Some v else routes (Suc k) N (length path) node (byte_bits b @ r))"
    and "old = routes (Suc k) N (length path) node (byte_bits b @ s)"
  shows "sets_route (Suc k) N v4 path node (byte_bits b @ s) v (Some (old, n'))"
  using assms(7) trie_wf_upd_child [OF wf assms(2,4)] assms(5) routes_upd_child [OF assms(3,4,6)] by (simp add: sets_route_def)

text \<open>Replacing the child of an octet by a path node that refines what the child held.\<close>

lemma sets_via_path:
  assumes wf: "trie_wf (Suc k) N v4 path node" and n: "node_wf n1" "pmap n1 = pmap node" "cmap n1 = (cmap node)(unat b := c1)" "c1 \<noteq> None"
    and below: "sets_route k N v4 (path @ [b]) m s v r"
    and same: "\<And>r. routes k N (Suc (length path)) m r = routes (Suc k) N (length path) node (byte_bits b @ r)"
  shows "sets_route (Suc k) N v4 path node (byte_bits b @ s) v
    (do { (old, m') \<leftarrow> r; node' \<leftarrow> get_child_mut b (Path m') n1; Some (old, node') })"
proof -
  obtain m' where m': "r = Some (routes k N (Suc (length path)) m s, m')" "trie_wf k N v4 (path @ [b]) m'"
    "routes k N (Suc (length path)) m' = (routes k N (Suc (length path)) m)(s \<mapsto> v)" using below by (auto simp: sets_route_def)
  have "cmap n1 (unat b) \<noteq> None" using n(3,4) by simp
  then obtain n' where n': "get_child_mut b (Path m') n1 = Some n'" "node_wf n'" "pmap n' = pmap node" "cmap n' = (cmap node)(unat b \<mapsto> Path m')"
    using get_child_mut_spec [OF n(1), of b _ "Path m'"] n(2,3) by force
  have "sets_route (Suc k) N v4 path node (byte_bits b @ s) v (Some (routes k N (Suc (length path)) m s, n'))"
    by (rule sets_child [OF wf n'(2-4)]) (simp_all add: m' n'(4) same routes_long)
  with m'(1) n'(1) show ?thesis by simp
qed

lemma sets_fresh:
  assumes wf: "trie_wf (Suc k) N v4 path node" and free: "cmap node (unat b) = None"
    and at: "net_at N v4 (path @ [b]) p" and rel: "rel N p (length path) = byte_bits b @ s"
    and fringe: "is_fringe N (length path) p = Some (s = [])" and s: "s = rel N p (Suc (length path))"
  shows "sets_route (Suc k) N v4 path node (byte_bits b @ s) v
    (do {
       f \<leftarrow> is_fringe N (length path) p;
       (old, node') \<leftarrow> insert_child b (if f then Fringe v else Leaf p v) node;
       Some (Option.bind old into_value, node')
     })"
proof -
  let ?c = "if s = [] then Fringe v else Leaf p v"
  obtain n' where n': "insert_child b ?c node = Some (None, n')" "node_wf n'" "pmap n' = pmap node" "cmap n' = (cmap node)(unat b \<mapsto> ?c)"
    using insert_child_spec [OF trie_wfD(1) [OF wf], of b ?c] free by metis
  have "sets_route (Suc k) N v4 path node (byte_bits b @ s) v (Some (None, n'))"
  proof (rule sets_child [OF wf n'(2-4)])
    show "child_wf k N v4 (path @ [b]) ?c" using at s by (simp add: leaf_at)
    show "None = routes (Suc k) N (length path) node (byte_bits b @ s)" using free by (simp add: routes_long)
    show "routes (Suc k) N (length path) n' (byte_bits b @ r) = (if r = s then Some v else routes (Suc k) N (length path) node (byte_bits b @ r))" for r
      using free rel by (auto simp: routes_long n'(4))
  qed
  with n'(1) fringe show ?thesis by simp
qed

lemma sets_over:
  assumes wf: "trie_wf (Suc k) N v4 path node" and old: "cmap node (unat b) = Some c" "into_value c = Some w" "into_value c' = Some v"
    and c': "child_wf k N v4 (path @ [b]) c'"
    and hit: "\<And>r. routes (Suc k) N (length path) node (byte_bits b @ r) = (if r = s then Some w else None)"
    and hit': "\<And>n' r. cmap n' (unat b) = Some c' \<Longrightarrow> routes (Suc k) N (length path) n' (byte_bits b @ r) = (if r = s then Some v else None)"
  shows "sets_route (Suc k) N v4 path node (byte_bits b @ s) v (do { node' \<leftarrow> get_child_mut b c' node; Some (Some w, node') })"
proof -
  obtain n' where n': "get_child_mut b c' node = Some n'" "node_wf n'" "pmap n' = pmap node" "cmap n' = (cmap node)(unat b \<mapsto> c')"
    using get_child_mut_spec [OF trie_wfD(1) [OF wf] old(1), of c'] by metis
  have "sets_route (Suc k) N v4 path node (byte_bits b @ s) v (Some (Some w, n'))"
    by (rule sets_child [OF wf n'(2-4) c']) (simp_all add: hit hit' n'(4))
  with n'(1) show ?thesis by simp
qed

lemma net_at_step:
  assumes "ipnet_ok N" and "net_at N v4 (path @ [b]) p"
  shows "rel N p (length path) = byte_bits b @ rel N p (Suc (length path))"
  using net_at_bits [OF assms] net_at_bits [OF assms(1) net_at_up [OF assms(2)]] by simp

lemma net_at_room:
  assumes "ipnet_ok N" and "net_at N v4 path p" and "rel N p (length path) \<noteq> []" and "length path + k = ip_width v4"
  obtains j where "k = Suc j"
proof -
  have "length (net_bits N p) \<le> 8 * ip_width v4"
    using ipnet_okD(1) [OF assms(1), of p] assms(2) net_bits_length [of N p] ip_wf_bits [of "net_addr N p"]
    by (auto simp: net_fits_def net_at_def)
  moreover have "8 * length path < length (net_bits N p)" using assms(3) by (simp add: rel_def)
  ultimately show ?thesis using that assms(4) by (cases k) simp_all
qed

text \<open>Turning an occupied leaf or fringe into a path node before going on below it.\<close>

lemma sets_through:
  assumes wf: "trie_wf (Suc k) N v4 path node"
    and m: "r1 = Some (o1, m)" "\<And>r. routes k N (Suc (length path)) m r = routes (Suc k) N (length path) node (byte_bits b @ r)"
    and below: "sets_route k N v4 (path @ [b]) m s v r2"
  shows "sets_route (Suc k) N v4 path node (byte_bits b @ s) v
    (do {
       (_, node1) \<leftarrow> insert_child b (Path node_EMPTY) node;
       (_, n) \<leftarrow> r1;
       (old, n') \<leftarrow> (if n = m then r2 else None);
       node' \<leftarrow> get_child_mut b (Path n') node1;
       Some (old, node')
     })"
proof -
  obtain n1 where n1: "insert_child b (Path node_EMPTY) node = Some (cmap node (unat b), n1)" "node_wf n1" "pmap n1 = pmap node"
    "cmap n1 = (cmap node)(unat b \<mapsto> Path node_EMPTY)"
    using insert_child_spec [OF trie_wfD(1) [OF wf], of b "Path node_EMPTY"] by metis
  from sets_via_path [OF wf n1(2-4) _ below m(2)] show ?thesis by (simp add: n1(1) m(1))
qed

lemma insert_at_leaf:
  fixes N :: "'n ipnet" and node :: "('n, 'v) Node"
  assumes ok: "ipnet_ok N" and wf: "trie_wf (Suc k) N v4 path node" and at: "net_at N v4 (path @ [b]) p"
    and len: "length (path @ [b]) + k = ip_width v4" and c: "cmap node (unat b) = Some (Leaf q w)"
    and IH: "\<And>(m :: ('n, 'v) Node) q w. trie_wf k N v4 (path @ [b]) m \<Longrightarrow> net_at N v4 (path @ [b]) q \<Longrightarrow>
      sets_route k N v4 (path @ [b]) m (rel N q (Suc (length path))) w (insert_inner N m q w (Suc (length path)))"
  shows "sets_route (Suc k) N v4 path node (rel N p (length path)) v
    (if p = q
     then do { node' \<leftarrow> get_child_mut b (Leaf q v) node; Some (Some w, node') }
     else do {
       (_, node1) \<leftarrow> insert_child b (Path node_EMPTY) node;
       (_, n) \<leftarrow> insert_inner N node_EMPTY q w (Suc (length path));
       (old, n') \<leftarrow> insert_inner N n p v (Suc (length path));
       node' \<leftarrow> get_child_mut b (Path n') node1;
       Some (old, node')
     })"
proof -
  have leaf: "leaf_wf N v4 (path @ [b]) q" using trie_wfD(2) [OF wf c] by simp
  then have q: "net_at N v4 (path @ [b]) q" "rel N q (Suc (length path)) \<noteq> []" by (simp_all add: leaf_at)
  note relp = net_at_step [OF ok at] and relq = net_at_step [OF ok q(1)]
  have old: "routes (Suc k) N (length path) node (byte_bits b @ r) = (if r = rel N q (Suc (length path)) then Some w else None)" for r
    using c relq by (auto simp: routes_long)
  show ?thesis
  proof (cases "p = q")
    case True
    have "sets_route (Suc k) N v4 path node (byte_bits b @ rel N q (Suc (length path))) v
        (do { node' \<leftarrow> get_child_mut b (Leaf q v) node; Some (Some w, node') })"
      by (rule sets_over [OF wf c]) (use leaf old relq in \<open>auto simp: into_value_def routes_long\<close>)
    with True relq show ?thesis by simp
  next
    case False
    obtain j where j: "k = Suc j" using net_at_room [OF ok q(1) _ len] q(2) by auto
    obtain n where n: "insert_inner N node_EMPTY q w (Suc (length path)) = Some (None, n)" "trie_wf k N v4 (path @ [b]) n"
      "routes k N (Suc (length path)) n = [rel N q (Suc (length path)) \<mapsto> w]"
      using IH [OF _ q(1), of node_EMPTY w] j by (auto simp: sets_route_def)
    have "sets_route (Suc k) N v4 path node (byte_bits b @ rel N p (Suc (length path))) v
      (do {
         (_, node1) \<leftarrow> insert_child b (Path node_EMPTY) node;
         (_, n1) \<leftarrow> insert_inner N node_EMPTY q w (Suc (length path));
         (old, n') \<leftarrow> (if n1 = n then insert_inner N n p v (Suc (length path)) else None);
         node' \<leftarrow> get_child_mut b (Path n') node1;
         Some (old, node')
       })"
      by (rule sets_through [OF wf n(1) _ IH [OF n(2) at]]) (simp add: old n(3))
    with False relp n(1) show ?thesis by simp
  qed
qed

lemma insert_at_fringe:
  fixes N :: "'n ipnet" and node :: "('n, 'v) Node"
  assumes ok: "ipnet_ok N" and wf: "trie_wf (Suc k) N v4 path node" and at: "net_at N v4 (path @ [b]) p"
    and len: "length (path @ [b]) + k = ip_width v4" and c: "cmap node (unat b) = Some (Fringe w)"
    and IH: "\<And>m :: ('n, 'v) Node. trie_wf k N v4 (path @ [b]) m \<Longrightarrow>
      sets_route k N v4 (path @ [b]) m (rel N p (Suc (length path))) v (insert_inner N m p v (Suc (length path)))"
  shows "sets_route (Suc k) N v4 path node (rel N p (length path)) v
    (if rel N p (Suc (length path)) = []
     then do { node' \<leftarrow> get_child_mut b (Fringe v) node; Some (Some w, node') }
     else do {
       (_, node1) \<leftarrow> insert_child b (Path node_EMPTY) node;
       i \<leftarrow> BaseIndex_new 1;
       (_, n) \<leftarrow> insert_prefix i w node_EMPTY;
       (old, n') \<leftarrow> insert_inner N n p v (Suc (length path));
       node' \<leftarrow> get_child_mut b (Path n') node1;
       Some (old, node')
     })"
proof -
  note relp = net_at_step [OF ok at]
  have old: "routes (Suc k) N (length path) node (byte_bits b @ r) = (if r = [] then Some w else None)" for r
    using c by (auto simp: routes_long)
  show ?thesis
  proof (cases "rel N p (Suc (length path)) = []")
    case True
    have "sets_route (Suc k) N v4 path node (byte_bits b @ []) v
        (do { node' \<leftarrow> get_child_mut b (Fringe v) node; Some (Some w, node') })"
      by (rule sets_over [OF wf c]) (use old in \<open>auto simp: into_value_def routes_long\<close>)
    with True relp show ?thesis by simp
  next
    case False
    obtain j where j: "k = Suc j" using net_at_room [OF ok at _ len] False by auto
    have one: "BaseIndex_new 1 = Some 1" by (simp add: BaseIndex_new_def BaseIndex_try_new_def)
    obtain n where n: "insert_prefix 1 w node_EMPTY = Some (None, n)" "trie_wf k N v4 (path @ [b]) n"
      "routes k N (Suc (length path)) n = [[] \<mapsto> w]"
      using sets_prefix [OF trie_wf_EMPTY, of 1 "[]" j N v4 "path @ [b]" w] j by (auto simp: sets_route_def)
    have "sets_route (Suc k) N v4 path node (byte_bits b @ rel N p (Suc (length path))) v
      (do {
         (_, node1) \<leftarrow> insert_child b (Path node_EMPTY) node;
         (_, n1) \<leftarrow> insert_prefix 1 w node_EMPTY;
         (old, n') \<leftarrow> (if n1 = n then insert_inner N n p v (Suc (length path)) else None);
         node' \<leftarrow> get_child_mut b (Path n') node1;
         Some (old, node')
       })"
      by (rule sets_through [OF wf n(1) _ IH [OF n(2)]]) (simp add: old n(3))
    with False relp n(1) one show ?thesis by simp
  qed
qed

lemma insert_inner_spec:
  fixes N :: "'n ipnet" and node :: "('n, 'v) Node"
  assumes ok: "ipnet_ok N"
  shows "trie_wf k N v4 path node \<Longrightarrow> net_at N v4 path p \<Longrightarrow> length path + k = ip_width v4 \<Longrightarrow>
    sets_route k N v4 path node (rel N p (length path)) v (insert_inner N node p v (length path))"
proof (induction k arbitrary: path node p v)
  case (Suc k)
  let ?d = "length path" and ?os = "ip_octets (net_addr N p)"
  have d: "?d < length ?os" using net_at_width [OF ok Suc.prems(2)] Suc.prems(3) by simp
  note wf = trie_wfD(1) [OF Suc.prems(1)]
  from ok Suc.prems(2,3) show ?case
  proof (cases rule: net_at_cases)
    case (here b ov)
    obtain i where i: "from_prefix b ov = Some i" "unat i = bidx (take (unat ov) (byte_bits b))"
      using from_prefix_spec [of ov b] here(2) by auto
    have "insert_inner N node p v ?d = insert_prefix i v node" by (subst insert_inner.simps) (simp add: d here i(1))
    with sets_prefix [OF Suc.prems(1), of i "rel N p ?d" v] here i(2) show ?thesis by simp
  next
    case (below b s ov)
    let ?r = "rel N p (Suc ?d)"
    have len: "length (path @ [b]) + k = ip_width v4" using Suc.prems(3) by simp
    have IH: "sets_route k N v4 (path @ [b]) m (rel N q (Suc ?d)) w (insert_inner N m q w (Suc ?d))"
      if "trie_wf k N v4 (path @ [b]) m" "net_at N v4 (path @ [b]) q" for m :: "('n, 'v) Node" and q w
      using Suc.IH [OF that len] by simp
    show ?thesis
    proof (cases "cmap node (unat b)")
      case None
      have "insert_inner N node p v ?d =
          (do { f \<leftarrow> is_fringe N ?d p; (old, node') \<leftarrow> insert_child b (if f then Fringe v else Leaf p v) node;
                Some (Option.bind old into_value, node') })"
        by (subst insert_inner.simps) (use d below wf None in simp)
      with sets_fresh [OF Suc.prems(1) None below(6,4,5) refl, of v] below(4) show ?thesis by simp
    next
      case (Some c)
      then have c: "child_wf k N v4 (path @ [b]) c" by (rule trie_wfD(2) [OF Suc.prems(1)])
      show ?thesis
      proof (cases c)
        case (Path m)
        have "insert_inner N node p v ?d =
            (do { (old, n') \<leftarrow> insert_inner N m p v (Suc ?d); node' \<leftarrow> get_child_mut b (Path n') node; Some (old, node') })"
          by (subst insert_inner.simps) (use d below wf Some Path in simp)
        moreover have "sets_route k N v4 (path @ [b]) m ?r v (insert_inner N m p v (Suc ?d))" using IH c Path below(6) by simp
        ultimately show ?thesis
          using sets_via_path [OF Suc.prems(1) wf refl _ _ _, of b "Some c" m ?r v] Some Path below(4)
          by (simp add: fun_upd_idem routes_long)
      next
        case (Leaf q w)
        note insert_at_leaf [OF ok Suc.prems(1) below(6) len Some [unfolded Leaf] IH, of v]
        then show ?thesis by (subst insert_inner.simps) (use d below wf Some Leaf in \<open>cases "p = q"; simp\<close>)
      next
        case (Fringe w)
        note insert_at_fringe [OF ok Suc.prems(1) below(6) len Some [unfolded Fringe] IH [OF _ below(6)]]
        then show ?thesis by (subst insert_inner.simps) (use d below wf Some Fringe in \<open>cases "rel N p (Suc ?d) = []"; simp\<close>)
      qed
    qed
  qed
qed simp

end
