(* ===== verification/Bart_Remove.thy ===== *)
theory Bart_Remove
  imports Bart_Update
begin

text \<open>
  Removal from the routing trie refines removal from a map: the removed route disappears, every
  other route keeps its value although the compression moves one of them to another node, and
  none of the unwraps and assertions of the code fails.
\<close>

section \<open>Prefixes rebuilt from a path\<close>

lemma depth_mask: "depth < 16 \<Longrightarrow> depth AND DEPTH_MASK = (depth :: nat)"
proof -
  assume d: "depth < 16"
  have "DEPTH_MASK = mask 4" by (simp add: DEPTH_MASK_def MAX_DEPTH_def mask_eq_exp_minus_1)
  then have "depth AND DEPTH_MASK = take_bit 4 depth" by (simp only: take_bit_eq_mask)
  then show ?thesis using d by (simp add: take_bit_nat_eq_self)
qed

lemma byte_bits_0 [simp]: "byte_bits 0 = replicate 8 False"
  by (intro nth_equalityI) (simp_all add: byte_bits_nth)

lemma octet_bits_zeros [simp]: "octet_bits (replicate n 0) = replicate (8 * n) False"
  by (induction n) (simp_all flip: replicate_add)

lemma trunc_fixed:
  assumes ok: "ipnet_ok N" and "ip_bits (net_addr N q) = net_bits N q @ replicate n False"
  shows "net_trunc N q = q"
proof -
  have fits: "net_fits N (net_trunc N q)" "net_fits N q" using ok by (rule ipnet_okD)+
  have "length (ip_bits (net_addr N q)) - unat (net_len N q) = n" using assms(2) net_bits_length [OF fits(2)] by simp
  then have "ip_bits (net_addr N (net_trunc N q)) = ip_bits (net_addr N q)" using ipnet_okD(7) [OF ok, of q] assms(2) by simp
  then have "net_addr N (net_trunc N q) = net_addr N q"
    using fits ipnet_okD(6) [OF ok, of q] by (intro ip_bits_inject) (simp_all add: net_fits_def)
  then show ?thesis using ipnet_okD(2) [OF ok] ipnet_okD(5) [OF ok] by blast
qed

text \<open>A prefix built from the octets of a path, one more octet and zeros.\<close>

lemma net_from_path:
  assumes ok: "ipnet_ok N" and d: "length path < ip_width v4"
    and octet: "byte_bits octet = s @ replicate (8 - length s) False" "length s \<le> 8"
    and l: "unat l = 8 * length path + length s"
  obtains q where "net_new_assert N (ip_from_path (path @ octet # replicate (15 - length path) 0) v4) l = Some q"
    and "net_at N v4 path q" and "rel N q (length path) = s"
proof -
  let ?ip = "ip_from_path (path @ octet # replicate (15 - length path) 0) v4"
  have os: "ip_octets ?ip = path @ octet # replicate (ip_width v4 - 1 - length path) 0"
    using d by (auto simp: ip_from_path_def ip_octets_def ip_width_def take_Cons' min_def split: if_splits)
  have v4: "is_ipv4 ?ip = v4" and wf: "ip_wf ?ip"
    using d by (auto simp: ip_from_path_def is_ipv4_def ip_wf_def ip_width_def split: if_splits)
  have bits: "ip_bits ?ip = (octet_bits path @ s) @ replicate (8 - length s + 8 * (ip_width v4 - 1 - length path)) False"
    by (simp add: ip_bits_def os octet(1) replicate_add)
  have "unat l \<le> length (ip_bits ?ip)" unfolding bits l using octet(2) by simp
  then obtain q where q: "net_new_assert N ?ip l = Some q" "net_addr N q = ?ip" "net_len N q = l"
    using ipnet_okD(4) [OF ok wf] by blast
  have nb: "net_bits N q = octet_bits path @ s" unfolding net_bits_def q(2,3) bits l by simp
  have "net_trunc N q = q" by (rule trunc_fixed [OF ok]) (simp only: q(2) bits nb)
  then have "net_at N v4 path q" using v4 os nb by (simp add: net_at_def q(2))
  moreover have "rel N q (length path) = s" by (simp add: rel_def nb)
  ultimately show ?thesis using that q(1) by blast
qed

lemma prefix_from_path_spec:
  assumes ok: "ipnet_ok N" and d: "length path < ip_width v4" and path: "take (length path) octets = path"
    and i: "unat i = bidx s"
  obtains q where "prefix_from_path N octets (length path) v4 i = Some q" and "net_at N v4 path q" and "rel N q (length path) = s"
proof -
  let ?d = "length path"
  have d16: "?d < 16" using d ip_width_bounds(1) [of v4] by simp
  have "?d \<le> length octets" using arg_cong [OF path, of length] by simp
  then have md: "min (length octets) ?d = ?d" by simp
  obtain octet where oc: "BaseIndex_prefix i = (octet, of_nat (length s))" "byte_bits octet = s @ replicate (8 - length s) False"
    using BaseIndex_prefix_spec [OF i] by blast
  have s: "length s \<le> 7" using BaseIndex_len_spec(2) [OF i] .
  have l: "unat (of_nat ?d * 8 + of_nat (length s) :: u8) = 8 * ?d + length s"
    using unat_of_nat_u8 [of "8 * ?d + length s"] d16 s by (simp add: mult.commute)
  have "(path @ replicate (16 - ?d) (0 :: u8))[?d := octet] = path @ octet # replicate (15 - ?d) 0"
    using d16 by (cases "16 - ?d") (simp_all add: list_update_append)
  moreover obtain q where "net_new_assert N (ip_from_path (path @ octet # replicate (15 - ?d) 0) v4) (of_nat ?d * 8 + of_nat (length s)) = Some q"
    "net_at N v4 path q" "rel N q ?d = s" using net_from_path [OF ok d oc(2) _ l] s by auto
  ultimately show ?thesis
    using that by (simp add: prefix_from_path_def Let_def depth_mask [OF d16] oc(1) md path MAX_DEPTH_def)
qed

lemma fringe_prefix_spec:
  assumes ok: "ipnet_ok N" and d: "length path < ip_width v4" and path: "take (length path) octets = path"
  obtains q where "fringe_prefix N octets (length path) v4 b = Some q" and "net_at N v4 path q" and "rel N q (length path) = byte_bits b"
proof -
  let ?d = "length path"
  have d16: "?d < 16" using d ip_width_bounds(1) [of v4] by simp
  have le: "?d \<le> length octets" using arg_cong [OF path, of length] by simp
  have nth: "octets ! i = path ! i" if "i < ?d" for i using that path by (metis nth_take)
  have "map (\<lambda>i. if ?d < i then 0 else if i = ?d then b else if i < length octets then octets ! i else 0) [0..<MAX_DEPTH] =
      path @ b # replicate (15 - ?d) 0"
    using d16 le nth by (intro nth_equalityI) (auto simp: MAX_DEPTH_def nth_append nth_Cons' simp del: upt.simps)
  moreover have "unat (of_nat ((?d + 1) * 8) :: u8) = 8 * ?d + length (byte_bits b)"
    using unat_of_nat_u8 [of "(?d + 1) * 8"] d16 by simp
  then obtain q where "net_new_assert N (ip_from_path (path @ b # replicate (15 - ?d) 0) v4) (of_nat ((?d + 1) * 8)) = Some q"
    "net_at N v4 path q" "rel N q ?d = byte_bits b" using net_from_path [OF ok d, of b "byte_bits b"] by auto
  ultimately show ?thesis using that by (simp add: fringe_prefix_def Let_def depth_mask [OF d16])
qed

section \<open>The last entry of a node\<close>

lemma counts:
  assumes "node_wf n"
  shows "child_count n = card (dom (cmap n))" and "prefix_count n = card (dom (pmap n))"
    and "bs_abs (child_bitset n) = dom (cmap n)" and "bs_abs (prefix_bitset n) = dom (pmap n)"
    and "finite (dom (cmap n))" and "finite (dom (pmap n))"
    and "dom (cmap n) \<subseteq> {..<256}" and "dom (pmap n) \<subseteq> {0<..<256}"
proof -
  have wf: "a_wf (n_children n)" "a_wf (n_prefixes n)" "pmap n 0 = None" using assms by (simp_all add: node_wf_def)
  show abs: "bs_abs (child_bitset n) = dom (cmap n)" "bs_abs (prefix_bitset n) = dom (pmap n)"
    using wf by (simp_all add: child_bitset_def prefix_bitset_def cmap_def pmap_def dom_a_map)
  show "child_count n = card (dom (cmap n))" "prefix_count n = card (dom (pmap n))"
    using wf abs by (simp_all add: child_count_def prefix_count_def a_len_def a_wf_def child_bitset_def prefix_bitset_def)
  show "finite (dom (cmap n))" "finite (dom (pmap n))" unfolding abs [symmetric] by (rule finite_bs_abs)+
  have "length (child_bitset n) = 4" "length (prefix_bitset n) = 4" using wf by (simp_all add: child_bitset_def prefix_bitset_def a_wf_def)
  then show "dom (cmap n) \<subseteq> {..<256}" unfolding abs(1) [symmetric] using bs_abs_less by fastforce
  show "dom (pmap n) \<subseteq> {0<..<256}"
  proof
    fix j assume j: "j \<in> dom (pmap n)"
    then have "j < 256" using bs_abs_less [of j "prefix_bitset n"] abs(2) \<open>length (prefix_bitset n) = 4\<close> by simp
    moreover have "j \<noteq> 0" using j wf(3) by (metis domIff)
    ultimately show "j \<in> {0<..<256}" by simp
  qed
qed

lemma first_set_single: "bs_abs b = {j} \<Longrightarrow> bs_first_set b = Some j"
proof -
  assume "bs_abs b = {j}"
  then have "is_least (bs_abs b) (Some j)" by (simp add: is_least_def)
  moreover have "is_least (bs_abs b) (bs_first_set b)" using first_set_from_spec [of 0 b] by (simp add: bs_first_set_def)
  ultimately show ?thesis by (metis is_least_unique)
qed

lemma routes_no_children:
  assumes "cmap n = Map.empty" and "pmap n = [bidx s \<mapsto> v]" and "length s < 8"
  shows "routes (Suc k) N d n = [s \<mapsto> v]"
  by (rule routes_ext) (use assms in \<open>auto simp: routes_short routes_long\<close>)

lemma routes_one_child:
  assumes "pmap n = Map.empty" and "cmap n = [unat b \<mapsto> c]"
    and "\<And>r. routes (Suc k) N d n (byte_bits b @ r) = (if r = s then x else None)"
  shows "routes (Suc k) N d n = Map.empty(byte_bits b @ s := x)"
proof (rule routes_ext)
  show "routes (Suc k) N d n r = (Map.empty(byte_bits b @ s := x)) r" if "length r < 8" for r
    using that assms(1) by (auto simp: routes_short)
  show "routes (Suc k) N d n (byte_bits b' @ r) = (Map.empty(byte_bits b @ s := x)) (byte_bits b' @ r)" for b' r
  proof (cases "b' = b")
    case False
    then have "unat b' \<noteq> unat b" by (simp add: word_unat_eq_iff)
    with False assms(2) show ?thesis by (simp add: routes_long)
  qed (use assms(3) in simp)
qed

lemma routes_bare: "cmap n = Map.empty \<Longrightarrow> pmap n = Map.empty \<Longrightarrow> routes k N d n = Map.empty"
  by (cases k) (auto intro!: routes_ext simp: routes.simps(1) routes_short routes_long)

definition taken_out ::
  "nat \<Rightarrow> 'n ipnet \<Rightarrow> bool \<Rightarrow> bytes \<Rightarrow> nat \<Rightarrow> ('n, 'v) Node \<Rightarrow> ('n, 'v) RemovalInfo option \<Rightarrow> ('n, 'v) Node \<Rightarrow> bool" where
  "taken_out k N v4 path root_depth node info node' \<longleftrightarrow> trie_wf k N v4 path node' \<and>
     (case info of
        None \<Rightarrow> node' = node
      | Some i \<Rightarrow> ri_compression_root_depth i = root_depth \<and> root_depth \<noteq> length path \<and> net_at N v4 path (ri_node_prefix i) \<and>
          routes k N (length path) node = [rel N (ri_node_prefix i) (length path) \<mapsto> ri_value i] \<and>
          routes k N (length path) node' = Map.empty)"

lemma try_remove_prefix:
  assumes ok: "ipnet_ok N" and wf: "trie_wf (Suc k) N v4 path node" and d: "length path < ip_width v4"
    and path: "take (length path) octets = path" and rd: "length path \<noteq> root_depth"
    and n: "child_count node = 0" "prefix_count node = 1"
  shows "\<exists>info node'. try_remove_last_child N node octets (length path) v4 root_depth = Some (info, node') \<and>
    taken_out (Suc k) N v4 path root_depth node info node'"
proof -
  note nwf = trie_wfD(1) [OF wf] and c = counts [OF trie_wfD(1) [OF wf]]
  have cm: "cmap node = Map.empty" using n(1) c(1,5) by simp
  obtain j where j: "dom (pmap node) = {j}" using n(2) c(2) card_1_singletonE by metis
  then obtain v where pm: "pmap node = [j \<mapsto> v]" by (metis dom_eq_singleton_conv)
  have j256: "0 < j" "j < 256" using c(8) j by auto
  obtain s where s: "bidx s = j" using bidx_surj [OF j256(1)] by blast
  have u: "unat (of_nat j :: u8) = bidx s" using unat_of_nat_u8 [OF j256(2)] s by simp
  have s8: "length s < 8" using BaseIndex_len_spec(2) [OF u] by simp
  have "(of_nat j :: u8) \<noteq> 0" using u by (metis bidx_pos less_irrefl unat_0)
  then have new: "BaseIndex_new (of_nat j) = Some (of_nat j)" by (simp add: BaseIndex_new_def BaseIndex_try_new_def)
  obtain n' where n': "remove_prefix (of_nat j) node = Some (Some v, n')" "node_wf n'" "pmap n' = Map.empty" "cmap n' = Map.empty"
    using remove_prefix_spec [OF nwf, of "of_nat j"] pm cm u s by force
  obtain q where q: "prefix_from_path N octets (length path) v4 (of_nat j) = Some q" "net_at N v4 path q" "rel N q (length path) = s"
    using prefix_from_path_spec [OF ok d path u] by blast
  have "bs_first_set (prefix_bitset node) = Some j" using c(4) j by (intro first_set_single) simp
  then have "try_remove_last_child N node octets (length path) v4 root_depth =
      Some (Some \<lparr>ri_value = v, ri_compression_root_depth = root_depth, ri_node_prefix = q\<rparr>, n')"
    using rd n new n'(1) q(1) by (simp add: try_remove_last_child_def)
  moreover have "trie_wf (Suc k) N v4 path n'" using n' by (simp add: trie_wf_Suc)
  ultimately show ?thesis
    using routes_no_children [OF cm, of s v k N "length path"] pm s s8 routes_bare [OF n'(4,3)] q(2,3) rd by (auto simp: taken_out_def)
qed

lemma try_remove_child:
  assumes ok: "ipnet_ok N" and wf: "trie_wf (Suc k) N v4 path node" and d: "length path < ip_width v4"
    and path: "take (length path) octets = path" and rd: "length path \<noteq> root_depth"
    and n: "child_count node = 1" "prefix_count node = 0"
  shows "\<exists>info node'. try_remove_last_child N node octets (length path) v4 root_depth = Some (info, node') \<and>
    taken_out (Suc k) N v4 path root_depth node info node'"
proof -
  note nwf = trie_wfD(1) [OF wf] and c = counts [OF trie_wfD(1) [OF wf]]
  have pm: "pmap node = Map.empty" using n(2) c(2,6) by simp
  obtain j where j: "dom (cmap node) = {j}" using n(1) c(1) card_1_singletonE by metis
  then obtain ch where cm: "cmap node = [j \<mapsto> ch]" by (metis dom_eq_singleton_conv)
  define b where "b = (of_nat j :: u8)"
  have b: "unat b = j" using c(7) j unat_of_nat_u8 [of j] by (simp add: b_def)
  have chwf: "child_wf k N v4 (path @ [b]) ch" using trie_wfD(2) [OF wf, of b ch] cm b by simp
  have "bs_first_set (child_bitset node) = Some j" using c(3) j by (intro first_set_single) simp
  then have start: "try_remove_last_child N node octets (length path) v4 root_depth =
     (case ch of
        Path _ \<Rightarrow> Some (None, node)
      | _ \<Rightarrow> do {
          (removed, node') \<leftarrow> remove_child b node;
          c \<leftarrow> removed;
          (pfx, val) \<leftarrow> (case c of
              Fringe val \<Rightarrow> do { pfx \<leftarrow> fringe_prefix N octets (length path) v4 b; Some (pfx, val) }
            | Leaf pfx val \<Rightarrow> Some (pfx, val)
            | Path _ \<Rightarrow> None);
          Some (Some \<lparr>ri_value = val, ri_compression_root_depth = root_depth, ri_node_prefix = pfx\<rparr>, node') })"
    using rd n nwf cm b unfolding b_def by (simp add: try_remove_last_child_def Let_def split: Child.split)
  obtain n' where n': "remove_child b node = Some (Some ch, n')" "node_wf n'" "pmap n' = Map.empty" "cmap n' = Map.empty"
    using remove_child_spec [OF nwf, of b] cm pm b by force
  have wf': "trie_wf (Suc k) N v4 path n'" using n' by (simp add: trie_wf_Suc)
  show ?thesis
  proof (cases ch)
    case (Path m)
    with start wf show ?thesis by (simp add: taken_out_def)
  next
    case (Leaf q v)
    then have at: "net_at N v4 (path @ [b]) q" using chwf by (simp add: leaf_at)
    have r: "rel N q (length path) = byte_bits b @ rel N q (Suc (length path))" by (rule net_at_step [OF ok at])
    have "routes (Suc k) N (length path) node = [rel N q (length path) \<mapsto> v]"
      unfolding r by (rule routes_one_child [OF pm, of b ch]) (use cm b Leaf r in \<open>auto simp: routes_long\<close>)
    with start Leaf n'(1) wf' routes_bare [OF n'(4,3)] net_at_up [OF at] rd show ?thesis by (simp add: taken_out_def)
  next
    case (Fringe v)
    obtain q where q: "fringe_prefix N octets (length path) v4 b = Some q" "net_at N v4 path q" "rel N q (length path) = byte_bits b"
      using fringe_prefix_spec [OF ok d path] by blast
    have "routes (Suc k) N (length path) node = Map.empty(byte_bits b @ [] \<mapsto> v)"
      by (rule routes_one_child [OF pm, of b ch]) (use cm b Fringe in \<open>auto simp: routes_long\<close>)
    with start Fringe n'(1) q wf' routes_bare [OF n'(4,3)] rd show ?thesis by (simp add: taken_out_def)
  qed
qed

lemma try_remove_spec:
  assumes "ipnet_ok N" and "trie_wf (Suc k) N v4 path node" and "length path < ip_width v4" and "take (length path) octets = path"
  obtains info node' where "try_remove_last_child N node octets (length path) v4 root_depth = Some (info, node')"
    and "taken_out (Suc k) N v4 path root_depth node info node'"
proof -
  consider "length path = root_depth" | "length path \<noteq> root_depth" "child_count node = 0" "prefix_count node = 1"
    | "length path \<noteq> root_depth" "child_count node = 1" "prefix_count node = 0"
    | "\<not> (child_count node = 0 \<and> prefix_count node = 1)" "\<not> (child_count node = 1 \<and> prefix_count node = 0)" by argo
  then show ?thesis
  proof cases
    case 1
    then show ?thesis using that [of None node] assms(2) by (simp add: try_remove_last_child_def taken_out_def)
  next
    case 2
    then show ?thesis using try_remove_prefix [OF assms] that by blast
  next
    case 3
    then show ?thesis using try_remove_child [OF assms] that by blast
  next
    case 4
    then have "try_remove_last_child N node octets (length path) v4 root_depth = Some (None, node)"
      unfolding try_remove_last_child_def if_not_P [OF 4(1)] if_not_P [OF 4(2)] by simp
    then show ?thesis using that assms(2) by (simp add: taken_out_def)
  qed
qed

section \<open>Removal updates the routes\<close>

text \<open>
  The outcome of the descent at a node: either everything is done, or one remaining route was
  taken out.  It is then put back at the compression root, which is above the node, or at or
  below it, in which case compressing the node restores the route.
\<close>

definition removes ::
  "nat \<Rightarrow> 'n ipnet \<Rightarrow> bool \<Rightarrow> bytes \<Rightarrow> nat \<Rightarrow> (bool list \<rightharpoonup> 'v) \<Rightarrow>
   ('n, 'v) RemovalInfo option \<Rightarrow> ('n, 'v) Node \<Rightarrow> bool" where
  "removes k N v4 path root_depth R info node' \<longleftrightarrow> trie_wf k N v4 path node' \<and>
     (case info of
        None \<Rightarrow> routes k N (length path) node' = R
      | Some i \<Rightarrow> net_at N v4 path (ri_node_prefix i) \<and>
          (if ri_compression_root_depth i < length path
           then ri_compression_root_depth i = root_depth \<and>
             R = [rel N (ri_node_prefix i) (length path) \<mapsto> ri_value i] \<and> routes k N (length path) node' = Map.empty
           else \<exists>node''. compress_walk N i (drop (length path) (ip_octets (net_addr N (ri_node_prefix i)))) (length path) node' = Some node'' \<and>
             trie_wf k N v4 path node'' \<and> routes k N (length path) node'' = R))"

lemma removes_taken_out:
  assumes "taken_out k N v4 path root_depth node1 info node2" and "root_depth \<le> length path"
  shows "removes k N v4 path root_depth (routes k N (length path) node1) info node2"
  using assms by (auto simp: taken_out_def removes_def split: option.splits)

lemma octets_at:
  assumes "net_at N v4 (path @ [b]) q"
  shows "drop (length path) (ip_octets (net_addr N q)) = b # drop (Suc (length path)) (ip_octets (net_addr N q))"
proof -
  have t: "take (Suc (length path)) (ip_octets (net_addr N q)) = path @ [b]" using assms by (simp add: net_at_def)
  have "min (length (ip_octets (net_addr N q))) (Suc (length path)) = Suc (length path)"
    using arg_cong [OF t, of length] unfolding length_take by simp
  then have l: "length path < length (ip_octets (net_addr N q))" by linarith
  have "ip_octets (net_addr N q) ! length path = b" using t l by (metis lessI nth_append_length nth_take)
  then show ?thesis using Cons_nth_drop_Suc [OF l] by simp
qed

text \<open>Putting the route back at the compression root: the emptied path below it is dropped.\<close>

lemma compress_here:
  assumes ok: "ipnet_ok N" and wf: "trie_wf (Suc k) N v4 path node" and len: "length path + Suc k = ip_width v4"
    and b: "cmap node (unat b) = Some (Path m)" and m: "routes k N (Suc (length path)) m = Map.empty"
    and at: "net_at N v4 (path @ [b]) (ri_node_prefix i)" and root: "ri_compression_root_depth i = length path"
  shows "\<exists>node''. compress_walk N i (b # os) (length path) node = Some node'' \<and> trie_wf (Suc k) N v4 path node'' \<and>
    routes (Suc k) N (length path) node'' = (routes (Suc k) N (length path) node)(rel N (ri_node_prefix i) (length path) \<mapsto> ri_value i)"
proof -
  obtain n1 where n1: "remove_child b node = Some (Some (Path m), n1)" "node_wf n1" "pmap n1 = pmap node" "cmap n1 = (cmap node)(unat b := None)"
    using remove_child_spec [OF trie_wfD(1) [OF wf], of b] b by metis
  have wf1: "trie_wf (Suc k) N v4 path n1" using trie_wf_upd_child [OF wf n1(2,4)] by simp
  have "routes (Suc k) N (length path) n1 = (routes (Suc k) N (length path) node)(byte_bits b @ [] := None)"
    by (rule routes_upd_child [OF n1(3,4)]) (simp add: routes_long n1(4) b m)
  moreover have "routes (Suc k) N (length path) node (byte_bits b @ []) = None" by (subst routes_long) (simp add: b m)
  ultimately have R: "routes (Suc k) N (length path) n1 = routes (Suc k) N (length path) node" by (simp add: fun_upd_idem)
  from insert_inner_spec [OF ok wf1 net_at_up [OF at] len, of "ri_value i"]
  show ?thesis by (auto simp: sets_route_def root n1(1) R)
qed

lemma routes_moved:
  assumes "pmap n' = pmap n" and "cmap n' = (cmap n)(unat b \<mapsto> Path m')" and "cmap n (unat b) = Some (Path m)"
    and "routes k N (Suc d) m' = Map.empty" and "(routes k N (Suc d) m)(s := x) = [t \<mapsto> v]"
  shows "(routes (Suc k) N d n')(byte_bits b @ t \<mapsto> v) = (routes (Suc k) N d n)(byte_bits b @ s := x)"
proof (rule routes_ext)
  show "((routes (Suc k) N d n')(byte_bits b @ t \<mapsto> v)) r = ((routes (Suc k) N d n)(byte_bits b @ s := x)) r" if "length r < 8" for r
    using that assms(1) by (auto simp: routes_short)
  show "((routes (Suc k) N d n')(byte_bits b @ t \<mapsto> v)) (byte_bits b' @ r) = ((routes (Suc k) N d n)(byte_bits b @ s := x)) (byte_bits b' @ r)" for b' r
  proof (cases "b' = b")
    case True
    have "(if r = s then x else routes k N (Suc d) m r) = (if r = t then Some v else None)"
      using fun_cong [OF assms(5), of r] by (simp add: fun_upd_def)
    with True assms(2-4) show ?thesis by (auto simp: routes_long split: if_splits)
  next
    case False
    then have "unat b' \<noteq> unat b" by (simp add: word_unat_eq_iff)
    with False assms(2) show ?thesis by (simp add: routes_long)
  qed
qed

lemma only_child:
  assumes "node_wf n" and "child_count n = 1" and "prefix_count n = 0" and "cmap n (unat b) = Some c"
  shows "pmap n = Map.empty" and "cmap n = [unat b \<mapsto> c]"
proof -
  note c = counts [OF assms(1)]
  show "pmap n = Map.empty" using assms(3) c(2,6) by simp
  obtain j where "dom (cmap n) = {j}" using assms(2) c(1) card_1_singletonE by metis
  then have "dom (cmap n) = {unat b}" using assms(4) by (metis domI singletonD)
  then show "cmap n = [unat b \<mapsto> c]" using assms(4) by (metis dom_eq_singleton_conv fun_upd_same option.inject)
qed

lemma removes_through:
  fixes N :: "'n ipnet" and node :: "('n, 'v) Node"
  assumes ok: "ipnet_ok N" and wf: "trie_wf (Suc k) N v4 path node" and len: "length path + Suc k = ip_width v4"
    and b: "cmap node (unat b) = Some (Path m)" and rd: "root_depth \<le> length path"
    and root': "root_depth' = (if child_count node = 1 \<and> prefix_count node = 0 then root_depth else length path)"
    and below: "removes k N v4 (path @ [b]) root_depth' ((routes k N (Suc (length path)) m)(s := x)) info m'"
    and n': "node_wf n'" "pmap n' = pmap node" "cmap n' = (cmap node)(unat b \<mapsto> Path m')"
  shows "removes (Suc k) N v4 path root_depth ((routes (Suc k) N (length path) node)(byte_bits b @ s := x)) info n'"
proof -
  let ?R = "routes (Suc k) N (length path) node" and ?Rm = "routes k N (Suc (length path)) m"
  have m': "trie_wf k N v4 (path @ [b]) m'" using below by (simp add: removes_def)
  have wf': "trie_wf (Suc k) N v4 path n'" using trie_wf_upd_child [OF wf n'(1,3)] m' by simp
  have upd: "routes (Suc k) N (length path) n2 = ?R(byte_bits b @ s := x)"
    if "pmap n2 = pmap node" "cmap n2 = (cmap node)(unat b \<mapsto> Path m2)" "routes k N (Suc (length path)) m2 = ?Rm(s := x)" for n2 m2
    by (rule routes_upd_child [OF that(1,2)]) (simp add: routes_long that b)
  show ?thesis
  proof (cases info)
    case None
    with below have "routes k N (Suc (length path)) m' = ?Rm(s := x)" by (simp add: removes_def)
    with None wf' upd [OF n'(2,3)] show ?thesis by (simp add: removes_def)
  next
    case (Some i)
    let ?q = "ri_node_prefix i"
    have at: "net_at N v4 (path @ [b]) ?q" using below Some by (simp add: removes_def)
    note relq = net_at_step [OF ok at]
    have b': "cmap n' (unat b) = Some (Path m')" using n'(3) by simp
    show ?thesis
    proof (cases "ri_compression_root_depth i < Suc (length path)")
      case True
      with below Some have t: "ri_compression_root_depth i = root_depth'" "?Rm(s := x) = [rel N ?q (Suc (length path)) \<mapsto> ri_value i]"
        "routes k N (Suc (length path)) m' = Map.empty" by (simp_all add: removes_def)
      have R': "(routes (Suc k) N (length path) n')(rel N ?q (length path) \<mapsto> ri_value i) = ?R(byte_bits b @ s := x)"
        unfolding relq by (rule routes_moved [OF n'(2,3) b t(3,2)])
      show ?thesis
      proof (cases "root_depth' < length path")
        case less: True
        then have del: "child_count node = 1" "prefix_count node = 0" "root_depth' = root_depth" using root' by (auto split: if_splits)
        note one = only_child [OF trie_wfD(1) [OF wf] del(1,2) b]
        have "routes (Suc k) N (length path) n' = Map.empty(byte_bits b @ [] := None)"
          by (rule routes_one_child [of _ _ "Path m'"]) (simp_all add: n'(2,3) one routes_long t(3))
        then have e: "routes (Suc k) N (length path) n' = Map.empty" by (simp add: fun_upd_idem)
        with R' Some less at t(1) del(3) wf' net_at_up [OF at] show ?thesis by (simp add: removes_def)
      next
        case False
        then have root: "ri_compression_root_depth i = length path" using t(1) root' rd by (auto split: if_splits)
        obtain n2 where "compress_walk N i (drop (length path) (ip_octets (net_addr N ?q))) (length path) n' = Some n2"
          "trie_wf (Suc k) N v4 path n2" "routes (Suc k) N (length path) n2 = ?R(byte_bits b @ s := x)"
          using compress_here [OF ok wf' len b' t(3) at root] unfolding octets_at [OF at] R' by blast
        then show ?thesis using Some wf' net_at_up [OF at] root by (simp add: removes_def)
      qed
    next
      case False
      with below Some obtain m2 where m2: "compress_walk N i (drop (Suc (length path)) (ip_octets (net_addr N ?q))) (Suc (length path)) m' = Some m2"
        "trie_wf k N v4 (path @ [b]) m2" "routes k N (Suc (length path)) m2 = ?Rm(s := x)" by (auto simp: removes_def)
      obtain n2 where n2: "get_child_mut b (Path m2) n' = Some n2" "node_wf n2" "pmap n2 = pmap node" "cmap n2 = (cmap node)(unat b \<mapsto> Path m2)"
        using get_child_mut_spec [OF n'(1) b', of "Path m2"] n'(2,3) by (metis fun_upd_upd)
      have "compress_walk N i (drop (length path) (ip_octets (net_addr N ?q))) (length path) n' = Some n2"
        unfolding octets_at [OF at] using False n'(1) b' m2(1) n2(1) by (simp add: into_node_def)
      moreover have "trie_wf (Suc k) N v4 path n2" using trie_wf_upd_child [OF wf n2(2,4)] m2(2) by simp
      ultimately show ?thesis using Some wf' net_at_up [OF at] False upd [OF n2(3,4) m2(3)] by (simp add: removes_def)
    qed
  qed
qed

lemma removes_prefix:
  assumes ok: "ipnet_ok N" and wf: "trie_wf (Suc k) N v4 path node" and d: "length path < ip_width v4"
    and path: "take (length path) octets = path" and rd: "root_depth \<le> length path" and i: "unat i = bidx s" "length s < 8"
  shows "\<exists>info node'. (do {
      (ret, node1) \<leftarrow> remove_prefix i node;
      (info, node2) \<leftarrow> try_remove_last_child N node1 octets (length path) v4 root_depth;
      Some (ret, info, node2) }) = Some (routes (Suc k) N (length path) node s, info, node') \<and>
    removes (Suc k) N v4 path root_depth ((routes (Suc k) N (length path) node)(s := None)) info node'"
proof -
  obtain n1 where n1: "remove_prefix i node = Some (pmap node (unat i), n1)" "node_wf n1" "pmap n1 = (pmap node)(unat i := None)" "cmap n1 = cmap node"
    using remove_prefix_spec [OF trie_wfD(1) [OF wf], of i] by blast
  have R: "routes (Suc k) N (length path) n1 = (routes (Suc k) N (length path) node)(s := None)"
    using n1(3,4) i by (intro routes_upd_prefix) simp_all
  have "trie_wf (Suc k) N v4 path n1" using wf n1(2,4) by (simp add: trie_wf_Suc)
  then obtain info n2 where "try_remove_last_child N n1 octets (length path) v4 root_depth = Some (info, n2)"
    "taken_out (Suc k) N v4 path root_depth n1 info n2" using try_remove_spec [OF ok _ d path] by blast
  with removes_taken_out [OF _ rd, of "Suc k" N v4 n1 info n2] R n1(1) i show ?thesis by (simp add: routes_short)
qed

lemma removes_child:
  assumes ok: "ipnet_ok N" and wf: "trie_wf (Suc k) N v4 path node" and d: "length path < ip_width v4"
    and path: "take (length path) octets = path" and rd: "root_depth \<le> length path"
    and c: "cmap node (unat b) = Some c" "into_value c = Some w"
    and hit: "\<And>r. routes (Suc k) N (length path) node (byte_bits b @ r) = (if r = s then Some w else None)"
  shows "\<exists>info node'. (do {
      (removed, node1) \<leftarrow> remove_child b node;
      c \<leftarrow> removed;
      (info, node2) \<leftarrow> try_remove_last_child N node1 octets (length path) v4 root_depth;
      Some (into_value c, info, node2) }) = Some (routes (Suc k) N (length path) node (byte_bits b @ s), info, node') \<and>
    removes (Suc k) N v4 path root_depth ((routes (Suc k) N (length path) node)(byte_bits b @ s := None)) info node'"
proof -
  obtain n1 where n1: "remove_child b node = Some (Some c, n1)" "node_wf n1" "pmap n1 = pmap node" "cmap n1 = (cmap node)(unat b := None)"
    using remove_child_spec [OF trie_wfD(1) [OF wf], of b] c(1) by metis
  have R: "routes (Suc k) N (length path) n1 = (routes (Suc k) N (length path) node)(byte_bits b @ s := None)"
    by (rule routes_upd_child [OF n1(3,4)]) (simp add: hit, simp add: routes_long n1(4))
  have "trie_wf (Suc k) N v4 path n1" using trie_wf_upd_child [OF wf n1(2,4)] by simp
  then obtain info n2 where "try_remove_last_child N n1 octets (length path) v4 root_depth = Some (info, n2)"
    "taken_out (Suc k) N v4 path root_depth n1 info n2" using try_remove_spec [OF ok _ d path] by blast
  with removes_taken_out [OF _ rd, of "Suc k" N v4 n1 info n2] R n1(1) c(2) hit [of s] show ?thesis by simp
qed

lemma remove_walk_spec:
  fixes N :: "'n ipnet" and node :: "('n, 'v) Node"
  assumes ok: "ipnet_ok N"
  shows "trie_wf (length os) N v4 path node \<Longrightarrow> net_at N v4 path p \<Longrightarrow> ip_octets (net_addr N p) = path @ os \<Longrightarrow>
    root_depth \<le> length path \<Longrightarrow>
    \<exists>info node'. remove_walk N (ip_octets (net_addr N p)) p os (length path) root_depth node =
        Some (routes (length os) N (length path) node (rel N p (length path)), info, node') \<and>
      removes (length os) N v4 path root_depth ((routes (length os) N (length path) node)(rel N p (length path) := None)) info node'"
proof (induction os arbitrary: path node root_depth)
  case (Cons b os)
  let ?d = "length path" and ?octets = "ip_octets (net_addr N p)" and ?R = "routes (Suc (length os)) N (length path) node"
  have twf: "trie_wf (Suc (length os)) N v4 path node" using Cons.prems(1) by simp
  note wf = trie_wfD(1) [OF twf]
  have k: "?d + Suc (length os) = ip_width v4" using net_at_width [OF ok Cons.prems(2)] Cons.prems(3) by simp
  have d: "?d < ip_width v4" and path: "take ?d ?octets = path" and v4: "is_ipv4 (net_addr N p) = v4"
    using k Cons.prems(2,3) by (simp_all add: net_at_def)
  have same: "\<exists>info node'. Some (None, None, node) = Some (?R s, info, node') \<and> removes (Suc (length os)) N v4 path root_depth (?R(s := None)) info node'"
    if "?R s = None" for s using that twf by (intro exI [of _ None] exI [of _ node]) (simp add: removes_def fun_upd_idem)
  from ok Cons.prems(2) k show ?case
  proof (cases rule: net_at_cases)
    case (here b' ov)
    then have b: "b' = b" using Cons.prems(3) by simp
    obtain i where i: "from_prefix b ov = Some i" "unat i = bidx (take (unat ov) (byte_bits b))"
      using from_prefix_spec [of ov b] here(2) by auto
    with removes_prefix [OF ok twf d path Cons.prems(4), of i "rel N p ?d"] here b v4 show ?thesis by (simp del: fun_upd_apply)
  next
    case (below b' s ov)
    then have b: "b' = b" using Cons.prems(3) by simp
    let ?r = "rel N p (Suc ?d)"
    show ?thesis
    proof (cases "cmap node (unat b)")
      case None
      with same [of "byte_bits b @ ?r"] wf below b show ?thesis by (simp add: routes_long del: fun_upd_apply)
    next
      case (Some c)
      then have c: "child_wf (length os) N v4 (path @ [b]) c" by (rule trie_wfD(2) [OF twf])
      show ?thesis
      proof (cases c)
        case (Path m)
        let ?rd = "if child_count node = 1 \<and> prefix_count node = 0 then root_depth else ?d"
        have "trie_wf (length os) N v4 (path @ [b]) m" using c Path by simp
        moreover have "?rd \<le> length (path @ [b])" "net_at N v4 (path @ [b]) p" "?octets = (path @ [b]) @ os"
          using below(6) b Cons.prems(3,4) by auto
        ultimately obtain info m' where m': "remove_walk N ?octets p os (Suc ?d) ?rd m =
            Some (routes (length os) N (Suc ?d) m ?r, info, m')"
          "removes (length os) N v4 (path @ [b]) ?rd ((routes (length os) N (Suc ?d) m)(?r := None)) info m'"
          using Cons.IH [of "path @ [b]" m ?rd] by (auto simp del: fun_upd_apply)
        obtain n' where n': "get_child_mut b (Path m') node = Some n'" "node_wf n'" "pmap n' = pmap node" "cmap n' = (cmap node)(unat b \<mapsto> Path m')"
          using get_child_mut_spec [OF wf Some] by blast
        have "remove_walk N ?octets p (b # os) ?d root_depth node = Some (?R (byte_bits b @ ?r), info, n')"
          using wf below b Some Path m'(1) n'(1) by (cases "child_count node = 1 \<and> prefix_count node = 0") (auto simp add: into_node_def routes_long Let_def)
        moreover have "removes (Suc (length os)) N v4 path root_depth (?R(byte_bits b @ ?r := None)) info n'"
          using removes_through [OF ok twf k _ Cons.prems(4) refl m'(2) n'(2-4)] Some Path by simp
        ultimately show ?thesis using below b by (auto simp del: fun_upd_apply)
      next
        case (Leaf q w)
        then have q: "net_at N v4 path q" using c by (auto simp: leaf_at intro: net_at_up)
        have eq: "rel N q ?d = byte_bits b @ ?r \<longleftrightarrow> q = p" using net_at_inject [OF ok q Cons.prems(2)] below(4) b by simp
        show ?thesis
        proof (cases "q = p")
          case True
          have "?R (byte_bits b @ r) = (if r = ?r then Some w else None)" for r using Some Leaf True below(4) b by (auto simp: routes_long)
          from removes_child [OF ok twf d path Cons.prems(4) Some _ this] wf below b Some Leaf True v4 show ?thesis
            by (simp add: into_value_def del: fun_upd_apply)
        next
          case False
          with eq have "?R (byte_bits b @ ?r) = None" using Some Leaf by (simp add: routes_long)
          from same [OF this] wf below b Some Leaf False show ?thesis by (simp del: fun_upd_apply)
        qed
      next
        case (Fringe w)
        have R: "?R (byte_bits b @ r) = (if r = [] then Some w else None)" for r using Some Fringe by (simp add: routes_long)
        show ?thesis
        proof (cases "?r = []")
          case True
          from removes_child [OF ok twf d path Cons.prems(4) Some _ R] wf below b Some Fringe True v4 show ?thesis
            by (simp add: into_value_def del: fun_upd_apply)
        next
          case False
          from same [of "byte_bits b @ ?r"] R [of ?r] wf below b Some Fringe False show ?thesis by (simp del: fun_upd_apply)
        qed
      qed
    qed
  qed
qed simp

end
