(* ===== verification/Bart_Modify.thy ===== *)
theory Bart_Modify
  imports Bart_Remove
begin

text \<open>
  Modification of a route through a closure (\<open>ts_bart/src/iptrie/modify.rs\<close>).  The closure is
  called once, on a mutable reference to the value of the route when there is one: it is a
  record of what it returns without a value, and of the value it leaves and what it returns with
  one.  A modification acts on the routes as the closure acts on the entry of a map.
\<close>

section \<open>Definitions\<close>

datatype 'v RouteModification = Insert 'v | Remove | Noop

record 'v ModifyFn =
  on_vacant :: "'v RouteModification"
  on_occupied :: "'v \<Rightarrow> 'v \<times> 'v RouteModification"

definition with_value :: "('n, 'v) Child \<Rightarrow> 'v \<Rightarrow> ('n, 'v) Child" where
  "with_value c v = (case c of Path n \<Rightarrow> Path n | Fringe _ \<Rightarrow> Fringe v | Leaf p _ \<Rightarrow> Leaf p v)"

fun modify_inner ::
  "'n ipnet \<Rightarrow> bytes \<Rightarrow> 'n \<Rightarrow> 'v ModifyFn \<Rightarrow> bytes \<Rightarrow> nat \<Rightarrow> nat \<Rightarrow> ('n, 'v) Node \<Rightarrow>
   ('v option \<times> 'v RouteModification \<times> ('n, 'v) RemovalInfo option \<times> ('n, 'v) Node) option" where
  "modify_inner N octets pfx f [] depth root_depth node = Some (None, Noop, None, node)"
| "modify_inner N octets pfx f (octet # os) depth root_depth node =
     (let (stride_count, overflow_bits) = stride_count_and_overflow N pfx
      in if depth = stride_count
         then do {
           idx \<leftarrow> from_prefix octet overflow_bits;
           val \<leftarrow> get_prefix_exact idx node;
           (m, node0) \<leftarrow> (case val of
               None \<Rightarrow> Some (on_vacant f, node)
             | Some v \<Rightarrow> do { node0 \<leftarrow> get_prefix_exact_mut idx (fst \<circ> on_occupied f) node; Some (snd (on_occupied f v), node0) });
           case m of
             Remove \<Rightarrow>
               do {
                 (ret, node1) \<leftarrow> remove_prefix idx node0;
                 (info, node2) \<leftarrow> try_remove_last_child N node1 octets depth (is_ipv4 (net_addr N pfx)) root_depth;
                 Some (ret, m, info, node2)
               }
           | Insert t \<Rightarrow> do { (ret, node1) \<leftarrow> insert_prefix idx t node0; Some (ret, m, None, node1) }
           | Noop \<Rightarrow> Some (None, m, None, node0)
         }
         else do {
           found \<leftarrow> get_child octet node;
           case found of
             None \<Rightarrow>
               (case on_vacant f of
                  Insert t \<Rightarrow>
                    do {
                      fringe \<leftarrow> is_fringe N depth pfx;
                      (_, node') \<leftarrow> insert_child octet (if fringe then Fringe t else Leaf pfx t) node;
                      Some (None, on_vacant f, None, node')
                    }
                | _ \<Rightarrow> Some (None, on_vacant f, None, node))
           | Some child \<Rightarrow>
               do {
                 here \<leftarrow> (case child of
                     Leaf leaf_pfx _ \<Rightarrow> Some (if leaf_pfx \<noteq> pfx then None else Some True)
                   | Fringe _ \<Rightarrow> do { fringe \<leftarrow> is_fringe N depth pfx; Some (if fringe then Some True else None) }
                   | Path _ \<Rightarrow> Some (Some False));
                 case here of
                   None \<Rightarrow>
                     (case on_vacant f of
                        Insert t \<Rightarrow> do { (old, node') \<leftarrow> insert_inner N node pfx t depth; Some (old, on_vacant f, None, node') }
                      | _ \<Rightarrow> Some (None, on_vacant f, None, node))
                 | Some True \<Rightarrow>
                     do {
                       val \<leftarrow> into_value child;
                       node0 \<leftarrow> get_child_mut octet (with_value child (fst (on_occupied f val))) node;
                       case snd (on_occupied f val) of
                         Noop \<Rightarrow> Some (None, Noop, None, node0)
                       | Insert t \<Rightarrow>
                           do {
                             fringe \<leftarrow> is_fringe N depth pfx;
                             (old, node1) \<leftarrow> insert_child octet (if fringe then Fringe t else Leaf pfx t) node0;
                             c \<leftarrow> old;
                             Some (into_value c, Insert t, None, node1)
                           }
                       | Remove \<Rightarrow>
                           do {
                             (removed, node1) \<leftarrow> remove_child octet node0;
                             c \<leftarrow> removed;
                             (info, node2) \<leftarrow> try_remove_last_child N node1 octets depth (is_ipv4 (net_addr N pfx)) root_depth;
                             Some (into_value c, Remove, info, node2)
                           }
                     }
                 | Some False \<Rightarrow>
                     (let is_deletable = (child_count node = 1 \<and> prefix_count node = 0);
                          root_depth' = (if \<not> is_deletable then depth else root_depth)
                      in do {
                           n \<leftarrow> into_node child;
                           (ret, m, info, n') \<leftarrow> modify_inner N octets pfx f os (depth + 1) root_depth' n;
                           node' \<leftarrow> get_child_mut octet (Path n') node;
                           Some (ret, m, info, node')
                         })
               }
         })"

text \<open>The modification the closure asked for is returned beside the result, for closures that record it.\<close>

definition trie_modify ::
  "'n ipnet \<Rightarrow> ('n, 'v) Node \<Rightarrow> 'n \<Rightarrow> 'v ModifyFn \<Rightarrow> ('v option \<times> 'v RouteModification \<times> ('n, 'v) Node) option" where
  "trie_modify N node pfx0 f =
     (let pfx = net_trunc N pfx0;
          octets = ip_octets (net_addr N pfx)
      in do {
           (ret, m, removal, node1) \<leftarrow> modify_inner N octets pfx f octets 0 0 node;
           case removal of
             None \<Rightarrow> Some (ret, m, node1)
           | Some info \<Rightarrow> do { node2 \<leftarrow> compress_removal_path N node1 info; Some (ret, m, node2) }
         })"

section \<open>The effect on one entry\<close>

text \<open>What the closure does to an entry of a map: the value returned and the entry left.\<close>

definition modified :: "'v ModifyFn \<Rightarrow> 'v option \<Rightarrow> 'v option \<times> 'v option" where
  "modified f e = (case e of
     None \<Rightarrow> (None, case on_vacant f of Insert t \<Rightarrow> Some t | _ \<Rightarrow> None)
   | Some v \<Rightarrow> (let (v', m) = on_occupied f v
               in case m of Noop \<Rightarrow> (None, Some v') | Insert t \<Rightarrow> (Some v', Some t) | Remove \<Rightarrow> (Some v', None)))"

definition asked :: "'v ModifyFn \<Rightarrow> 'v option \<Rightarrow> 'v RouteModification" where
  "asked f e = (case e of None \<Rightarrow> on_vacant f | Some v \<Rightarrow> snd (on_occupied f v))"

definition modifies ::
  "nat \<Rightarrow> 'n ipnet \<Rightarrow> bool \<Rightarrow> bytes \<Rightarrow> nat \<Rightarrow> ('n, 'v) Node \<Rightarrow> bool list \<Rightarrow> 'v ModifyFn \<Rightarrow>
   ('v option \<times> 'v RouteModification \<times> ('n, 'v) RemovalInfo option \<times> ('n, 'v) Node) option \<Rightarrow> bool" where
  "modifies k N v4 path root_depth node s f r \<longleftrightarrow>
     (let R = routes k N (length path) node; (ret, e) = modified f (R s)
      in \<exists>info node'. r = Some (ret, asked f (R s), info, node') \<and> removes k N v4 path root_depth (R(s := e)) info node')"

lemma removes_None [simp]: "removes k N v4 path root_depth R None n \<longleftrightarrow> trie_wf k N v4 path n \<and> routes k N (length path) n = R"
  by (simp add: removes_def)

lemma modified_simps [simp]:
  "on_vacant f = Insert t \<Longrightarrow> modified f None = (None, Some t)"
  "on_vacant f = Remove \<Longrightarrow> modified f None = (None, None)"
  "on_vacant f = Noop \<Longrightarrow> modified f None = (None, None)"
  "on_occupied f v = (v', Insert t) \<Longrightarrow> modified f (Some v) = (Some v', Some t)"
  "on_occupied f v = (v', Remove) \<Longrightarrow> modified f (Some v) = (Some v', None)"
  "on_occupied f v = (v', Noop) \<Longrightarrow> modified f (Some v) = (None, Some v')"
  by (simp_all add: modified_def)

lemma get_prefix_exact_mut_spec:
  assumes "node_wf n"
  obtains n' where "get_prefix_exact_mut i g n = Some n'" "node_wf n'"
    "pmap n' = (pmap n)(unat i := map_option g (pmap n (unat i)))" "cmap n' = cmap n"
proof -
  obtain m' where "a_get_mut i g (n_prefixes n) = Some m'" "a_wf m'"
    "a_map m' = (a_map (n_prefixes n))(unat i := map_option g (a_map (n_prefixes n) (unat i)))"
    using a_get_mut_spec [of "n_prefixes n" i g] assms by (auto simp: node_wf_def)
  with assms show ?thesis
    by (intro that [of "Node m' (n_children n)"]) (auto simp: get_prefix_exact_mut_def node_wf_def pmap_def cmap_def split: if_splits)
qed

section \<open>The walk\<close>

lemma modifies_prefix:
  assumes ok: "ipnet_ok N" and wf: "trie_wf (Suc k) N v4 path node" and d: "length path < ip_width v4"
    and path: "take (length path) octets = path" and rd: "root_depth \<le> length path" and i: "unat i = bidx s" "length s < 8"
  shows "modifies (Suc k) N v4 path root_depth node s f (do {
      val \<leftarrow> get_prefix_exact i node;
      (m, node0) \<leftarrow> (case val of
          None \<Rightarrow> Some (on_vacant f, node)
        | Some v \<Rightarrow> do { node0 \<leftarrow> get_prefix_exact_mut i (fst \<circ> on_occupied f) node; Some (snd (on_occupied f v), node0) });
      case m of
        Remove \<Rightarrow>
          do {
            (ret, node1) \<leftarrow> remove_prefix i node0;
            (info, node2) \<leftarrow> try_remove_last_child N node1 octets (length path) v4 root_depth;
            Some (ret, m, info, node2)
          }
      | Insert t \<Rightarrow> do { (ret, node1) \<leftarrow> insert_prefix i t node0; Some (ret, m, None, node1) }
      | Noop \<Rightarrow> Some (None, m, None, node0) })"
proof -
  let ?R = "routes (Suc k) N (length path)"
  obtain m e n0 where n0: "(case ?R node s of
          None \<Rightarrow> Some (on_vacant f, node)
        | Some v \<Rightarrow> do { node0 \<leftarrow> get_prefix_exact_mut i (fst \<circ> on_occupied f) node; Some (snd (on_occupied f v), node0) }) = Some (m, n0)"
      "trie_wf (Suc k) N v4 path n0" "?R n0 = (?R node)(s := e)"
      "asked f (?R node s) = m" "modified f (?R node s) = (case m of Remove \<Rightarrow> (e, None) | Insert t \<Rightarrow> (e, Some t) | Noop \<Rightarrow> (None, e))"
  proof (cases "?R node s")
    case None
    with wf show ?thesis by (intro that [of "on_vacant f" node None]) (simp_all add: asked_def fun_upd_idem split: RouteModification.split)
  next
    case (Some v)
    obtain n' where n': "get_prefix_exact_mut i (fst \<circ> on_occupied f) node = Some n'" "node_wf n'"
      "pmap n' = (pmap node)(unat i := map_option (fst \<circ> on_occupied f) (pmap node (unat i)))" "cmap n' = cmap node"
      using get_prefix_exact_mut_spec [OF trie_wfD(1) [OF wf]] by blast
    have v: "pmap node (bidx s) = Some v" using Some i by (simp add: routes_short)
    have "?R n' = (?R node)(s := Some (fst (on_occupied f v)))" using n'(3,4) i v by (intro routes_upd_prefix) simp_all
    moreover have "trie_wf (Suc k) N v4 path n'" using wf n'(2,4) by (simp add: trie_wf_Suc)
    ultimately show ?thesis using Some n'(1)
      by (intro that [of "snd (on_occupied f v)" n']) (auto simp: asked_def modified_def Let_def split: prod.split RouteModification.split)
  qed
  have g: "get_prefix_exact i node = Some (?R node s)" using i trie_wfD(1) [OF wf] by (simp add: routes_short)
  show ?thesis
  proof (cases m)
    case (Insert t)
    have "sets_route (Suc k) N v4 path n0 s t (insert_prefix i t n0)" by (rule sets_prefix [OF n0(2) i])
    with n0 g Insert show ?thesis by (auto simp: modifies_def sets_route_def simp del: fun_upd_apply) simp
  next
    case Remove
    from removes_prefix [OF ok n0(2) d path rd i] n0 g Remove show ?thesis by (auto simp: modifies_def bind_eq_Some_conv simp del: fun_upd_apply) simp
  next
    case Noop
    with n0 g show ?thesis by (simp add: modifies_def)
  qed
qed

lemma modifies_vacant:
  assumes wf: "trie_wf k N v4 path node" and none: "routes k N (length path) node s = None"
    and ins: "\<And>t. on_vacant f = Insert t \<Longrightarrow> \<exists>node'. r t = Some (None, on_vacant f, None, node') \<and> trie_wf k N v4 path node' \<and>
      routes k N (length path) node' = (routes k N (length path) node)(s \<mapsto> t)"
  shows "modifies k N v4 path root_depth node s f (case on_vacant f of Insert t \<Rightarrow> r t | _ \<Rightarrow> Some (None, on_vacant f, None, node))"
proof (cases "on_vacant f")
  case (Insert t)
  with ins [of t] none show ?thesis by (auto simp: modifies_def asked_def)
qed (use wf none in \<open>simp_all add: modifies_def asked_def fun_upd_idem\<close>)

lemma modifies_child:
  fixes N :: "'n ipnet" and node :: "('n, 'v) Node"
  assumes ok: "ipnet_ok N" and wf: "trie_wf (Suc k) N v4 path node" and d: "length path < ip_width v4"
    and path: "take (length path) octets = path" and rd: "root_depth \<le> length path"
    and at: "net_at N v4 (path @ [b]) p" and fringe: "is_fringe N (length path) p = Some (s = [])" and s: "s = rel N p (Suc (length path))"
    and c: "cmap node (unat b) = Some c" "c = (if s = [] then Fringe v else Leaf p v)"
  shows "modifies (Suc k) N v4 path root_depth node (byte_bits b @ s) f (do {
      val \<leftarrow> into_value c;
      node0 \<leftarrow> get_child_mut b (with_value c (fst (on_occupied f val))) node;
      case snd (on_occupied f val) of
        Noop \<Rightarrow> Some (None, Noop, None, node0)
      | Insert t \<Rightarrow>
          do {
            fringe \<leftarrow> is_fringe N (length path) p;
            (old, node1) \<leftarrow> insert_child b (if fringe then Fringe t else Leaf p t) node0;
            c \<leftarrow> old;
            Some (into_value c, Insert t, None, node1)
          }
      | Remove \<Rightarrow>
          do {
            (removed, node1) \<leftarrow> remove_child b node0;
            c \<leftarrow> removed;
            (info, node2) \<leftarrow> try_remove_last_child N node1 octets (length path) v4 root_depth;
            Some (into_value c, Remove, info, node2)
          } })"
proof -
  let ?R = "routes (Suc k) N (length path)"
  define child where "child = (\<lambda>v :: 'v. if s = [] then Fringe v else Leaf p v)"
  have child: "(if s = [] then Fringe w else Leaf p w) = child w" for w by (simp add: child_def)
  have rel: "rel N p (length path) = byte_bits b @ s" using net_at_step [OF ok at] s by simp
  have hit: "?R n (byte_bits b @ r) = (if r = s then Some w else None)" if "cmap n (unat b) = Some (child w)" for n w r
    using that rel by (auto simp: routes_long child_def)
  have cwf: "child_wf k N v4 (path @ [b]) (child w)" for w :: 'v using at s by (simp add: leaf_at child_def)
  have val: "into_value (child w) = Some w" "with_value (child w) w' = child w'" for w w' :: 'v
    by (simp_all add: into_value_def with_value_def child_def)
  obtain w m where w: "on_occupied f v = (w, m)" by fastforce
  have cv: "cmap node (unat b) = Some (child v)" using c by (simp add: child)
  obtain n0 where n0: "get_child_mut b (child w) node = Some n0" "node_wf n0" "pmap n0 = pmap node" "cmap n0 = (cmap node)(unat b \<mapsto> child w)"
    using get_child_mut_spec [OF trie_wfD(1) [OF wf] c(1)] by blast
  have wf0: "trie_wf (Suc k) N v4 path n0" using trie_wf_upd_child [OF wf n0(2,4)] cwf by simp
  have c0: "cmap n0 (unat b) = Some (child w)" using n0(4) by simp
  have R0: "?R n0 = (?R node)(byte_bits b @ s \<mapsto> w)"
    by (rule routes_upd_child [OF n0(3,4)]) (simp add: hit [OF c0] hit [OF cv])
  have Rv: "?R node (byte_bits b @ s) = Some v" by (simp add: hit [OF cv])
  show ?thesis
  proof (cases m)
    case (Insert t)
    obtain n1 where n1: "insert_child b (child t) n0 = Some (Some (child w), n1)" "node_wf n1" "pmap n1 = pmap n0" "cmap n1 = (cmap n0)(unat b \<mapsto> child t)"
      using insert_child_spec [OF n0(2), of b "child t"] c0 by metis
    have "trie_wf (Suc k) N v4 path n1" using trie_wf_upd_child [OF wf0 n1(2,4)] cwf by simp
    moreover have c1: "cmap n1 (unat b) = Some (child t)" using n1(4) by simp
    have "?R n1 = (?R n0)(byte_bits b @ s \<mapsto> t)"
      by (rule routes_upd_child [OF n1(3,4)]) (simp add: hit [OF c1] hit [OF c0])
    ultimately show ?thesis using w Insert n0(1) n1(1) Rv R0 by (simp add: modifies_def asked_def c(2) child val fringe split del: if_split)
  next
    case Remove
    from removes_child [OF ok wf0 d path rd c0 val(1) hit [OF c0]] w Remove n0(1) Rv R0 c0
    show ?thesis by (fastforce simp: modifies_def asked_def c(2) child val fun_upd_same bind_eq_Some_conv split del: if_split simp del: fun_upd_apply)
  next
    case Noop
    with w n0(1) Rv R0 wf0 show ?thesis by (simp add: modifies_def asked_def c(2) child val split del: if_split)
  qed
qed

lemma modify_inner_spec:
  fixes N :: "'n ipnet" and node :: "('n, 'v) Node"
  assumes ok: "ipnet_ok N"
  shows "trie_wf (length os) N v4 path node \<Longrightarrow> net_at N v4 path p \<Longrightarrow> ip_octets (net_addr N p) = path @ os \<Longrightarrow>
    root_depth \<le> length path \<Longrightarrow>
    modifies (length os) N v4 path root_depth node (rel N p (length path)) f
      (modify_inner N (ip_octets (net_addr N p)) p f os (length path) root_depth node)"
proof (induction os arbitrary: path node root_depth)
  case (Cons b os)
  let ?d = "length path" and ?octets = "ip_octets (net_addr N p)" and ?R = "routes (Suc (length os)) N (length path) node"
  have twf: "trie_wf (Suc (length os)) N v4 path node" using Cons.prems(1) by simp
  note wf = trie_wfD(1) [OF twf]
  have k: "?d + Suc (length os) = ip_width v4" using net_at_width [OF ok Cons.prems(2)] Cons.prems(3) by simp
  have d: "?d < ip_width v4" and path: "take ?d ?octets = path" and v4: "is_ipv4 (net_addr N p) = v4"
    using k Cons.prems(2,3) by (simp_all add: net_at_def)
  from ok Cons.prems(2) k show ?case
  proof (cases rule: net_at_cases)
    case (here b' ov)
    then have b: "b' = b" using Cons.prems(3) by simp
    obtain i where i: "from_prefix b ov = Some i" "unat i = bidx (take (unat ov) (byte_bits b))"
      using from_prefix_spec [of ov b] here(2) by auto
    with modifies_prefix [OF ok twf d path Cons.prems(4), of i "rel N p ?d" f] here b v4 show ?thesis by (simp cong: RouteModification.case_cong)
  next
    case (below b' s ov)
    then have b: "b' = b" using Cons.prems(3) by simp
    let ?r = "rel N p (Suc ?d)"
    have inner: "modifies (Suc (length os)) N v4 path root_depth node (byte_bits b @ ?r) f
        (case on_vacant f of Insert t \<Rightarrow> do { (old, node') \<leftarrow> insert_inner N node p t ?d; Some (old, on_vacant f, None, node') } | _ \<Rightarrow> Some (None, on_vacant f, None, node))"
      if "?R (byte_bits b @ ?r) = None"
    proof (rule modifies_vacant [OF twf that])
      fix t assume "on_vacant f = Insert t"
      from insert_inner_spec [OF ok twf Cons.prems(2) k, of t] that below(4) b
      show "\<exists>node'. (do { (old, node') \<leftarrow> insert_inner N node p t ?d; Some (old, on_vacant f, None, node') }) = Some (None, on_vacant f, None, node') \<and>
          trie_wf (Suc (length os)) N v4 path node' \<and> routes (Suc (length os)) N ?d node' = ?R(byte_bits b @ ?r \<mapsto> t)"
        by (auto simp: sets_route_def)
    qed
    have at: "net_at N v4 (path @ [b]) p" and rel: "rel N p ?d = byte_bits b @ ?r" and fringe: "is_fringe N ?d p = Some (?r = [])"
      using below b by simp_all
    note child = modifies_child [OF ok twf d path Cons.prems(4) at fringe refl]
    have step: "modify_inner N ?octets p f (b # os) ?d root_depth node = X \<Longrightarrow>
        modifies (Suc (length os)) N v4 path root_depth node (byte_bits b @ ?r) f X \<Longrightarrow> ?thesis" for X using rel by simp
    show ?thesis
    proof (cases "cmap node (unat b)")
      case None
      have "modifies (Suc (length os)) N v4 path root_depth node (byte_bits b @ ?r) f
        (case on_vacant f of Insert t \<Rightarrow> do {
              fringe \<leftarrow> is_fringe N ?d p;
              (_, node') \<leftarrow> insert_child b (if fringe then Fringe t else Leaf p t) node;
              Some (None, on_vacant f, None, node') } | _ \<Rightarrow> Some (None, on_vacant f, None, node))"
      proof (rule modifies_vacant [OF twf])
        show "?R (byte_bits b @ ?r) = None" using None by (simp add: routes_long)
        fix t assume "on_vacant f = Insert t"
        obtain n' where "insert_child b (if ?r = [] then Fringe t else Leaf p t) node = Some (None, n')"
          using insert_child_spec [OF wf, of b] None by metis
        with sets_fresh [OF twf None at rel fringe refl, of t]
        show "\<exists>node'. (do {
              fringe \<leftarrow> is_fringe N ?d p;
              (_, node') \<leftarrow> insert_child b (if fringe then Fringe t else Leaf p t) node;
              Some (None, on_vacant f, None, node') }) = Some (None, on_vacant f, None, node') \<and>
            trie_wf (Suc (length os)) N v4 path node' \<and> routes (Suc (length os)) N ?d node' = ?R(byte_bits b @ ?r \<mapsto> t)"
          by (simp add: sets_route_def fringe split del: if_split)
      qed
      then show ?thesis by (rule step [rotated]) (use None wf below b in simp)
    next
      case (Some c)
      then have c: "child_wf (length os) N v4 (path @ [b]) c" by (rule trie_wfD(2) [OF twf])
      show ?thesis
      proof (cases c)
        case (Path m)
        let ?rd = "if child_count node = 1 \<and> prefix_count node = 0 then root_depth else ?d"
        have "trie_wf (length os) N v4 (path @ [b]) m" using c Path by simp
        moreover have "?rd \<le> length (path @ [b])" "?octets = (path @ [b]) @ os" using Cons.prems(3,4) by auto
        ultimately have IH: "modifies (length os) N v4 (path @ [b]) ?rd m ?r f (modify_inner N ?octets p f os (Suc ?d) ?rd m)"
          using Cons.IH [of "path @ [b]" m ?rd] at by simp
        obtain ret e where e: "modified f (routes (length os) N (Suc ?d) m ?r) = (ret, e)" by fastforce
        with IH obtain info m' where m': "modify_inner N ?octets p f os (Suc ?d) ?rd m = Some (ret, asked f (routes (length os) N (Suc ?d) m ?r), info, m')"
          "removes (length os) N v4 (path @ [b]) ?rd ((routes (length os) N (Suc ?d) m)(?r := e)) info m'"
          by (auto simp: modifies_def Let_def simp del: fun_upd_apply)
        obtain n' where n': "get_child_mut b (Path m') node = Some n'" "node_wf n'" "pmap n' = pmap node" "cmap n' = (cmap node)(unat b \<mapsto> Path m')"
          using get_child_mut_spec [OF wf Some] by blast
        have "modify_inner N ?octets p f (b # os) ?d root_depth node = Some (ret, asked f (routes (length os) N (Suc ?d) m ?r), info, n')"
          using wf below b Some Path m'(1) n'(1)
          by (cases "child_count node = 1 \<and> prefix_count node = 0") (auto simp: into_node_def Let_def)
        moreover have "removes (Suc (length os)) N v4 path root_depth (?R(byte_bits b @ ?r := e)) info n'"
          using removes_through [OF ok twf k _ Cons.prems(4) refl m'(2) n'(2-4)] Some Path by simp
        moreover have "?R (byte_bits b @ ?r) = routes (length os) N (Suc ?d) m ?r" using Some Path by (simp add: routes_long)
        ultimately show ?thesis by (intro step) (simp_all add: modifies_def e exI [of _ info] exI [of _ n'] del: modify_inner.simps, blast)
      next
        case (Leaf q w)
        then have q: "net_at N v4 path q" and ne: "rel N q (Suc ?d) \<noteq> []" using c by (auto simp: leaf_at intro: net_at_up)
        have eq: "rel N q ?d = byte_bits b @ ?r \<longleftrightarrow> q = p" using net_at_inject [OF ok q Cons.prems(2)] rel by simp
        show ?thesis
        proof (cases "q = p")
          case True
          have "c = (if ?r = [] then Fringe w else Leaf p w)" using Leaf True ne by simp
          from child [OF Some this, of f] show ?thesis by (intro step) (use wf below b Some Leaf True v4 in \<open>simp_all cong: RouteModification.case_cong\<close>)
        next
          case False
          with eq have "?R (byte_bits b @ ?r) = None" using Some Leaf by (simp add: routes_long)
          from inner [OF this] show ?thesis by (rule step [rotated]) (use wf below b Some Leaf False in simp)
        qed
      next
        case (Fringe w)
        show ?thesis
        proof (cases "?r = []")
          case True
          then have "c = (if ?r = [] then Fringe w else Leaf p w)" using Fringe by simp
          from child [OF Some this, of f] show ?thesis by (intro step) (use wf below b Some Fringe True v4 in \<open>simp_all cong: RouteModification.case_cong\<close>)
        next
          case False
          then have "?R (byte_bits b @ ?r) = None" using Some Fringe by (simp add: routes_long)
          from inner [OF this] show ?thesis by (rule step [rotated]) (use wf below b Some Fringe False in simp)
        qed
      qed
    qed
  qed
qed simp

end
