(* ===== verification/Plain_Net.thy ===== *)
theory Plain_Net
  imports Bart_Net
begin

text \<open>
  A concrete type of IP prefixes that has the documented behaviour of the crate \<open>ipnet\<close>: pairs of
  an address and a length that fits it.  It shows that the assumptions on the prefix library can
  be met, and the examples of the development run on it.
\<close>

definition keep_bits :: "nat \<Rightarrow> u8 \<Rightarrow> u8" where
  "keep_bits n b = b AND push_bit (8 - n) 0xff"

fun mask_octets :: "nat \<Rightarrow> bytes \<Rightarrow> bytes" where
  "mask_octets n [] = []"
| "mask_octets n (b # os) = keep_bits n b # mask_octets (n - 8) os"

definition mask_ip :: "nat \<Rightarrow> IpAddr \<Rightarrow> IpAddr" where
  "mask_ip n ip = (case ip of V4 os \<Rightarrow> V4 (mask_octets n os) | V6 os \<Rightarrow> V6 (mask_octets n os))"

lemma byte_bits_keep: "byte_bits (keep_bits n b) = take n (byte_bits b) @ replicate (8 - n) False"
proof (rule nth_equalityI)
  fix i assume "i < length (byte_bits (keep_bits n b))"
  then have i: "i < 8" by simp
  have ff: "(0xff :: u8) = mask 8" by (simp add: mask_eq_exp_minus_1)
  show "byte_bits (keep_bits n b) ! i = (take n (byte_bits b) @ replicate (8 - n) False) ! i"
    using i by (auto simp: byte_bits_nth keep_bits_def ff bit_simps nth_append)
qed simp

lemma octet_bits_mask:
  "octet_bits (mask_octets n os) = take n (octet_bits os) @ replicate (8 * length os - n) False"
proof (induction os arbitrary: n)
  case (Cons b os)
  show ?case
  proof (cases "8 \<le> n")
    case True
    with Cons [of "n - 8"] show ?thesis by (simp add: byte_bits_keep)
  next
    case False
    then have "8 + 8 * length os - n = (8 - n) + 8 * length os" by simp
    then have "replicate (8 + 8 * length os - n) False = replicate (8 - n) False @ replicate (8 * length os) False" by (simp only: replicate_add)
    with False Cons [of "n - 8"] show ?thesis by (simp add: byte_bits_keep)
  qed
qed simp

lemma length_mask_octets [simp]: "length (mask_octets n os) = length os"
  by (induction os arbitrary: n) simp_all

lemma mask_ip_simps:
  assumes "ip_wf ip"
  shows "ip_wf (mask_ip n ip)" and "is_ipv4 (mask_ip n ip) = is_ipv4 ip"
    and "ip_bits (mask_ip n ip) = take n (ip_bits ip) @ replicate (length (ip_bits ip) - n) False"
  using assms by (cases ip; simp add: mask_ip_def ip_wf_def is_ipv4_def ip_bits_def ip_octets_def octet_bits_mask)+

typedef plain_net = "{(ip, n :: u8). ip_wf ip \<and> unat n \<le> length (ip_bits ip)}"
  by (rule exI [of _ "(V4 [0, 0, 0, 0], 0)"]) (simp add: ip_wf_def)

definition plain_addr :: "plain_net \<Rightarrow> IpAddr" where
  "plain_addr p = fst (Rep_plain_net p)"

definition plain_len :: "plain_net \<Rightarrow> u8" where
  "plain_len p = snd (Rep_plain_net p)"

definition plain_of :: "IpAddr \<Rightarrow> u8 \<Rightarrow> plain_net" where
  "plain_of ip n = Abs_plain_net (ip, n)"

definition plain_trunc :: "plain_net \<Rightarrow> plain_net" where
  "plain_trunc p = plain_of (mask_ip (unat (plain_len p)) (plain_addr p)) (plain_len p)"

definition plain_new_assert :: "IpAddr \<Rightarrow> u8 \<Rightarrow> plain_net option" where
  "plain_new_assert ip n = (if ip_wf ip \<and> unat n \<le> length (ip_bits ip) then Some (plain_of ip n) else None)"

definition plain_contains :: "plain_net \<Rightarrow> IpAddr \<Rightarrow> bool" where
  "plain_contains p ip \<longleftrightarrow> is_ipv4 ip = is_ipv4 (plain_addr p) \<and>
     take (unat (plain_len p)) (ip_bits ip) = take (unat (plain_len p)) (ip_bits (plain_addr p))"

definition plain_ipnet :: "plain_net ipnet" where
  "plain_ipnet = \<lparr>net_addr = plain_addr, net_len = plain_len, net_trunc = plain_trunc,
     net_contains = plain_contains, net_new_assert = plain_new_assert\<rparr>"

lemma plain_ipnet_sel [simp]:
  "net_addr plain_ipnet = plain_addr" "net_len plain_ipnet = plain_len" "net_trunc plain_ipnet = plain_trunc"
  "net_contains plain_ipnet = plain_contains" "net_new_assert plain_ipnet = plain_new_assert"
  by (simp_all add: plain_ipnet_def)

lemma plain_fits: "ip_wf (plain_addr p)" "unat (plain_len p) \<le> length (ip_bits (plain_addr p))"
  using Rep_plain_net [of p] by (auto simp: plain_addr_def plain_len_def)

lemma plain_eqI: "plain_addr p = plain_addr q \<Longrightarrow> plain_len p = plain_len q \<Longrightarrow> p = q"
  by (simp add: plain_addr_def plain_len_def prod_eq_iff flip: Rep_plain_net_inject)

lemma plain_of_sel:
  "ip_wf ip \<Longrightarrow> unat n \<le> length (ip_bits ip) \<Longrightarrow> plain_addr (plain_of ip n) = ip"
  "ip_wf ip \<Longrightarrow> unat n \<le> length (ip_bits ip) \<Longrightarrow> plain_len (plain_of ip n) = n"
  by (simp_all add: plain_of_def plain_addr_def plain_len_def Abs_plain_net_inverse)

lemma plain_trunc_sel: "plain_addr (plain_trunc p) = mask_ip (unat (plain_len p)) (plain_addr p)" "plain_len (plain_trunc p) = plain_len p"
  using plain_fits [of p] by (simp_all add: plain_trunc_def plain_of_sel mask_ip_simps)

lemma plain_ipnet_ok: "ipnet_ok plain_ipnet"
  unfolding ipnet_ok_def
  using plain_fits plain_eqI
  by (auto simp: net_fits_def net_bits_def plain_trunc_sel mask_ip_simps plain_contains_def plain_new_assert_def plain_of_sel)

end
