(* ===== verification/Bart_Table.thy ===== *)
theory Bart_Table
  imports Bart_Modify Plain_Net
begin

text \<open>
  The routing tables of \<open>ts_bart/src/table\<close>: \<open>SimpleTable\<close>, a trie with a count of its routes, and
  \<open>SplitStackTable\<close>, one trie per address family.  The tables refine maps from prefixes to
  values; the interface \<open>RoutingTable\<close> that the routers use is a locale.
\<close>

section \<open>Tables of one family\<close>

record ('n, 'v) SimpleTable =
  st_root :: "('n, 'v) Node"
  st_size :: nat

definition SimpleTable_EMPTY :: "('n, 'v) SimpleTable" where
  "SimpleTable_EMPTY = \<lparr>st_root = node_EMPTY, st_size = 0\<rparr>"

definition st_contains :: "'n ipnet \<Rightarrow> ('n, 'v) SimpleTable \<Rightarrow> IpAddr \<Rightarrow> bool option" where
  "st_contains N t ip = trie_contains N (st_root t) ip"

definition st_insert :: "'n ipnet \<Rightarrow> ('n, 'v) SimpleTable \<Rightarrow> 'n \<Rightarrow> 'v \<Rightarrow> ('v option \<times> ('n, 'v) SimpleTable) option" where
  "st_insert N t pfx val =
     do {
       (ret, root) \<leftarrow> trie_insert N (st_root t) (net_trunc N pfx) val;
       Some (ret, \<lparr>st_root = root, st_size = (if ret = None then st_size t + 1 else st_size t)\<rparr>)
     }"

definition decr :: "nat \<Rightarrow> nat option" where
  [rust_std]: "decr n = (if n = 0 then None else Some (n - 1))"

definition st_remove :: "'n ipnet \<Rightarrow> ('n, 'v) SimpleTable \<Rightarrow> 'n \<Rightarrow> ('v option \<times> ('n, 'v) SimpleTable) option" where
  "st_remove N t pfx =
     do {
       (ret, root) \<leftarrow> trie_remove N (st_root t) pfx;
       size \<leftarrow> (case ret of Some _ \<Rightarrow> decr (st_size t) | None \<Rightarrow> Some (st_size t));
       Some (ret, \<lparr>st_root = root, st_size = size\<rparr>)
     }"

text \<open>\<open>modify_impl\<close> wraps the closure to record which modification it asked for.\<close>

definition st_modify_impl :: "'n ipnet \<Rightarrow> ('n, 'v) SimpleTable \<Rightarrow> 'n \<Rightarrow> 'v ModifyFn \<Rightarrow> ('v option \<times> ('n, 'v) SimpleTable) option" where
  "st_modify_impl N t pfx f =
     do {
       (ret, op, root) \<leftarrow> trie_modify N (st_root t) pfx f;
       size \<leftarrow> (case (ret, op) of
           (None, Insert _) \<Rightarrow> Some (st_size t + 1)
         | (Some _, Remove) \<Rightarrow> decr (st_size t)
         | _ \<Rightarrow> Some (st_size t));
       Some (ret, \<lparr>st_root = root, st_size = size\<rparr>)
     }"

definition st_clear :: "('n, 'v) SimpleTable \<Rightarrow> ('n, 'v) SimpleTable" where
  "st_clear t = \<lparr>st_root = node_EMPTY, st_size = 0\<rparr>"

definition st_lookup :: "'n ipnet \<Rightarrow> ('n, 'v) SimpleTable \<Rightarrow> IpAddr \<Rightarrow> 'v option option" where
  "st_lookup N t ip = lookup_address N (st_root t) ip"

definition st_lookup_all :: "'n ipnet \<Rightarrow> ('n, 'v) SimpleTable \<Rightarrow> IpAddr \<Rightarrow> ('n, 'v) LookupIter option" where
  "st_lookup_all N t ip = lookup_address_all N (st_root t) ip"

definition st_lookup_prefix_exact :: "'n ipnet \<Rightarrow> ('n, 'v) SimpleTable \<Rightarrow> 'n \<Rightarrow> 'v option option" where
  "st_lookup_prefix_exact N t pfx = lookup_prefix_exact N (st_root t) pfx"

definition st_lookup_prefix :: "'n ipnet \<Rightarrow> ('n, 'v) SimpleTable \<Rightarrow> 'n \<Rightarrow> 'v option option" where
  "st_lookup_prefix N t pfx = map_option (map_option snd) (lookup_prefix_lpm N (st_root t) pfx)"

definition st_lookup_prefix_lpm :: "'n ipnet \<Rightarrow> ('n, 'v) SimpleTable \<Rightarrow> 'n \<Rightarrow> ('n \<times> 'v) option option" where
  "st_lookup_prefix_lpm N t pfx = lookup_prefix_lpm N (st_root t) pfx"

section \<open>Tables of both families\<close>

record ('n, 'v) SplitStackTable =
  table4 :: "('n, 'v) SimpleTable"
  table6 :: "('n, 'v) SimpleTable"

definition SplitStackTable_EMPTY :: "('n, 'v) SplitStackTable" where
  "SplitStackTable_EMPTY = \<lparr>table4 = SimpleTable_EMPTY, table6 = SimpleTable_EMPTY\<rparr>"

definition size4 :: "('n, 'v) SplitStackTable \<Rightarrow> nat" where
  "size4 t = st_size (table4 t)"

definition size6 :: "('n, 'v) SplitStackTable \<Rightarrow> nat" where
  "size6 t = st_size (table6 t)"

definition stack_table :: "('n, 'v) SplitStackTable \<Rightarrow> bool \<Rightarrow> ('n, 'v) SimpleTable" where
  "stack_table t ipv4 = (if ipv4 then table4 t else table6 t)"

text \<open>Writing through the reference \<open>stack_table_mut\<close> returns.\<close>

definition stack_table_mut :: "('n, 'v) SplitStackTable \<Rightarrow> bool \<Rightarrow> ('n, 'v) SimpleTable \<Rightarrow> ('n, 'v) SplitStackTable" where
  "stack_table_mut t ipv4 st = (if ipv4 then t\<lparr>table4 := st\<rparr> else t\<lparr>table6 := st\<rparr>)"

definition tbl_contains :: "'n ipnet \<Rightarrow> ('n, 'v) SplitStackTable \<Rightarrow> IpAddr \<Rightarrow> bool option" where
  "tbl_contains N t ip = st_contains N (stack_table t (is_ipv4 ip)) ip"

definition tbl_insert :: "'n ipnet \<Rightarrow> ('n, 'v) SplitStackTable \<Rightarrow> 'n \<Rightarrow> 'v \<Rightarrow> ('v option \<times> ('n, 'v) SplitStackTable) option" where
  "tbl_insert N t pfx val =
     (let ipv4 = is_ipv4 (net_addr N pfx)
      in do { (ret, st) \<leftarrow> st_insert N (stack_table t ipv4) pfx val; Some (ret, stack_table_mut t ipv4 st) })"

definition tbl_remove :: "'n ipnet \<Rightarrow> ('n, 'v) SplitStackTable \<Rightarrow> 'n \<Rightarrow> ('v option \<times> ('n, 'v) SplitStackTable) option" where
  "tbl_remove N t pfx =
     (let ipv4 = is_ipv4 (net_addr N pfx)
      in do { (ret, st) \<leftarrow> st_remove N (stack_table t ipv4) pfx; Some (ret, stack_table_mut t ipv4 st) })"

definition tbl_modify_impl :: "'n ipnet \<Rightarrow> ('n, 'v) SplitStackTable \<Rightarrow> 'n \<Rightarrow> 'v ModifyFn \<Rightarrow> ('v option \<times> ('n, 'v) SplitStackTable) option" where
  "tbl_modify_impl N t pfx f =
     (let ipv4 = is_ipv4 (net_addr N pfx)
      in do { (ret, st) \<leftarrow> st_modify_impl N (stack_table t ipv4) pfx f; Some (ret, stack_table_mut t ipv4 st) })"

definition tbl_clear :: "('n, 'v) SplitStackTable \<Rightarrow> ('n, 'v) SplitStackTable" where
  "tbl_clear t = \<lparr>table4 = st_clear (table4 t), table6 = st_clear (table6 t)\<rparr>"

definition tbl_lookup :: "'n ipnet \<Rightarrow> ('n, 'v) SplitStackTable \<Rightarrow> IpAddr \<Rightarrow> 'v option option" where
  "tbl_lookup N t ip = st_lookup N (stack_table t (is_ipv4 ip)) ip"

definition tbl_lookup_all :: "'n ipnet \<Rightarrow> ('n, 'v) SplitStackTable \<Rightarrow> IpAddr \<Rightarrow> ('n, 'v) LookupIter option" where
  "tbl_lookup_all N t ip = st_lookup_all N (stack_table t (is_ipv4 ip)) ip"

definition tbl_lookup_prefix_exact :: "'n ipnet \<Rightarrow> ('n, 'v) SplitStackTable \<Rightarrow> 'n \<Rightarrow> 'v option option" where
  "tbl_lookup_prefix_exact N t pfx = st_lookup_prefix_exact N (stack_table t (is_ipv4 (net_addr N pfx))) pfx"

definition tbl_lookup_prefix :: "'n ipnet \<Rightarrow> ('n, 'v) SplitStackTable \<Rightarrow> 'n \<Rightarrow> 'v option option" where
  "tbl_lookup_prefix N t pfx = st_lookup_prefix N (stack_table t (is_ipv4 (net_addr N pfx))) pfx"

definition tbl_lookup_prefix_lpm :: "'n ipnet \<Rightarrow> ('n, 'v) SplitStackTable \<Rightarrow> 'n \<Rightarrow> ('n \<times> 'v) option option" where
  "tbl_lookup_prefix_lpm N t pfx = st_lookup_prefix_lpm N (stack_table t (is_ipv4 (net_addr N pfx))) pfx"

definition tbl_size :: "('n, 'v) SplitStackTable \<Rightarrow> nat" where
  "tbl_size t = st_size (table4 t) + st_size (table6 t)"

section \<open>Tries as maps of prefixes\<close>

lemma net_bits_trunc:
  assumes "ipnet_ok N"
  shows "net_bits N (net_trunc N p) = net_bits N p"
  using net_bits_length [OF ipnet_okD(1) [OF assms, of p]] ipnet_okD(5,7) [OF assms] by (simp add: net_bits_def)

lemma net_at_root:
  assumes "ipnet_ok N"
  shows "net_at N (is_ipv4 (net_addr N p)) [] (net_trunc N p)"
  using trunc_fixed [OF assms, of "net_trunc N p"] ipnet_okD(6,7) [OF assms] by (simp add: net_at_def net_bits_trunc [OF assms])

lemma rel_root: "rel N p 0 = net_bits N p"
  by (simp add: rel_def)

lemma root_octets:
  assumes "ipnet_ok N"
  shows "length (ip_octets (net_addr N (net_trunc N p))) = ip_width (is_ipv4 (net_addr N p))"
  using net_at_width [OF assms net_at_root [OF assms]] .

lemma trie_insert_spec:
  assumes ok: "ipnet_ok N" and "trie_ok N v4 node" and "is_ipv4 (net_addr N p) = v4"
  obtains node' where "trie_insert N node p v = Some (trie_routes N v4 node (net_bits N p), node')" and "trie_ok N v4 node'"
    and "trie_routes N v4 node' = (trie_routes N v4 node)(net_bits N p \<mapsto> v)"
proof -
  have "sets_route (ip_width v4) N v4 [] node (rel N (net_trunc N p) 0) v (insert_inner N node (net_trunc N p) v 0)"
    using insert_inner_spec [OF ok, of "ip_width v4" v4 "[]" node "net_trunc N p" v] assms(2,3) net_at_root [OF ok, of p] by (simp add: trie_ok_def)
  then show ?thesis using that by (auto simp: sets_route_def trie_insert_def rel_root net_bits_trunc [OF ok] trie_ok_def trie_routes_def)
qed

lemma compress_root:
  assumes "removes (ip_width v4) N v4 [] 0 R info node"
  obtains node' where "(case info of
      None \<Rightarrow> Some (ret, node)
    | Some info \<Rightarrow> do { node2 \<leftarrow> compress_removal_path N node info; Some (ret, node2) }) = Some (ret, node')"
    and "trie_ok N v4 node'" and "trie_routes N v4 node' = R"
  using assms by (cases info) (auto simp: removes_def compress_removal_path_def trie_ok_def trie_routes_def)

lemma trie_remove_spec:
  assumes ok: "ipnet_ok N" and "trie_ok N v4 node" and v4: "is_ipv4 (net_addr N p) = v4"
  obtains node' where "trie_remove N node p = Some (trie_routes N v4 node (net_bits N p), node')" and "trie_ok N v4 node'"
    and "trie_routes N v4 node' = (trie_routes N v4 node)(net_bits N p := None)"
proof -
  let ?q = "net_trunc N p" and ?R = "trie_routes N v4 node"
  obtain info n1 where n1: "remove_walk N (ip_octets (net_addr N ?q)) ?q (ip_octets (net_addr N ?q)) 0 0 node = Some (?R (net_bits N p), info, n1)"
    "removes (ip_width v4) N v4 [] 0 (?R(net_bits N p := None)) info n1"
    using remove_walk_spec [OF ok, of "ip_octets (net_addr N ?q)" v4 "[]" node ?q 0] assms(2) net_at_root [OF ok, of p] root_octets [OF ok, of p] v4
    by (auto simp: rel_root net_bits_trunc [OF ok] trie_ok_def trie_routes_def simp del: fun_upd_apply)
  from compress_root [OF n1(2), of "?R (net_bits N p)"] n1(1) show ?thesis
    using that by (auto simp: trie_remove_def Let_def simp del: fun_upd_apply)
qed

lemma trie_modify_spec:
  assumes ok: "ipnet_ok N" and "trie_ok N v4 node" and v4: "is_ipv4 (net_addr N p) = v4"
    and m: "modified f (trie_routes N v4 node (net_bits N p)) = (ret, e)"
  obtains node' where "trie_modify N node p f = Some (ret, asked f (trie_routes N v4 node (net_bits N p)), node')" and "trie_ok N v4 node'"
    and "trie_routes N v4 node' = (trie_routes N v4 node)(net_bits N p := e)"
proof -
  let ?q = "net_trunc N p" and ?R = "trie_routes N v4 node"
  let ?m = "asked f (?R (net_bits N p))"
  obtain info n1 where n1: "modify_inner N (ip_octets (net_addr N ?q)) ?q f (ip_octets (net_addr N ?q)) 0 0 node = Some (ret, ?m, info, n1)"
    "removes (ip_width v4) N v4 [] 0 (?R(net_bits N p := e)) info n1"
    using modify_inner_spec [OF ok, of "ip_octets (net_addr N ?q)" v4 "[]" node ?q 0 f] assms(2) net_at_root [OF ok, of p] root_octets [OF ok, of p] v4 m
    by (auto simp: modifies_def Let_def rel_root net_bits_trunc [OF ok] trie_ok_def trie_routes_def simp del: fun_upd_apply)
  show ?thesis
  proof (rule compress_root [OF n1(2), of "(ret, ?m)"])
    fix node' assume "(case info of None \<Rightarrow> Some ((ret, ?m), n1) | Some info \<Rightarrow> do { node2 \<leftarrow> compress_removal_path N n1 info; Some ((ret, ?m), node2) }) = Some ((ret, ?m), node')"
      "trie_ok N v4 node'" "trie_routes N v4 node' = ?R(net_bits N p := e)"
    then show thesis using n1(1)
      by (intro that [of node']) (auto simp: trie_modify_def Let_def bind_eq_Some_conv split: option.splits simp del: fun_upd_apply)
  qed
qed

lemma lookup_prefix_exact_spec:
  assumes ok: "ipnet_ok N" and "trie_ok N v4 node" and v4: "is_ipv4 (net_addr N p) = v4" and "net_trunc N p = p"
  shows "lookup_prefix_exact N node p = Some (trie_routes N v4 node (net_bits N p))"
  using exact_walk_spec [OF ok, of "ip_octets (net_addr N p)" v4 "[]" node p] assms(2,4) net_at_root [OF ok, of p] root_octets [OF ok, of p] v4
  by (simp add: lookup_prefix_exact_def rel_root trie_ok_def trie_routes_def)

section \<open>Coverage\<close>

lemma covering_empty: "covering n bs m = [] \<longleftrightarrow> yield_set n bs m = {}"
  by (induction m) (auto split: option.splits)

lemma supersets_spec:
  assumes "node_wf n" and "from_pfx_7 octet = Some i"
  shows "supersets_prefix i n = Some (level_values n octet \<noteq> [])"
proof -
  obtain mask where mask: "lpm i = Some mask" "length mask = 4"
    using from_pfx_7_spec [of octet] assms(2) lpm_spec by (metis option.inject)
  obtain st where "for_octet n octet = Some \<lparr>pi_node = n, pi_yield_state = st\<rparr>" "bs_abs st = yield_set n (byte_bits octet) 8"
    using for_octet_spec [OF assms(1)] by blast
  then have "bs_abs (bs_intersect (prefix_bitset n) mask) = yield_set n (byte_bits octet) 8"
    using assms(2) mask(1) by (simp add: for_octet_def)
  moreover have "length (prefix_bitset n) = 4" using assms(1) by (simp add: node_wf_def a_wf_def prefix_bitset_def)
  ultimately have "bs_intersects (prefix_bitset n) mask \<longleftrightarrow> yield_set n (byte_bits octet) 8 \<noteq> {}"
    using mask(2) by (simp add: bs_intersects_spec bs_abs_bitwise)
  then show ?thesis using mask(1) by (simp add: supersets_prefix_def level_values_def covering_empty)
qed

lemma no_prefixes: "node_wf n \<Longrightarrow> prefix_count n = 0 \<Longrightarrow> level_values n octet = []"
  using counts(2,6) [of n] by (simp add: level_values_def covering_empty yield_set_def)

lemma contains_walk_spec:
  assumes ok: "ipnet_ok N" and addr: "ip_wf addr" "is_ipv4 addr = v4"
  shows "trie_wf (length os) N v4 path node \<Longrightarrow> ip_octets addr = path @ os \<Longrightarrow>
    contains_walk N addr os node = Some (matches (routes (length os) N (length path) node) (octet_bits os) \<noteq> [])"
proof (induction os arbitrary: node path)
  case (Cons b os)
  have twf: "trie_wf (Suc (length os)) N v4 path node" using Cons.prems(1) by simp
  note wf = trie_wfD(1) [OF twf] and child = trie_wfD(2) [OF twf]
  have leaf: "leaf_wf N v4 (path @ [b]) p" if "cmap node (unat b) = Some (Leaf p v)" for p v using child [OF that] by simp
  have step: "matches (routes (Suc (length os)) N (length path) node) (octet_bits (b # os)) =
    (case cmap node (unat b) of
       None \<Rightarrow> []
     | Some (Path m) \<Rightarrow> matches (routes (length os) N (Suc (length path)) m) (octet_bits os)
     | Some (Fringe v) \<Rightarrow> [v]
     | Some (Leaf p v) \<Rightarrow> if Sublist.prefix (rel N p (length path)) (octet_bits (b # os)) then [v] else []) @ level_values node b"
    unfolding octet_bits_simps(2) by (rule matches_step) (rule leaf_contains(2) [OF ok leaf addr Cons.prems(2)])
  obtain i where i: "from_pfx_7 b = Some i" by (rule from_pfx_7_spec)
  have cov: "(if prefix_count node \<noteq> 0 then supersets_prefix i node else Some False) = Some (level_values node b \<noteq> [])"
    using supersets_spec [OF wf i] no_prefixes [OF wf] by simp
  show ?case
  proof (cases "level_values node b = []")
    case False
    with i cov step show ?thesis by simp
  next
    case True
    show ?thesis
    proof (cases "cmap node (unat b)")
      case None
      with True i cov step wf show ?thesis by simp
    next
      case (Some c)
      show ?thesis
      proof (cases c)
        case (Path m)
        have "contains_walk N addr os m = Some (matches (routes (length os) N (Suc (length path)) m) (octet_bits os) \<noteq> [])"
          using Cons.IH [of "path @ [b]" m] child [OF Some] Path Cons.prems(2) by simp
        with True i cov step wf Some Path show ?thesis by simp
      next
        case (Fringe v)
        with True i cov step wf Some show ?thesis by simp
      next
        case (Leaf p v)
        note contains = leaf_contains(1) [OF ok leaf addr Cons.prems(2)]
        from contains [of p v] True i cov step wf Some Leaf show ?thesis by simp
      qed
    qed
  qed
qed simp

lemma trie_contains_spec:
  assumes ok: "ipnet_ok N" and "ip_wf addr" and "trie_ok N (is_ipv4 addr) node"
  shows "trie_contains N node addr = Some (matches (trie_routes N (is_ipv4 addr) node) (ip_bits addr) \<noteq> [])"
  using contains_walk_spec [OF ok assms(2) refl, of "ip_octets addr" "[]" node] assms(3) ip_wf_octets [OF assms(2)]
  by (simp add: trie_contains_def trie_ok_def trie_routes_def ip_bits_def)

section \<open>Tables as maps\<close>

text \<open>The family of a prefix and its bits: what identifies a route in a table.\<close>

definition net_key :: "'n ipnet \<Rightarrow> 'n \<Rightarrow> bool \<times> bool list" where
  "net_key N p = (is_ipv4 (net_addr N p), net_bits N p)"

definition st_ok :: "'n ipnet \<Rightarrow> bool \<Rightarrow> ('n, 'v) SimpleTable \<Rightarrow> bool" where
  "st_ok N v4 t \<longleftrightarrow> trie_ok N v4 (st_root t) \<and> finite (dom (trie_routes N v4 (st_root t))) \<and>
     st_size t = card (dom (trie_routes N v4 (st_root t)))"

definition st_routes :: "'n ipnet \<Rightarrow> bool \<Rightarrow> ('n, 'v) SimpleTable \<Rightarrow> bool list \<rightharpoonup> 'v" where
  "st_routes N v4 t = trie_routes N v4 (st_root t)"

definition tbl_ok :: "'n ipnet \<Rightarrow> ('n, 'v) SplitStackTable \<Rightarrow> bool" where
  "tbl_ok N t \<longleftrightarrow> st_ok N True (table4 t) \<and> st_ok N False (table6 t)"

definition tbl_routes :: "'n ipnet \<Rightarrow> ('n, 'v) SplitStackTable \<Rightarrow> bool \<times> bool list \<rightharpoonup> 'v" where
  "tbl_routes N t = (\<lambda>(v4, bs). st_routes N v4 (stack_table t v4) bs)"

lemma decr_card: "finite A \<Longrightarrow> x \<in> A \<Longrightarrow> decr (card A) = Some (card (A - {x}))"
  by (auto simp: decr_def card_Diff_singleton)

lemma st_insert_spec:
  assumes ok: "ipnet_ok N" and t: "st_ok N v4 t" and v4: "is_ipv4 (net_addr N p) = v4"
  obtains t' where "st_insert N t p v = Some (st_routes N v4 t (net_bits N p), t')" and "st_ok N v4 t'"
    and "st_routes N v4 t' = (st_routes N v4 t)(net_bits N p \<mapsto> v)"
proof -
  let ?R = "trie_routes N v4 (st_root t)" and ?q = "net_trunc N p"
  have "is_ipv4 (net_addr N ?q) = v4" using ipnet_okD(6) [OF ok] v4 by simp
  then obtain n where n: "trie_insert N (st_root t) ?q v = Some (?R (net_bits N p), n)" "trie_ok N v4 n" "trie_routes N v4 n = ?R(net_bits N p \<mapsto> v)"
    using trie_insert_spec [OF ok, of v4 "st_root t" ?q v] t by (auto simp: st_ok_def net_bits_trunc [OF ok])
  have "(if ?R (net_bits N p) = None then card (dom ?R) + 1 else card (dom ?R)) = card (insert (net_bits N p) (dom ?R))"
    using t by (auto simp: st_ok_def domIff insert_absorb)
  with n t show ?thesis
    by (intro that [of "\<lparr>st_root = n, st_size = (if ?R (net_bits N p) = None then st_size t + 1 else st_size t)\<rparr>"])
       (simp_all add: st_insert_def st_ok_def st_routes_def split: if_split_asm)
qed

lemma st_remove_spec:
  assumes ok: "ipnet_ok N" and t: "st_ok N v4 t" and v4: "is_ipv4 (net_addr N p) = v4"
  obtains t' where "st_remove N t p = Some (st_routes N v4 t (net_bits N p), t')" and "st_ok N v4 t'"
    and "st_routes N v4 t' = (st_routes N v4 t)(net_bits N p := None)"
proof -
  let ?R = "trie_routes N v4 (st_root t)"
  obtain n where n: "trie_remove N (st_root t) p = Some (?R (net_bits N p), n)" "trie_ok N v4 n" "trie_routes N v4 n = ?R(net_bits N p := None)"
    using trie_remove_spec [OF ok, of v4 "st_root t" p] t v4 by (auto simp: st_ok_def)
  have "(case ?R (net_bits N p) of Some _ \<Rightarrow> decr (st_size t) | None \<Rightarrow> Some (st_size t)) = Some (card (dom ?R - {net_bits N p}))"
    using t decr_card [of "dom ?R" "net_bits N p"] by (auto simp: st_ok_def domIff split: option.split)
  with n t show ?thesis
    by (intro that [of "\<lparr>st_root = n, st_size = card (dom ?R - {net_bits N p})\<rparr>"])
       (simp_all add: st_remove_def st_ok_def st_routes_def)
qed

lemma modified_asked:
  "modified f e = (ret, e') \<Longrightarrow> finite A \<Longrightarrow> x \<in> A \<longleftrightarrow> e \<noteq> None \<Longrightarrow>
   (case (ret, asked f e) of
      (None, Insert _) \<Rightarrow> Some (card A + 1)
    | (Some _, Remove) \<Rightarrow> decr (card A)
    | _ \<Rightarrow> Some (card A)) = Some (card (if e' = None then A - {x} else insert x A))"
  using decr_card [of A x]
  by (auto simp: modified_def asked_def insert_absorb split: option.splits prod.splits RouteModification.splits)

lemma st_modify_spec:
  assumes ok: "ipnet_ok N" and t: "st_ok N v4 t" and v4: "is_ipv4 (net_addr N p) = v4"
    and m: "modified f (st_routes N v4 t (net_bits N p)) = (ret, e)"
  obtains t' where "st_modify_impl N t p f = Some (ret, t')" and "st_ok N v4 t'"
    and "st_routes N v4 t' = (st_routes N v4 t)(net_bits N p := e)"
proof -
  let ?R = "trie_routes N v4 (st_root t)"
  obtain n where n: "trie_modify N (st_root t) p f = Some (ret, asked f (?R (net_bits N p)), n)" "trie_ok N v4 n" "trie_routes N v4 n = ?R(net_bits N p := e)"
    using trie_modify_spec [OF ok, of v4 "st_root t" p f ret e] t v4 m by (auto simp: st_ok_def st_routes_def)
  have sz: "card (dom ?R) = st_size t" using t by (simp add: st_ok_def)
  let ?s = "card (if e = None then dom ?R - {net_bits N p} else insert (net_bits N p) (dom ?R))"
  have "(case (ret, asked f (?R (net_bits N p))) of (None, Insert _) \<Rightarrow> Some (st_size t + 1) | (Some _, Remove) \<Rightarrow> decr (st_size t) | _ \<Rightarrow> Some (st_size t)) = Some ?s"
    using modified_asked [of f "?R (net_bits N p)" ret e "dom ?R" "net_bits N p", unfolded sz] t m by (auto simp only: st_ok_def st_routes_def domIff)
  with n t show ?thesis
    by (intro that [of "\<lparr>st_root = n, st_size = ?s\<rparr>"]) (simp_all add: st_modify_impl_def st_ok_def st_routes_def)
qed

lemma st_ok_EMPTY: "st_ok N v4 SimpleTable_EMPTY" "st_routes N v4 SimpleTable_EMPTY = Map.empty"
  using ip_width_bounds(2) [of v4] by (cases "ip_width v4"; simp add: st_ok_def st_routes_def SimpleTable_EMPTY_def trie_ok_def trie_routes_def)+

lemma is_lpm_unique:
  assumes "is_lpm R bs r" and "is_lpm R bs r'"
  shows "r = r'"
proof -
  have eq: "p = q" if "Sublist.prefix p bs" "Sublist.prefix q bs" "length p \<le> length q" "length q \<le> length p" for p q
    using prefix_length_prefix [OF that(1-3)] that(4) by (auto simp: prefix_def)
  show ?thesis
  proof (cases r; cases r')
    fix v v' assume r: "r = Some v" "r' = Some v'"
    obtain p where p: "Sublist.prefix p bs" "R p = Some v" "\<And>q. Sublist.prefix q bs \<Longrightarrow> R q \<noteq> None \<Longrightarrow> length q \<le> length p"
      using assms(1) r by (auto simp: is_lpm_def)
    obtain p' where p': "Sublist.prefix p' bs" "R p' = Some v'" "\<And>q. Sublist.prefix q bs \<Longrightarrow> R q \<noteq> None \<Longrightarrow> length q \<le> length p'"
      using assms(2) r by (auto simp: is_lpm_def)
    have "p = p'" by (rule eq) (use p p' in auto)
    with p p' r show ?thesis by simp
  qed (use assms in \<open>auto simp: is_lpm_def\<close>)
qed

lemma best_matchI: "is_lpm R bs r \<Longrightarrow> best_match R bs = r"
  using is_lpm_unique best_match_lpm by metis

lemma best_match_empty: "best_match R bs = None \<longleftrightarrow> matches R bs = []"
  by (simp add: best_match_def split: list.split)

section \<open>The interface of routing tables\<close>

text \<open>
  What the routers rely on: updates act on the map of routes, a lookup returns the value of the
  longest route that covers the address.
\<close>

locale prefix_table =
  fixes inv :: "'t \<Rightarrow> bool" and abs :: "'t \<Rightarrow> bool \<times> bool list \<rightharpoonup> 'v" and key :: "'n \<Rightarrow> bool \<times> bool list"
    and put :: "'t \<Rightarrow> 'n \<Rightarrow> 'v \<Rightarrow> ('v option \<times> 't) option" and del :: "'t \<Rightarrow> 'n \<Rightarrow> ('v option \<times> 't) option"
    and find :: "'t \<Rightarrow> IpAddr \<Rightarrow> 'v option option"
  assumes put_law: "inv t \<Longrightarrow> \<exists>t'. put t p v = Some (abs t (key p), t') \<and> inv t' \<and> abs t' = (abs t)(key p \<mapsto> v)"
    and del_law: "inv t \<Longrightarrow> \<exists>t'. del t p = Some (abs t (key p), t') \<and> inv t' \<and> abs t' = (abs t)(key p := None)"
    and find_law: "inv t \<Longrightarrow> ip_wf ip \<Longrightarrow> find t ip = Some (best_match (\<lambda>bs. abs t (is_ipv4 ip, bs)) (ip_bits ip))"
begin

lemma putE:
  assumes "inv t" and "put t p v = Some (old, t')"
  shows "old = abs t (key p)" and "inv t'" and "abs t' = (abs t)(key p \<mapsto> v)"
  using put_law [OF assms(1), of p v] assms(2) by auto

lemma put_then_del:
  assumes "inv t" and "put t p v = Some (old, t1)"
  obtains t2 where "del t1 p = Some (Some v, t2)" and "inv t2" and "abs t2 = (abs t)(key p := None)"
  using del_law [OF putE(2) [OF assms], of p] putE(3) [OF assms] by auto

text \<open>A route is used for every address it covers that no longer route covers.\<close>

lemma find_put:
  assumes "inv t" and "put t p v = Some (old, t')" and "ip_wf ip" and "key p = (is_ipv4 ip, s)" and "Sublist.prefix s (ip_bits ip)"
    and longest: "\<And>q. Sublist.prefix q (ip_bits ip) \<Longrightarrow> abs t (is_ipv4 ip, q) \<noteq> None \<Longrightarrow> length q \<le> length s"
  shows "find t' ip = Some (Some v)"
proof -
  have "is_lpm (\<lambda>bs. abs t' (is_ipv4 ip, bs)) (ip_bits ip) (Some v)"
    unfolding is_lpm_def putE(3) [OF assms(1,2)] using assms(4-6) by (auto simp: fun_upd_def intro!: exI [of _ s])
  then show ?thesis using find_law [OF putE(2) [OF assms(1,2)] assms(3)] by (simp add: best_matchI)
qed

text \<open>A route that does not cover an address does not change where it goes.\<close>

lemma find_put_other:
  assumes "inv t" and "put t p v = Some (old, t')" and "ip_wf ip"
    and "\<And>s. Sublist.prefix s (ip_bits ip) \<Longrightarrow> key p \<noteq> (is_ipv4 ip, s)"
  shows "find t' ip = find t ip"
proof -
  have "best_match (\<lambda>bs. abs t' (is_ipv4 ip, bs)) (ip_bits ip) = best_match (\<lambda>bs. abs t (is_ipv4 ip, bs)) (ip_bits ip)"
    by (rule best_match_cong) (metis assms(4) fun_upd_other putE(3) [OF assms(1,2)])
  then show ?thesis using find_law [OF assms(1,3)] find_law [OF putE(2) [OF assms(1,2)] assms(3)] by simp
qed

end

lemma stack_table_mut_sel [simp]:
  "stack_table (stack_table_mut t v4 st) v4' = (if v4' = v4 then st else stack_table t v4')"
  by (simp add: stack_table_def stack_table_mut_def)

lemma tbl_ok_iff: "tbl_ok N t \<longleftrightarrow> (\<forall>v4. st_ok N v4 (stack_table t v4))"
  by (auto simp: tbl_ok_def stack_table_def all_bool_eq)

lemma tbl_routes_key: "tbl_routes N t (v4, bs) = st_routes N v4 (stack_table t v4) bs"
  by (simp add: tbl_routes_def)

lemma tbl_routes_upd:
  assumes "st_routes N v4 st = (st_routes N v4 (stack_table t v4))(bs := x)"
  shows "tbl_routes N (stack_table_mut t v4 st) = (tbl_routes N t)((v4, bs) := x)"
  using assms by (auto simp: tbl_routes_def)

lemma tbl_insert_spec:
  assumes "ipnet_ok N" and "tbl_ok N t"
  shows "\<exists>t'. tbl_insert N t p v = Some (tbl_routes N t (net_key N p), t') \<and> tbl_ok N t' \<and>
    tbl_routes N t' = (tbl_routes N t)(net_key N p \<mapsto> v)"
proof -
  let ?v4 = "is_ipv4 (net_addr N p)"
  obtain st where "st_insert N (stack_table t ?v4) p v = Some (st_routes N ?v4 (stack_table t ?v4) (net_bits N p), st)" "st_ok N ?v4 st"
    "st_routes N ?v4 st = (st_routes N ?v4 (stack_table t ?v4))(net_bits N p \<mapsto> v)"
    using st_insert_spec [OF assms(1), of ?v4 "stack_table t ?v4" p v] assms(2) by (auto simp: tbl_ok_iff)
  with tbl_routes_upd [of N ?v4 st t] assms(2) show ?thesis
    by (intro exI [of _ "stack_table_mut t ?v4 st"]) (simp add: tbl_insert_def net_key_def tbl_ok_iff tbl_routes_key Let_def)
qed

lemma tbl_remove_spec:
  assumes "ipnet_ok N" and "tbl_ok N t"
  shows "\<exists>t'. tbl_remove N t p = Some (tbl_routes N t (net_key N p), t') \<and> tbl_ok N t' \<and>
    tbl_routes N t' = (tbl_routes N t)(net_key N p := None)"
proof -
  let ?v4 = "is_ipv4 (net_addr N p)"
  obtain st where "st_remove N (stack_table t ?v4) p = Some (st_routes N ?v4 (stack_table t ?v4) (net_bits N p), st)" "st_ok N ?v4 st"
    "st_routes N ?v4 st = (st_routes N ?v4 (stack_table t ?v4))(net_bits N p := None)"
    using st_remove_spec [OF assms(1), of ?v4 "stack_table t ?v4" p] assms(2) by (auto simp: tbl_ok_iff)
  with tbl_routes_upd [of N ?v4 st t] assms(2) show ?thesis
    by (intro exI [of _ "stack_table_mut t ?v4 st"]) (simp add: tbl_remove_def net_key_def tbl_ok_iff tbl_routes_key Let_def)
qed

lemma tbl_modify_spec:
  assumes "ipnet_ok N" and "tbl_ok N t" and "modified f (tbl_routes N t (net_key N p)) = (ret, e)"
  shows "\<exists>t'. tbl_modify_impl N t p f = Some (ret, t') \<and> tbl_ok N t' \<and>
    tbl_routes N t' = (tbl_routes N t)(net_key N p := e)"
proof -
  let ?v4 = "is_ipv4 (net_addr N p)"
  obtain st where "st_modify_impl N (stack_table t ?v4) p f = Some (ret, st)" "st_ok N ?v4 st"
    "st_routes N ?v4 st = (st_routes N ?v4 (stack_table t ?v4))(net_bits N p := e)"
    using st_modify_spec [OF assms(1), of ?v4 "stack_table t ?v4" p f ret e] assms(2,3) by (auto simp: tbl_ok_iff tbl_routes_def net_key_def)
  with tbl_routes_upd [of N ?v4 st t] assms(2) show ?thesis
    by (intro exI [of _ "stack_table_mut t ?v4 st"]) (simp add: tbl_modify_impl_def net_key_def tbl_ok_iff Let_def)
qed

lemma stack_routes: "(\<lambda>bs. tbl_routes N t (v4, bs)) = trie_routes N v4 (st_root (stack_table t v4))"
  by (simp add: tbl_routes_def st_routes_def)

lemma tbl_lookup_spec:
  assumes "ipnet_ok N" and "tbl_ok N t" and "ip_wf ip"
  shows "tbl_lookup N t ip = Some (best_match (\<lambda>bs. tbl_routes N t (is_ipv4 ip, bs)) (ip_bits ip))"
  using lookup_address_spec [OF assms(1,3), of "st_root (stack_table t (is_ipv4 ip))"] assms(2)
  by (simp add: tbl_lookup_def st_lookup_def tbl_ok_iff st_ok_def stack_routes)

lemma tbl_contains_spec:
  assumes "ipnet_ok N" and "tbl_ok N t" and "ip_wf ip"
  shows "tbl_contains N t ip = Some (best_match (\<lambda>bs. tbl_routes N t (is_ipv4 ip, bs)) (ip_bits ip) \<noteq> None)"
  using trie_contains_spec [OF assms(1,3), of "st_root (stack_table t (is_ipv4 ip))"] assms(2)
  by (simp only: tbl_contains_def st_contains_def tbl_ok_iff st_ok_def stack_routes best_match_empty)

lemma tbl_size_spec:
  assumes "tbl_ok N t"
  shows "tbl_size t = card (dom (tbl_routes N t))"
proof -
  let ?D = "\<lambda>v4. dom (st_routes N v4 (stack_table t v4))"
  have "dom (tbl_routes N t) = Pair True ` ?D True \<union> Pair False ` ?D False"
  proof (rule set_eqI, clarify)
    show "(v4, bs) \<in> dom (tbl_routes N t) \<longleftrightarrow> (v4, bs) \<in> Pair True ` ?D True \<union> Pair False ` ?D False" for v4 bs
      by (cases v4) (auto simp: tbl_routes_key dom_def)
  qed
  moreover have "finite (?D v4)" for v4 using assms by (simp add: tbl_ok_iff st_ok_def st_routes_def)
  ultimately have "card (dom (tbl_routes N t)) = card (?D True) + card (?D False)"
    using card_Un_disjoint [of "Pair True ` ?D True" "Pair False ` ?D False"] by (auto simp: card_image inj_on_def)
  then show ?thesis using assms by (simp add: tbl_size_def tbl_ok_def st_ok_def st_routes_def stack_table_def)
qed

lemma tbl_ok_EMPTY: "tbl_ok N SplitStackTable_EMPTY" "tbl_routes N SplitStackTable_EMPTY = Map.empty"
  by (auto simp: tbl_ok_def tbl_routes_def SplitStackTable_EMPTY_def st_ok_EMPTY stack_table_def)

lemma tbl_clear_EMPTY: "tbl_clear t = SplitStackTable_EMPTY"
  by (simp add: tbl_clear_def st_clear_def SplitStackTable_EMPTY_def SimpleTable_EMPTY_def)

interpretation tbl: prefix_table "\<lambda>t. ipnet_ok N \<and> tbl_ok N t" "tbl_routes N" "net_key N" "tbl_insert N" "tbl_remove N" "tbl_lookup N"
  for N :: "'n ipnet"
  by unfold_locales (simp_all only: tbl_insert_spec tbl_remove_spec tbl_lookup_spec simp_thms)

section \<open>Properties of the tables\<close>

text \<open>
  C13. The routing table of the routers refines a map from prefixes to values.  On a well-formed
  table no update panics; an insertion, a removal and a modification through a closure return the
  previous entry as the map has it and change this one entry only, although the trie moves other
  routes between nodes; the table stays well-formed; the counted size is the number of routes; and
  clearing leaves the empty map.
\<close>

theorem table_updates_refine_map:
  assumes "ipnet_ok N" and "tbl_ok N t"
  shows "(\<exists>t'. tbl_insert N t p v = Some (tbl_routes N t (net_key N p), t') \<and> tbl_ok N t' \<and>
           tbl_routes N t' = (tbl_routes N t)(net_key N p \<mapsto> v)) \<and>
    (\<exists>t'. tbl_remove N t p = Some (tbl_routes N t (net_key N p), t') \<and> tbl_ok N t' \<and>
           tbl_routes N t' = (tbl_routes N t)(net_key N p := None)) \<and>
    (\<exists>t'. tbl_modify_impl N t p f = Some (fst (modified f (tbl_routes N t (net_key N p))), t') \<and> tbl_ok N t' \<and>
           tbl_routes N t' = (tbl_routes N t)(net_key N p := snd (modified f (tbl_routes N t (net_key N p))))) \<and>
    tbl_size t = card (dom (tbl_routes N t)) \<and> tbl_ok N (tbl_clear t) \<and> tbl_routes N (tbl_clear t) = Map.empty"
  using tbl.put_law [of N t p v] tbl.del_law [of N t p] assms
    tbl_modify_spec [OF assms, of f p, OF surjective_pairing] tbl_size_spec [OF assms(2)] tbl_ok_EMPTY [of N]
  unfolding tbl_clear_EMPTY by blast

lemma ten_slash:
  assumes "unat n \<le> 32"
  shows "plain_addr (plain_of (V4 [10, b, c, d]) n) = V4 [10, b, c, d]" "plain_len (plain_of (V4 [10, b, c, d]) n) = n"
  using assms by (simp_all add: plain_of_sel ip_wf_def ip_bits_def ip_octets_def)

lemma unat_u8_16 [simp]: "unat (8 :: u8) = 8" "unat (16 :: u8) = 16"
  using unat_of_nat_u8 [of 8] unat_of_nat_u8 [of 16] by simp_all

lemma byte_bits_10: "byte_bits 10 = [False, False, False, False, True, False, True, False]"
  by (simp add: byte_bits_def upt_conv_Cons bit_iff_odd_drop_bit)

theorem table_updates_refine_map_witness:
  "\<exists>t'. tbl_insert plain_ipnet SplitStackTable_EMPTY (plain_of (V4 [10, 0, 0, 0]) 8) (7 :: nat) = Some (None, t') \<and>
     tbl_ok plain_ipnet t' \<and>
     tbl_routes plain_ipnet t' = [(True, [False, False, False, False, True, False, True, False]) \<mapsto> 7]"
proof -
  let ?p = "plain_of (V4 [10, 0, 0, 0]) 8"
  have "net_key plain_ipnet ?p = (True, [False, False, False, False, True, False, True, False])"
    using ten_slash [of 8 0 0 0] byte_bits_10 by (simp add: net_key_def net_bits_def ip_bits_def ip_octets_def is_ipv4_def)
  then show ?thesis
    using table_updates_refine_map [OF plain_ipnet_ok tbl_ok_EMPTY(1), of ?p "7 :: nat"] by (simp add: tbl_ok_EMPTY(2))
qed

text \<open>
  C12. Looking up an address in a well-formed table never panics and returns the value of the
  longest stored prefix that covers the address, or nothing when no stored prefix covers it;
  \<open>contains\<close> says whether there is one; and enumerating all matches yields the values of all
  covering prefixes, from the longest to the shortest, and ends.
\<close>

theorem table_lookup_is_longest_match:
  assumes "ipnet_ok N" and "tbl_ok N t" and "ip_wf ip"
  shows "\<exists>r it. tbl_lookup N t ip = Some r \<and> is_lpm (\<lambda>bs. tbl_routes N t (is_ipv4 ip, bs)) (ip_bits ip) r \<and>
    tbl_contains N t ip = Some (r \<noteq> None) \<and> tbl_lookup_all N t ip = Some it \<and>
    yields it (matches (\<lambda>bs. tbl_routes N t (is_ipv4 ip, bs)) (ip_bits ip))"
proof -
  obtain it where "tbl_lookup_all N t ip = Some it" "yields it (matches (\<lambda>bs. tbl_routes N t (is_ipv4 ip, bs)) (ip_bits ip))"
    using lookup_all_spec [OF assms(1,3), of "st_root (stack_table t (is_ipv4 ip))"] assms(2)
    by (auto simp: tbl_lookup_all_def st_lookup_all_def tbl_ok_iff st_ok_def stack_routes)
  with tbl_lookup_spec [OF assms] tbl_contains_spec [OF assms] best_match_lpm show ?thesis by blast
qed

lemma sample_routes:
  obtains t where "tbl_ok plain_ipnet t"
    and "tbl_routes plain_ipnet t = [(True, byte_bits 10) \<mapsto> 7, (True, byte_bits 10 @ byte_bits 1) \<mapsto> (8 :: nat)]"
proof -
  let ?p = "plain_of (V4 [10, 0, 0, 0]) 8" and ?q = "plain_of (V4 [10, 1, 0, 0]) 16"
  have p: "net_key plain_ipnet ?p = (True, byte_bits 10)"
    using ten_slash [of 8 0 0 0] by (simp add: net_key_def net_bits_def ip_bits_def ip_octets_def is_ipv4_def)
  have q: "net_key plain_ipnet ?q = (True, byte_bits 10 @ byte_bits 1)"
    using ten_slash [of 16 1 0 0] by (simp add: net_key_def net_bits_def ip_bits_def ip_octets_def is_ipv4_def)
  obtain t where t: "tbl_ok plain_ipnet t" "tbl_routes plain_ipnet t = [(True, byte_bits 10) \<mapsto> 7 :: nat]"
    using tbl_insert_spec [OF plain_ipnet_ok tbl_ok_EMPTY(1), of ?p "7 :: nat"] p by (auto simp: tbl_ok_EMPTY(2))
  show ?thesis using tbl_insert_spec [OF plain_ipnet_ok t(1), of ?q 8] q t(2) that by auto
qed

theorem table_lookup_is_longest_match_witness:
  "\<exists>t. tbl_routes plain_ipnet t = [(True, byte_bits 10) \<mapsto> 7, (True, byte_bits 10 @ byte_bits 1) \<mapsto> (8 :: nat)] \<and>
     tbl_lookup plain_ipnet t (V4 [10, 1, 2, 3]) = Some (Some 8) \<and> tbl_contains plain_ipnet t (V4 [10, 1, 2, 3]) = Some True"
proof -
  let ?ip = "V4 [10, 1, 2, 3]"
  obtain t where t: "tbl_ok plain_ipnet t"
    "tbl_routes plain_ipnet t = [(True, byte_bits 10) \<mapsto> 7, (True, byte_bits 10 @ byte_bits 1) \<mapsto> (8 :: nat)]" by (rule sample_routes)
  have ip: "ip_wf ?ip" "is_ipv4 ?ip" "ip_bits ?ip = byte_bits 10 @ byte_bits 1 @ byte_bits 2 @ byte_bits 3"
    by (simp_all add: ip_wf_def is_ipv4_def ip_bits_def ip_octets_def)
  have "is_lpm (\<lambda>bs. tbl_routes plain_ipnet t (is_ipv4 ?ip, bs)) (ip_bits ?ip) (Some 8)"
    using ip(2) unfolding is_lpm_def t(2) ip(3) by (auto split: if_splits intro!: exI [of _ "byte_bits 10 @ byte_bits 1"])
  moreover obtain r where "tbl_lookup plain_ipnet t ?ip = Some r" "is_lpm (\<lambda>bs. tbl_routes plain_ipnet t (is_ipv4 ?ip, bs)) (ip_bits ?ip) r"
    "tbl_contains plain_ipnet t ?ip = Some (r \<noteq> None)" using table_lookup_is_longest_match [OF plain_ipnet_ok t(1) ip(1)] by blast
  ultimately have "tbl_lookup plain_ipnet t ?ip = Some (Some 8)" "tbl_contains plain_ipnet t ?ip = Some True" using is_lpm_unique by fastforce+
  with t(2) show ?thesis by blast
qed

lemma inserted_route:
  assumes "ipnet_ok N" and "tbl_ok N t" and "tbl_insert N t p v = Some (old, t1)"
  shows "tbl_lookup_prefix_exact N t1 (net_trunc N p) = Some (Some v)"
    and "\<exists>t2. tbl_remove N t1 p = Some (Some v, t2) \<and> tbl_routes N t2 = (tbl_routes N t)(net_key N p := None)"
    and "ip_wf ip \<Longrightarrow> net_contains N p ip \<Longrightarrow>
      \<forall>q. Sublist.prefix q (ip_bits ip) \<longrightarrow> tbl_routes N t (is_ipv4 ip, q) \<noteq> None \<longrightarrow> length q \<le> unat (net_len N p) \<Longrightarrow>
      tbl_lookup N t1 ip = Some (Some v)"
    and "ip_wf ip \<Longrightarrow> \<not> net_contains N p ip \<Longrightarrow> tbl_lookup N t1 ip = tbl_lookup N t ip"
proof -
  have t: "ipnet_ok N \<and> tbl_ok N t" using assms(1,2) by simp
  note put = tbl.putE [OF t assms(3)]
  have fits: "net_fits N p" using assms(1) by (rule ipnet_okD)
  have cov: "net_contains N p ip \<longleftrightarrow> (\<exists>s. Sublist.prefix s (ip_bits ip) \<and> net_key N p = (is_ipv4 ip, s))" if "ip_wf ip" for ip
  proof -
    have "take (unat (net_len N p)) (ip_bits ip) = net_bits N p \<longleftrightarrow> Sublist.prefix (net_bits N p) (ip_bits ip)"
      unfolding net_bits_length [OF fits, symmetric] by (metis append_eq_conv_conj prefix_def take_is_prefix)
    then show ?thesis unfolding ipnet_okD(3) [OF assms(1) that] net_key_def by auto
  qed
  show "tbl_lookup_prefix_exact N t1 (net_trunc N p) = Some (Some v)"
  proof -
    let ?q = "net_trunc N p" and ?v4 = "is_ipv4 (net_addr N p)"
    have q: "is_ipv4 (net_addr N ?q) = ?v4" "net_trunc N ?q = ?q" using net_at_root [OF assms(1), of p] by (simp_all add: net_at_def)
    have "lookup_prefix_exact N (st_root (stack_table t1 ?v4)) ?q = Some (tbl_routes N t1 (?v4, net_bits N p))"
      using lookup_prefix_exact_spec [OF assms(1) _ q, of "st_root (stack_table t1 ?v4)"] put(2)
      by (simp add: tbl_ok_iff st_ok_def tbl_routes_key st_routes_def net_bits_trunc [OF assms(1)])
    then show ?thesis using put(3) q by (simp add: tbl_lookup_prefix_exact_def st_lookup_prefix_exact_def net_key_def)
  qed
  show "\<exists>t2. tbl_remove N t1 p = Some (Some v, t2) \<and> tbl_routes N t2 = (tbl_routes N t)(net_key N p := None)"
    using tbl.put_then_del [OF t assms(3)] by metis
  show "tbl_lookup N t1 ip = Some (Some v)" if "ip_wf ip" "net_contains N p ip"
    "\<forall>q. Sublist.prefix q (ip_bits ip) \<longrightarrow> tbl_routes N t (is_ipv4 ip, q) \<noteq> None \<longrightarrow> length q \<le> unat (net_len N p)"
    using tbl.find_put [OF t assms(3) that(1)] cov [OF that(1)] that(2,3) net_bits_length [OF fits] by (auto simp: net_key_def)
  show "tbl_lookup N t1 ip = tbl_lookup N t ip" if "ip_wf ip" "\<not> net_contains N p ip"
    by (rule tbl.find_put_other [OF t assms(3) that(1)]) (use cov [OF that(1)] that(2) in blast)
qed

text \<open>
  A route that was inserted is found: exactly, by every address it covers unless a longer
  route covers it too, and by the removal that takes it out again; an address it does not cover
  goes where it went before.
\<close>

theorem inserted_route_is_found:
  assumes "ipnet_ok N" and "tbl_ok N t" and "tbl_insert N t p v = Some (old, t1)"
  shows "tbl_lookup_prefix_exact N t1 (net_trunc N p) = Some (Some v) \<and>
    (\<exists>t2. tbl_remove N t1 p = Some (Some v, t2) \<and> tbl_routes N t2 = (tbl_routes N t)(net_key N p := None)) \<and>
    (\<forall>ip. ip_wf ip \<longrightarrow>
      (if net_contains N p ip
       then (\<forall>q. Sublist.prefix q (ip_bits ip) \<longrightarrow> tbl_routes N t (is_ipv4 ip, q) \<noteq> None \<longrightarrow> length q \<le> unat (net_len N p)) \<longrightarrow>
         tbl_lookup N t1 ip = Some (Some v)
       else tbl_lookup N t1 ip = tbl_lookup N t ip))"
  using inserted_route [OF assms] by (simp split: if_split)

theorem inserted_route_is_found_witness:
  "\<exists>t. tbl_lookup_prefix_exact plain_ipnet t (plain_trunc (plain_of (V4 [10, 9, 0, 0]) 8)) = Some (Some (7 :: nat)) \<and>
     tbl_lookup plain_ipnet t (V4 [10, 1, 2, 3]) = Some (Some 7)"
proof -
  let ?p = "plain_of (V4 [10, 9, 0, 0]) 8"
  obtain t where t: "tbl_insert plain_ipnet SplitStackTable_EMPTY ?p (7 :: nat) = Some (None, t)"
    using tbl_insert_spec [OF plain_ipnet_ok tbl_ok_EMPTY(1), of ?p "7 :: nat"] by (auto simp: tbl_ok_EMPTY(2))
  have "net_contains plain_ipnet ?p (V4 [10, 1, 2, 3])" "ip_wf (V4 [10, 1, 2, 3])"
    using ten_slash [of 8 9 0 0] by (simp_all add: plain_contains_def is_ipv4_def ip_bits_def ip_octets_def ip_wf_def)
  then show ?thesis using inserted_route_is_found [OF plain_ipnet_ok tbl_ok_EMPTY(1) t] by (auto simp: tbl_ok_EMPTY(2))
qed

lemma insert_into_empty:
  assumes ok: "ipnet_ok N" and len: "8 < unat (net_len N p)"
  obtains n where "trie_insert N node_EMPTY (net_trunc N p) v = Some (None, n)" and "node_wf n"
    and "cmap n = [unat (hd (ip_octets (net_addr N (net_trunc N p)))) \<mapsto> Leaf (net_trunc N p) v]"
proof -
  let ?p = "net_trunc N p" and ?v4 = "is_ipv4 (net_addr N p)"
  have at: "net_at N ?v4 [] ?p" by (rule net_at_root [OF ok])
  have w: "length ([] :: bytes) + Suc (ip_width ?v4 - 1) = ip_width ?v4" using ip_width_bounds(2) [of ?v4] by simp
  have nb: "length (net_bits N ?p) = unat (net_len N p)"
    using net_bits_length [OF ipnet_okD(1) [OF ok, of ?p]] ipnet_okD(5) [OF ok] by simp
  obtain b os where os: "ip_octets (net_addr N ?p) = b # os" using root_octets [OF ok, of p] w by (cases "ip_octets (net_addr N ?p)") auto
  obtain n where n: "insert_child b (Leaf ?p v) node_EMPTY = Some (None, n)" "node_wf n" "cmap n = [unat b \<mapsto> Leaf ?p v]"
    using insert_child_spec [OF node_EMPTY_maps(1), of b "Leaf ?p v"] by (auto simp: fun_upd_def)
  from ok at w have "insert_inner N node_EMPTY ?p v 0 = Some (None, n)"
  proof (cases rule: net_at_cases)
    case (here b' ov)
    then have "length (net_bits N ?p) < 8" by (simp add: rel_root)
    then show ?thesis using nb len by simp
  next
    case (below b' s ov)
    have "rel N ?p 1 \<noteq> []" using nb len by (simp add: rel_def)
    with below n(1) os show ?thesis by (simp add: insert_inner.simps [of N _ ?p v 0])
  qed
  moreover have "net_trunc N ?p = ?p" using at by (simp add: net_at_def)
  ultimately show ?thesis using n os by (intro that [of n]) (simp_all add: trie_insert_def)
qed

text \<open>
  C40. \<open>lookup_prefix_lpm\<close> does not compare a leaf with the prefix it looks up: in a table whose
  only route is longer than eight bits, it returns this route for every prefix of the same family
  with the same first octet, whether the route covers the prefix or not.
\<close>

theorem lookup_prefix_lpm_skips_cover_check:
  assumes ok: "ipnet_ok N" and len: "8 < unat (net_len N p)" and fam: "is_ipv4 (net_addr N q) = is_ipv4 (net_addr N p)"
    and hd: "hd (ip_octets (net_addr N (net_trunc N q))) = hd (ip_octets (net_addr N (net_trunc N p)))"
  shows "\<exists>t. tbl_insert N SplitStackTable_EMPTY p v = Some (None, t) \<and>
    tbl_lookup_prefix_lpm N t q = Some (Some (net_trunc N p, v))"
proof -
  let ?p = "net_trunc N p" and ?q = "net_trunc N q" and ?v4 = "is_ipv4 (net_addr N p)"
  obtain n where n: "trie_insert N node_EMPTY ?p v = Some (None, n)" "node_wf n" "cmap n = [unat (hd (ip_octets (net_addr N ?p))) \<mapsto> Leaf ?p v]"
    by (rule insert_into_empty [OF ok len])
  obtain os where os: "ip_octets (net_addr N ?q) = hd (ip_octets (net_addr N ?p)) # os"
    using root_octets [OF ok, of q] ip_width_bounds(2) [of "is_ipv4 (net_addr N q)"] hd by (cases "ip_octets (net_addr N ?q)") auto
  have "net_contains N ?p (net_addr N ?p)"
    using ipnet_okD(3) [OF ok, of "net_addr N ?p" ?p] ipnet_okD(1) [OF ok, of ?p] by (simp add: net_fits_def net_bits_def)
  then have "lookup_prefix_lpm N n q = Some (Some (?p, v))"
    using n(2,3) by (simp add: lookup_prefix_lpm_def os MAX_DEPTH_def)
  with n(1) fam show ?thesis
    by (intro exI [of _ "stack_table_mut SplitStackTable_EMPTY ?v4 \<lparr>st_root = n, st_size = 1\<rparr>"])
       (simp add: tbl_insert_def st_insert_def tbl_lookup_prefix_lpm_def st_lookup_prefix_lpm_def SplitStackTable_EMPTY_def SimpleTable_EMPTY_def stack_table_def stack_table_mut_def Let_def)
qed

theorem lookup_prefix_lpm_skips_cover_check_witness:
  "\<exists>t. tbl_insert plain_ipnet SplitStackTable_EMPTY (plain_of (V4 [10, 1, 0, 0]) 16) (7 :: nat) = Some (None, t) \<and>
     tbl_lookup_prefix_lpm plain_ipnet t (plain_of (V4 [10, 2, 0, 0]) 16) =
       Some (Some (plain_trunc (plain_of (V4 [10, 1, 0, 0]) 16), 7)) \<and>
     \<not> plain_contains (plain_trunc (plain_of (V4 [10, 1, 0, 0]) 16)) (V4 [10, 2, 0, 0])"
proof -
  let ?p = "plain_of (V4 [10, 1, 0, 0]) 16" and ?q = "plain_of (V4 [10, 2, 0, 0]) 16"
  have "byte_bits 1 \<noteq> byte_bits 2" using byte_bits_inject [of 1 2] by simp
  moreover have "byte_bits (keep_bits 8 b) = byte_bits b" for b by (simp add: byte_bits_keep)
  ultimately have "\<not> plain_contains (plain_trunc ?p) (V4 [10, 2, 0, 0])"
    using ten_slash [of 16] by (simp add: plain_contains_def plain_trunc_sel mask_ip_def ip_bits_def ip_octets_def)
  moreover have "hd (ip_octets (plain_addr (plain_trunc ?q))) = hd (ip_octets (plain_addr (plain_trunc ?p)))"
    using ten_slash [of 16] by (simp add: plain_trunc_sel mask_ip_def ip_octets_def)
  ultimately show ?thesis
    using lookup_prefix_lpm_skips_cover_check [OF plain_ipnet_ok, of ?p ?q "7 :: nat"] ten_slash [of 16] by (simp add: is_ipv4_def)
qed

end
