(* ===== verification/Routers.thy ===== *)
theory Routers
  imports Bart_Table Tunnel_Results
begin

text \<open>
  The routers of the data plane (\<open>ts_overlay_router/src\<close>, \<open>ts_underlay_router/src\<close>).  The overlay
  routers look up destinations in a routing table of \<open>Bart_Table\<close>; the underlay router maps peers
  to transports.  The order in which a hash map is iterated is an argument.
\<close>

section \<open>Definitions\<close>

type_synonym OverlayTransportId = u32
type_synonym UnderlayTransportId = u32

text \<open>\<open>into_group_map\<close>: the values of each key, in order.\<close>

definition into_group_map :: "('k \<times> 'v) list \<Rightarrow> ('k \<rightharpoonup> 'v list)" where
  [rust_std]: "into_group_map xs = fold (\<lambda>(k, v) m. entry_extend m k [v]) xs Map.empty"

datatype OutRouteAction = OutDrop | OutWireguard PeerId | OutLoopback OverlayTransportId

record 'n OutRouter =
  or_out_table :: "('n, OutRouteAction) SplitStackTable"

record OutResult =
  to_wireguard :: packets_by_peer
  loopback :: "OverlayTransportId \<rightharpoonup> bytes list"

definition OutRouter_default :: "'n OutRouter" where
  "OutRouter_default = \<lparr>or_out_table = SplitStackTable_EMPTY\<rparr>"

fun out_route_groups ::
  "'n ipnet \<Rightarrow> ('n, OutRouteAction) SplitStackTable \<Rightarrow> IpAddr list \<Rightarrow> (IpAddr \<rightharpoonup> bytes list) \<Rightarrow> OutResult \<Rightarrow> OutResult option" where
  "out_route_groups N t [] by_dest ret = Some ret"
| "out_route_groups N t (addr # order) by_dest ret =
     (case by_dest addr of
        None \<Rightarrow> out_route_groups N t order by_dest ret
      | Some packets \<Rightarrow>
          do {
            action \<leftarrow> tbl_lookup N t addr;
            out_route_groups N t order by_dest
              (case action of
                 Some (OutWireguard peer) \<Rightarrow> ret\<lparr>to_wireguard := entry_extend (to_wireguard ret) peer packets\<rparr>
               | Some (OutLoopback i) \<Rightarrow> ret\<lparr>loopback := entry_extend (loopback ret) i packets\<rparr>
               | Some OutDrop \<Rightarrow> ret
               | None \<Rightarrow> ret)
          })"

definition by_dest :: "bytes list \<Rightarrow> (IpAddr \<rightharpoonup> bytes list)" where
  "by_dest packets = into_group_map (List.map_filter (\<lambda>p. map_option (\<lambda>a. (a, p)) (get_dst_addr p)) packets)"

definition OutRouter_route :: "'n ipnet \<Rightarrow> IpAddr list \<Rightarrow> bytes list \<Rightarrow> 'n OutRouter \<Rightarrow> OutResult option" where
  "OutRouter_route N order packets r =
     out_route_groups N (or_out_table r) order (by_dest packets) \<lparr>to_wireguard = Map.empty, loopback = Map.empty\<rparr>"

definition OutRouter_swap ::
  "('n, OutRouteAction) SplitStackTable \<Rightarrow> 'n OutRouter \<Rightarrow> ('n, OutRouteAction) SplitStackTable \<times> 'n OutRouter" where
  "OutRouter_swap new_routes r = (or_out_table r, r\<lparr>or_out_table := new_routes\<rparr>)"

datatype InRouteAction = InDrop | ToOverlay OverlayTransportId

record 'n InRouter =
  or_in_table :: "('n, InRouteAction) SplitStackTable"

definition InRouter_default :: "'n InRouter" where
  "InRouter_default = \<lparr>or_in_table = SplitStackTable_EMPTY\<rparr>"

fun in_route_each ::
  "'n ipnet \<Rightarrow> ('n, InRouteAction) SplitStackTable \<Rightarrow> bytes list \<Rightarrow> (OverlayTransportId \<times> bytes) list option" where
  "in_route_each N t [] = Some []"
| "in_route_each N t (packet # packets) =
     (case get_dst_addr packet of
        None \<Rightarrow> in_route_each N t packets
      | Some addr \<Rightarrow>
          do {
            action \<leftarrow> tbl_lookup N t addr;
            rest \<leftarrow> in_route_each N t packets;
            Some (case action of
                Some (ToOverlay key) \<Rightarrow> (key, packet) # rest
              | Some InDrop \<Rightarrow> rest
              | None \<Rightarrow> rest)
          })"

definition InRouter_route :: "'n ipnet \<Rightarrow> bytes list \<Rightarrow> 'n InRouter \<Rightarrow> (OverlayTransportId \<rightharpoonup> bytes list) option" where
  "InRouter_route N packets r = map_option into_group_map (in_route_each N (or_in_table r) packets)"

definition InRouter_swap ::
  "('n, InRouteAction) SplitStackTable \<Rightarrow> 'n InRouter \<Rightarrow> ('n, InRouteAction) SplitStackTable \<times> 'n InRouter" where
  "InRouter_swap new_routes r = (or_in_table r, r\<lparr>or_in_table := new_routes\<rparr>)"

record UnderlayRouter =
  ur_table :: "PeerId \<rightharpoonup> UnderlayTransportId"

type_synonym underlay_result = "UnderlayTransportId \<times> PeerId \<rightharpoonup> bytes list"

definition UnderlayRouter_default :: UnderlayRouter where
  "UnderlayRouter_default = \<lparr>ur_table = Map.empty\<rparr>"

fun ur_route_each :: "UnderlayRouter \<Rightarrow> (PeerId \<times> bytes list) list \<Rightarrow> underlay_result \<Rightarrow> underlay_result" where
  "ur_route_each r [] ret = ret"
| "ur_route_each r ((peer_id, packets) # batches) ret =
     ur_route_each r batches
       (case ur_table r peer_id of
          Some transport \<Rightarrow> entry_extend ret (transport, peer_id) packets
        | None \<Rightarrow> ret)"

definition UnderlayRouter_route :: "UnderlayRouter \<Rightarrow> (PeerId \<times> bytes list) list \<Rightarrow> underlay_result" where
  "UnderlayRouter_route r batches = ur_route_each r batches Map.empty"

section \<open>Grouping\<close>

lemma fold_group:
  "entry_list (fold (\<lambda>(k, v) m. entry_extend m k [v]) xs m) k = entry_list m k @ map snd (filter (\<lambda>x. fst x = k) xs)"
  "dom (fold (\<lambda>(k, v) m. entry_extend m k [v]) xs m) = dom m \<union> fst ` set xs"
  by (induction xs arbitrary: m) (simp_all add: split_beta)

lemma into_group_map_list: "entry_list (into_group_map xs) k = map snd (filter (\<lambda>x. fst x = k) xs)"
  by (simp add: into_group_map_def fold_group)

lemma dom_into_group_map: "dom (into_group_map xs) = fst ` set xs"
  by (simp add: into_group_map_def fold_group)

lemma entry_list_Some: "m k = Some vs \<Longrightarrow> entry_list m k = vs"
  by (simp add: entry_list_def)

lemma by_dest_list: "entry_list (by_dest packets) a = filter (\<lambda>p. get_dst_addr p = Some a) packets"
  unfolding by_dest_def into_group_map_list
  by (induction packets) (auto simp: map_filter_simps split: option.split)

lemma dom_by_dest: "dom (by_dest packets) = {a. \<exists>p\<in>set packets. get_dst_addr p = Some a}"
  unfolding by_dest_def dom_into_group_map by (induction packets) (auto simp: map_filter_simps split: option.split)

lemma get_dst_addr_wf: "get_dst_addr p = Some a \<Longrightarrow> ip_wf a"
  by (auto simp: get_dst_addr_def ipv4_at_def ipv6_at_def ip_wf_def field_def split: option.splits if_splits)

lemma get_src_addr_wf: "get_src_addr p = Some a \<Longrightarrow> ip_wf a"
  by (auto simp: get_src_addr_def ipv4_at_def ipv6_at_def ip_wf_def field_def split: option.splits if_splits)

section \<open>Where packets go\<close>

text \<open>The value of the longest route that covers an address, and the next hop of a packet.\<close>

definition hop_of :: "'n ipnet \<Rightarrow> ('n, 'v) SplitStackTable \<Rightarrow> IpAddr \<Rightarrow> 'v option" where
  "hop_of N t a = best_match (\<lambda>bs. tbl_routes N t (is_ipv4 a, bs)) (ip_bits a)"

definition next_hop :: "'n ipnet \<Rightarrow> ('n, 'v) SplitStackTable \<Rightarrow> bytes \<Rightarrow> 'v option" where
  "next_hop N t p = Option.bind (get_dst_addr p) (hop_of N t)"

lemma lookup_hop: "ipnet_ok N \<Longrightarrow> tbl_ok N t \<Longrightarrow> ip_wf a \<Longrightarrow> tbl_lookup N t a = Some (hop_of N t a)"
  by (simp add: tbl.find_law hop_of_def)

lemma in_route_each_spec:
  assumes "ipnet_ok N" and "tbl_ok N t"
  shows "in_route_each N t packets =
    Some (List.map_filter (\<lambda>p. case next_hop N t p of Some (ToOverlay key) \<Rightarrow> Some (key, p) | _ \<Rightarrow> None) packets)"
proof (induction packets)
  case (Cons p packets)
  show ?case
  proof (cases "get_dst_addr p")
    case None
    with Cons show ?thesis by (simp add: map_filter_simps next_hop_def)
  next
    case (Some a)
    with Cons lookup_hop [OF assms get_dst_addr_wf [OF Some]] show ?thesis
      by (simp add: map_filter_simps next_hop_def split: option.split InRouteAction.split)
  qed
qed (simp add: map_filter_simps)

lemma InRouter_route_spec:
  assumes "ipnet_ok N" and "tbl_ok N (or_in_table r)"
  obtains ret where "InRouter_route N packets r = Some ret"
    and "\<And>i. entry_list ret i = filter (\<lambda>p. next_hop N (or_in_table r) p = Some (ToOverlay i)) packets"
    and "\<And>i. ret i \<noteq> None \<longleftrightarrow> (\<exists>p\<in>set packets. next_hop N (or_in_table r) p = Some (ToOverlay i))"
proof
  let ?t = "or_in_table r"
  let ?f = "\<lambda>p. case next_hop N ?t p of Some (ToOverlay key) \<Rightarrow> Some (key, p) | _ \<Rightarrow> None"
  let ?xs = "List.map_filter ?f packets"
  show "InRouter_route N packets r = Some (into_group_map ?xs)" using in_route_each_spec [OF assms] by (simp add: InRouter_route_def)
  show "entry_list (into_group_map ?xs) i = filter (\<lambda>p. next_hop N ?t p = Some (ToOverlay i)) packets" for i
    unfolding into_group_map_list by (induction packets) (auto simp: map_filter_simps split: option.split InRouteAction.split)
  have "into_group_map ?xs i \<noteq> None \<longleftrightarrow> i \<in> fst ` set ?xs" for i unfolding dom_into_group_map [symmetric] by (simp only: domIff)
  moreover have "i \<in> fst ` set ?xs \<longleftrightarrow> (\<exists>p\<in>set packets. next_hop N ?t p = Some (ToOverlay i))" for i
    by (induction packets) (auto simp: map_filter_simps split: option.splits InRouteAction.splits)
  ultimately show "into_group_map ?xs i \<noteq> None \<longleftrightarrow> (\<exists>p\<in>set packets. next_hop N ?t p = Some (ToOverlay i))" for i by blast
qed

lemma out_route_groups_spec:
  assumes "ipnet_ok N" and "tbl_ok N t" and "\<And>a. a \<in> set order \<Longrightarrow> ip_wf a"
  shows "\<exists>ret'. out_route_groups N t order m ret = Some ret' \<and>
    (\<forall>peer. entry_list (to_wireguard ret') peer = entry_list (to_wireguard ret) peer @
       concat (map (\<lambda>a. if hop_of N t a = Some (OutWireguard peer) then entry_list m a else []) order)) \<and>
    (\<forall>i. entry_list (loopback ret') i = entry_list (loopback ret) i @
       concat (map (\<lambda>a. if hop_of N t a = Some (OutLoopback i) then entry_list m a else []) order))"
  using assms(3)
proof (induction order arbitrary: ret)
  case (Cons a order)
  have wf: "ip_wf a" "\<And>a. a \<in> set order \<Longrightarrow> ip_wf a" using Cons.prems by simp_all
  note IH = Cons.IH [OF wf(2)]
  show ?case
  proof (cases "m a")
    case None
    with IH [of ret] show ?thesis by (simp add: entry_list_def)
  next
    case (Some ps)
    let ?ret = "case hop_of N t a of
        Some (OutWireguard peer) \<Rightarrow> ret\<lparr>to_wireguard := entry_extend (to_wireguard ret) peer ps\<rparr>
      | Some (OutLoopback i) \<Rightarrow> ret\<lparr>loopback := entry_extend (loopback ret) i ps\<rparr>
      | _ \<Rightarrow> ret"
    from IH [of ?ret] Some lookup_hop [OF assms(1,2) wf(1)] entry_list_Some [of m a, OF Some] show ?thesis
      by (cases "hop_of N t a"; cases "the (hop_of N t a)") auto
  qed
qed simp

lemma filter_concat_groups:
  assumes "distinct order"
  shows "filter (\<lambda>p. d p = Some a) (concat (map (\<lambda>a. if P a then filter (\<lambda>p. d p = Some a) ps else []) order)) =
    (if a \<in> set order \<and> P a then filter (\<lambda>p. d p = Some a) ps else [])"
  using assms
proof (induction order)
  case (Cons b order)
  have "filter (\<lambda>p. d p = Some a) (filter (\<lambda>p. d p = Some b) ps) = (if a = b then filter (\<lambda>p. d p = Some a) ps else [])"
    by (induction ps) auto
  with Cons show ?case by auto
qed simp

text \<open>
  The packets queued for one next hop: those whose destination has this hop, in their order for
  every destination.
\<close>

definition queue_for :: "'n ipnet \<Rightarrow> ('n, 'v) SplitStackTable \<Rightarrow> 'v \<Rightarrow> bytes list \<Rightarrow> bytes list \<Rightarrow> bool" where
  "queue_for N t hop packets queue \<longleftrightarrow>
     set queue = {p \<in> set packets. next_hop N t p = Some hop} \<and>
     (\<forall>a. filter (\<lambda>p. get_dst_addr p = Some a) queue = filter (\<lambda>p. get_dst_addr p = Some a \<and> next_hop N t p = Some hop) packets)"

lemma queue_for_groups:
  assumes "distinct order" and "set order = dom (by_dest packets)"
  shows "queue_for N t hop packets (concat (map (\<lambda>a. if hop_of N t a = Some hop then entry_list (by_dest packets) a else []) order))"
proof -
  let ?q = "concat (map (\<lambda>a. if hop_of N t a = Some hop then entry_list (by_dest packets) a else []) order)"
  have "filter (\<lambda>p. get_dst_addr p = Some a) ?q = filter (\<lambda>p. get_dst_addr p = Some a \<and> next_hop N t p = Some hop) packets" for a
  proof -
    have "filter (\<lambda>p. get_dst_addr p = Some a) ?q =
        (if a \<in> set order \<and> hop_of N t a = Some hop then filter (\<lambda>p. get_dst_addr p = Some a) packets else [])"
      unfolding by_dest_list by (rule filter_concat_groups [OF assms(1)])
    also have "\<dots> = filter (\<lambda>p. get_dst_addr p = Some a \<and> next_hop N t p = Some hop) packets"
      by (auto simp: assms(2) dom_by_dest next_hop_def filter_empty_conv intro!: filter_cong)
    finally show ?thesis .
  qed
  moreover have "set ?q = {p \<in> set packets. next_hop N t p = Some hop}"
    by (auto simp: by_dest_list assms(2) dom_by_dest next_hop_def bind_eq_Some_conv split: if_splits)
  ultimately show ?thesis by (simp add: queue_for_def)
qed

lemma OutRouter_route_spec:
  assumes "ipnet_ok N" and "tbl_ok N (or_out_table r)" and "distinct order" and "set order = dom (by_dest packets)"
  obtains ret where "OutRouter_route N order packets r = Some ret"
    and "\<And>peer. queue_for N (or_out_table r) (OutWireguard peer) packets (entry_list (to_wireguard ret) peer)"
    and "\<And>i. queue_for N (or_out_table r) (OutLoopback i) packets (entry_list (loopback ret) i)"
proof -
  let ?t = "or_out_table r"
  have "ip_wf a" if "a \<in> set order" for a using that assms(4) get_dst_addr_wf by (auto simp: dom_by_dest)
  from out_route_groups_spec [OF assms(1,2) this, of order "by_dest packets" "\<lparr>to_wireguard = Map.empty, loopback = Map.empty\<rparr>"]
  obtain ret where "OutRouter_route N order packets r = Some ret"
    and ret: "\<And>peer. entry_list (to_wireguard ret) peer =
       concat (map (\<lambda>a. if hop_of N ?t a = Some (OutWireguard peer) then entry_list (by_dest packets) a else []) order)"
     "\<And>i. entry_list (loopback ret) i =
       concat (map (\<lambda>a. if hop_of N ?t a = Some (OutLoopback i) then entry_list (by_dest packets) a else []) order)"
    by (auto simp: OutRouter_route_def)
  then show ?thesis by (intro that [of ret]) (simp_all only: ret queue_for_groups [OF assms(3,4)])
qed

lemma ur_route_each_list:
  "entry_list (ur_route_each r batches ret) (tr, peer) =
     entry_list ret (tr, peer) @ (if ur_table r peer = Some tr then concat (map snd (filter (\<lambda>b. fst b = peer) batches)) else [])"
  by (induction r batches ret rule: ur_route_each.induct) (auto split: option.split)

lemma UnderlayRouter_route_list:
  "entry_list (UnderlayRouter_route r batches) (tr, peer) =
     (if ur_table r peer = Some tr then concat (map snd (filter (\<lambda>b. fst b = peer) batches)) else [])"
  by (simp add: UnderlayRouter_route_def ur_route_each_list)

text \<open>
  C19. Outbound overlay routing.  For every batch of packets and every order in which the hash map
  of destinations is visited, routing never panics; a peer's queue and a transport's loopback
  queue hold exactly the packets whose destination has its longest covering route there, packets
  to one destination stay in order, and packets without an address, a route or with a drop route
  are in no queue.
\<close>

theorem outbound_routing:
  assumes "ipnet_ok N" and "tbl_ok N (or_out_table r)" and "distinct order" and "set order = dom (by_dest packets)"
  shows "\<exists>ret. OutRouter_route N order packets r = Some ret \<and>
    (\<forall>peer. queue_for N (or_out_table r) (OutWireguard peer) packets (entry_list (to_wireguard ret) peer)) \<and>
    (\<forall>i. queue_for N (or_out_table r) (OutLoopback i) packets (entry_list (loopback ret) i))"
  using OutRouter_route_spec [OF assms] by metis

text \<open>A table with the route \<open>10.0.0.0/8\<close>, and packets with only a destination.\<close>

lemma ten_table:
  fixes v :: 'v
  shows "\<exists>t. tbl_ok plain_ipnet t \<and> (\<forall>b c d. hop_of plain_ipnet t (V4 [10, b, c, d]) = Some v) \<and>
    (\<forall>a b c d. a \<noteq> 10 \<longrightarrow> hop_of plain_ipnet t (V4 [a, b, c, d]) = None)"
proof -
  let ?p = "plain_of (V4 [10, 0, 0, 0]) 8"
  have "net_key plain_ipnet ?p = (True, byte_bits 10)"
    using ten_slash [of 8 0 0 0] by (simp add: net_key_def net_bits_def ip_bits_def ip_octets_def is_ipv4_def)
  then obtain t where t: "tbl_ok plain_ipnet t" "tbl_routes plain_ipnet t = [(True, byte_bits 10) \<mapsto> v]"
    using tbl_insert_spec [OF plain_ipnet_ok tbl_ok_EMPTY(1), of ?p v] by (auto simp: tbl_ok_EMPTY(2))
  have bits: "is_ipv4 (V4 [a, b, c, d])" "ip_bits (V4 [a, b, c, d]) = byte_bits a @ byte_bits b @ byte_bits c @ byte_bits d" for a b c d
    by (simp_all add: is_ipv4_def ip_bits_def ip_octets_def)
  have "is_lpm (\<lambda>bs. tbl_routes plain_ipnet t (True, bs)) (ip_bits (V4 [10, b, c, d])) (Some v)" for b c d
    unfolding is_lpm_def bits t(2) by (auto split: if_splits intro!: exI [of _ "byte_bits 10"])
  moreover have "is_lpm (\<lambda>bs. tbl_routes plain_ipnet t (True, bs)) (ip_bits (V4 [a, b, c, d])) None" if "a \<noteq> 10" for a b c d
    using that unfolding is_lpm_def bits t(2) by (auto simp: prefix_def byte_bits_inject)
  ultimately show ?thesis using t(1) bits(1) by (intro exI [of _ t]) (simp add: hop_of_def best_matchI)
qed

definition sample_packet :: "bytes \<Rightarrow> bytes" where
  "sample_packet dst = 0x45 # replicate 15 0 @ dst"

lemma sample_packet_dst: "length dst = 4 \<Longrightarrow> get_dst_addr (sample_packet dst) = Some (V4 dst)"
proof -
  have "drop_bit 4 (0x45 :: u8) = 4" by code_simp
  then show "get_dst_addr (sample_packet dst) = Some (V4 dst)" if "length dst = 4"
    using that by (simp add: get_dst_addr_def get_ip_family_def sample_packet_def ipv4_at_def field_def)
qed

theorem outbound_routing_witness:
  "\<exists>(r :: plain_net OutRouter) ret.
     OutRouter_route plain_ipnet [V4 [8, 8, 8, 8], V4 [10, 1, 2, 3]] [sample_packet [10, 1, 2, 3], sample_packet [8, 8, 8, 8]] r = Some ret \<and>
     entry_list (to_wireguard ret) 7 = [sample_packet [10, 1, 2, 3]]"
proof -
  let ?a = "sample_packet [10, 1, 2, 3]" and ?b = "sample_packet [8, 8, 8, 8]"
  have dst: "get_dst_addr ?a = Some (V4 [10, 1, 2, 3])" "get_dst_addr ?b = Some (V4 [8, 8, 8, 8])" by (simp_all add: sample_packet_dst)
  obtain t where t: "tbl_ok plain_ipnet t" "\<And>b c d. hop_of plain_ipnet t (V4 [10, b, c, d]) = Some (OutWireguard 7)"
    "\<And>a b c d. a \<noteq> 10 \<Longrightarrow> hop_of plain_ipnet t (V4 [a, b, c, d]) = None"
    using ten_table [of "OutWireguard 7"] by blast
  let ?r = "\<lparr>or_out_table = t\<rparr>"
  obtain ret where ret: "OutRouter_route plain_ipnet [V4 [8, 8, 8, 8], V4 [10, 1, 2, 3]] [?a, ?b] ?r = Some ret"
    "queue_for plain_ipnet t (OutWireguard 7) [?a, ?b] (entry_list (to_wireguard ret) 7)"
    using outbound_routing [OF plain_ipnet_ok, of ?r "[V4 [8, 8, 8, 8], V4 [10, 1, 2, 3]]" "[?a, ?b]"] t(1) dst by (auto simp: dom_by_dest)
  let ?q = "entry_list (to_wireguard ret) 7"
  have hops: "next_hop plain_ipnet t ?a = Some (OutWireguard 7)" "next_hop plain_ipnet t ?b = None" using t(2,3) dst by (simp_all add: next_hop_def)
  have "set ?q = {?a}" using ret(2) hops unfolding queue_for_def by auto
  then have "filter (\<lambda>p. get_dst_addr p = Some (V4 [10, 1, 2, 3])) ?q = ?q" using dst by (simp add: filter_id_conv)
  moreover have "filter (\<lambda>p. get_dst_addr p = Some (V4 [10, 1, 2, 3])) ?q = [?a]" using ret(2) hops dst unfolding queue_for_def by simp
  ultimately show ?thesis using ret(1) by auto
qed

end
