(* ===== verification/Packet_Filter.thy ===== *)
theory Packet_Filter
  imports Bart_Net
begin

text \<open>
  Packet filters (\<open>ts_packetfilter/src\<close>): rules and their reference evaluation, the filters that
  store rule sets in a map, and the update of a stored filter from the control server.  A
  \<open>dyn FilterStorage\<close> is a record of its operations, which may panic; the order in which a map of
  rule sets is iterated is an argument.
\<close>

section \<open>Rules\<close>

type_synonym IpProto = u64

definition IpProto_ICMP :: IpProto where "IpProto_ICMP = 1"
definition IpProto_ICMPV6 :: IpProto where "IpProto_ICMPV6 = 58"
definition IpProto_TCP :: IpProto where "IpProto_TCP = 6"
definition IpProto_UDP :: IpProto where "IpProto_UDP = 17"

record PacketInfo =
  pk_src :: IpAddr
  pk_dst :: IpAddr
  pk_ip_proto :: IpProto
  pk_port :: u16

record 'n SrcMatch =
  sm_pfxs :: "'n list"
  sm_caps :: "string list"

record 'n DstMatch =
  dm_ports :: "u16 \<times> u16"
  dm_ips :: "'n list"

record 'n Rule =
  rl_src :: "'n SrcMatch"
  rl_protos :: "IpProto list"
  rl_dst :: "'n DstMatch list"

type_synonym 'n Ruleset = "'n Rule list"

definition DstMatch_matches :: "'n ipnet \<Rightarrow> 'n DstMatch \<Rightarrow> PacketInfo \<Rightarrow> bool" where
  "DstMatch_matches N d info \<longleftrightarrow>
     (fst (dm_ports d) \<le> pk_port info \<and> pk_port info \<le> snd (dm_ports d)) \<and>
     list_ex (\<lambda>pfx. net_contains N pfx (pk_dst info)) (dm_ips d)"

definition SrcMatch_matches :: "'n ipnet \<Rightarrow> 'n SrcMatch \<Rightarrow> PacketInfo \<Rightarrow> string list \<Rightarrow> bool" where
  "SrcMatch_matches N s info caps \<longleftrightarrow>
     list_ex (\<lambda>pfx. net_contains N pfx (pk_src info)) (sm_pfxs s) \<or>
     list_ex (\<lambda>cap. list_ex (\<lambda>c. c = cap) (sm_caps s)) caps"

definition Rule_matches :: "'n ipnet \<Rightarrow> 'n Rule \<Rightarrow> PacketInfo \<Rightarrow> string list \<Rightarrow> bool" where
  "Rule_matches N r info caps \<longleftrightarrow>
     List.member (rl_protos r) (pk_ip_proto info) \<and> SrcMatch_matches N (rl_src r) info caps \<and>
     list_ex (\<lambda>d. DstMatch_matches N d info) (rl_dst r)"

section \<open>Filters\<close>

text \<open>A filter as the trait \<open>Filter\<close> has it: the name of a rule set that matches, or a verdict.\<close>

type_synonym filter_fn = "PacketInfo \<Rightarrow> string list \<Rightarrow> bool option"

definition DropAllFilter :: "PacketInfo \<Rightarrow> string list \<Rightarrow> string option" where
  "DropAllFilter info caps = None"

type_synonym 'n MapFilter = "string \<rightharpoonup> 'n Ruleset"

definition map_insert :: "string \<Rightarrow> 'n Ruleset \<Rightarrow> 'n MapFilter \<Rightarrow> 'n MapFilter" where
  "map_insert name ruleset m = m(name \<mapsto> ruleset)"

definition map_remove :: "string \<Rightarrow> 'n MapFilter \<Rightarrow> 'n MapFilter" where
  "map_remove name m = m(name := None)"

definition map_clear :: "'n MapFilter \<Rightarrow> 'n MapFilter" where
  "map_clear m = Map.empty"

fun map_match_for :: "'n ipnet \<Rightarrow> string list \<Rightarrow> 'n MapFilter \<Rightarrow> PacketInfo \<Rightarrow> string list \<Rightarrow> string option" where
  "map_match_for N [] m info caps = None"
| "map_match_for N (name # order) m info caps =
     (case m name of
        Some rules \<Rightarrow> if list_ex (\<lambda>rule. Rule_matches N rule info caps) rules then Some name else map_match_for N order m info caps
      | None \<Rightarrow> map_match_for N order m info caps)"

definition map_matches :: "'n ipnet \<Rightarrow> string list \<Rightarrow> 'n MapFilter \<Rightarrow> PacketInfo \<Rightarrow> string list \<Rightarrow> bool" where
  "map_matches N order m info caps \<longleftrightarrow> map_match_for N order m info caps \<noteq> None"

section \<open>Updates of a stored filter\<close>

record ('n, 's) FilterStorage =
  fs_insert :: "string \<Rightarrow> 'n Ruleset \<Rightarrow> 's \<Rightarrow> 's option"
  fs_remove :: "string \<Rightarrow> 's \<Rightarrow> 's option"
  fs_clear :: "'s \<Rightarrow> 's"

definition DEFAULT_RULESET_NAME :: string where "DEFAULT_RULESET_NAME = ''base''"

definition CLEAR_MAP_KEY :: string where "CLEAR_MAP_KEY = ''*''"

fun apply_filters ::
  "('n, 's) FilterStorage \<Rightarrow> (string \<times> 'n Ruleset option) list \<Rightarrow> 's \<Rightarrow> 's option" where
  "apply_filters S [] st = Some st"
| "apply_filters S ((ruleset_name, ruleset) # rest) st =
     do {
       st' \<leftarrow> (case ruleset of
           None \<Rightarrow> fs_remove S ruleset_name st
         | Some rules \<Rightarrow> if rules = [] then fs_remove S ruleset_name st else fs_insert S ruleset_name rules st);
       apply_filters S rest st'
     }"

definition apply_update ::
  "('n, 's) FilterStorage \<Rightarrow> 'n Ruleset option \<Rightarrow> bool \<Rightarrow> (string \<times> 'n Ruleset option) list \<Rightarrow> 's \<Rightarrow> 's option" where
  "apply_update S packet_filter clear_storage packet_filters st =
     do {
       st' \<leftarrow> (if clear_storage then Some (fs_clear S st)
               else case packet_filter of
                 Some ruleset \<Rightarrow> fs_insert S DEFAULT_RULESET_NAME ruleset st
               | None \<Rightarrow> Some st);
       apply_filters S (filter (\<lambda>(k, v). \<not> (k = CLEAR_MAP_KEY \<and> v = None)) packet_filters) st'
     }"

definition map_storage :: "('n, 'n MapFilter) FilterStorage" where
  "map_storage = \<lparr>fs_insert = (\<lambda>name rs m. Some (map_insert name rs m)), fs_remove = (\<lambda>name m. Some (map_remove name m)),
     fs_clear = map_clear\<rparr>"

section \<open>The rules a filter stores\<close>

text \<open>A packet is permitted when one stored rule matches it: filters only grant, never deny.\<close>

definition permitted :: "'n ipnet \<Rightarrow> 'n MapFilter \<Rightarrow> PacketInfo \<Rightarrow> string list \<Rightarrow> bool" where
  "permitted N m info caps \<longleftrightarrow> (\<exists>name rules rule. m name = Some rules \<and> rule \<in> set rules \<and> Rule_matches N rule info caps)"

lemma map_match_for_spec:
  "case map_match_for N order m info caps of
     Some name \<Rightarrow> name \<in> set order \<and> (\<exists>rules rule. m name = Some rules \<and> rule \<in> set rules \<and> Rule_matches N rule info caps)
   | None \<Rightarrow> \<forall>name rules rule. name \<in> set order \<longrightarrow> m name = Some rules \<longrightarrow> rule \<in> set rules \<longrightarrow> \<not> Rule_matches N rule info caps"
  by (induction order) (auto simp: list_ex_iff split: option.splits)

lemma map_matches_permitted: "set order = dom m \<Longrightarrow> map_matches N order m info caps \<longleftrightarrow> permitted N m info caps"
  using map_match_for_spec [where N = N and order = order and m = m and info = info and caps = caps]
  by (fastforce simp: map_matches_def permitted_def domI split: option.splits)

text \<open>What a filter update does to the stored rule sets.\<close>

fun filter_entry :: "string \<times> 'n Ruleset option \<Rightarrow> 'n MapFilter \<Rightarrow> 'n MapFilter" where
  "filter_entry (name, rs) m = (if name = CLEAR_MAP_KEY \<and> rs = None then m else m(name := (if rs = Some [] then None else rs)))"

definition updated_rules :: "'n Ruleset option \<Rightarrow> bool \<Rightarrow> (string \<times> 'n Ruleset option) list \<Rightarrow> 'n MapFilter \<Rightarrow> 'n MapFilter" where
  "updated_rules packet_filter clear_storage packet_filters m =
     fold filter_entry packet_filters
       (if clear_storage then Map.empty else case packet_filter of Some rs \<Rightarrow> m(DEFAULT_RULESET_NAME \<mapsto> rs) | None \<Rightarrow> m)"

text \<open>The contract of a filter storage: its operations act on the stored rule sets as on a map.\<close>

locale rule_storage =
  fixes S :: "('n, 's) FilterStorage" and inv :: "'s \<Rightarrow> bool" and abs :: "'s \<Rightarrow> 'n MapFilter" and usable :: "'n Ruleset \<Rightarrow> bool"
  assumes insert_law: "inv s \<Longrightarrow> usable rs \<Longrightarrow> \<exists>s'. fs_insert S name rs s = Some s' \<and> inv s' \<and> abs s' = (abs s)(name \<mapsto> rs)"
    and remove_law: "inv s \<Longrightarrow> \<exists>s'. fs_remove S name s = Some s' \<and> inv s' \<and> abs s' = (abs s)(name := None)"
    and clear_law: "inv s \<Longrightarrow> inv (fs_clear S s)" "inv s \<Longrightarrow> abs (fs_clear S s) = Map.empty"
begin

lemma apply_filters_law:
  assumes "inv s" and "\<And>name rs. (name, Some rs) \<in> set fs \<Longrightarrow> usable rs"
  shows "\<exists>s'. apply_filters S (filter (\<lambda>(k, v). \<not> (k = CLEAR_MAP_KEY \<and> v = None)) fs) s = Some s' \<and> inv s' \<and>
    abs s' = fold filter_entry fs (abs s)"
  using assms
proof (induction fs arbitrary: s)
  case (Cons f fs)
  obtain name rs where f: "f = (name, rs)" by fastforce
  note usable = Cons.prems(2)
  have IH: "\<exists>s''. apply_filters S (filter (\<lambda>(k, v). \<not> (k = CLEAR_MAP_KEY \<and> v = None)) fs) s' = Some s'' \<and> inv s'' \<and>
      abs s'' = fold filter_entry fs (abs s')" if "inv s'" for s' using Cons.IH [OF that] usable by fastforce
  show ?case
  proof (cases "rs = None \<or> rs = Some []")
    case True
    obtain s' where "fs_remove S name s = Some s'" "inv s'" "abs s' = (abs s)(name := None)" using remove_law [OF Cons.prems(1)] by blast
    with True f IH [of s'] IH [OF Cons.prems(1)] show ?thesis by auto
  next
    case False
    then obtain r where r: "rs = Some r" "r \<noteq> []" by auto
    obtain s' where "fs_insert S name r s = Some s'" "inv s'" "abs s' = (abs s)(name \<mapsto> r)"
      using insert_law [OF Cons.prems(1), of r name] usable [of name r] f r by auto
    with r f IH [of s'] show ?thesis by simp
  qed
qed simp

lemma apply_update_law:
  assumes "inv s" and "\<And>rs. pf = Some rs \<Longrightarrow> usable rs" and "\<And>name rs. (name, Some rs) \<in> set fs \<Longrightarrow> usable rs"
  shows "\<exists>s'. apply_update S pf clear fs s = Some s' \<and> inv s' \<and> abs s' = updated_rules pf clear fs (abs s)"
proof -
  obtain s1 where s1: "(if clear then Some (fs_clear S s)
      else case pf of Some ruleset \<Rightarrow> fs_insert S DEFAULT_RULESET_NAME ruleset s | None \<Rightarrow> Some s) = Some s1" "inv s1"
    "abs s1 = (if clear then Map.empty else case pf of Some rs \<Rightarrow> (abs s)(DEFAULT_RULESET_NAME \<mapsto> rs) | None \<Rightarrow> abs s)"
    using insert_law [OF assms(1)] clear_law [OF assms(1)] assms by (cases clear; cases pf) fastforce+
  show ?thesis
    using apply_filters_law [OF s1(2), of fs] assms(3) s1(3) unfolding apply_update_def s1(1) by (auto simp: updated_rules_def)
qed

end

interpretation maps: rule_storage map_storage "\<lambda>_. True" "\<lambda>m. m" "\<lambda>_. True"
  by unfold_locales (simp_all add: map_storage_def map_insert_def map_remove_def map_clear_def)

end
