(* ===== verification/Sv_Crypto.thy ===== *)
theory Sv_Crypto
  imports Prelude
begin

text \<open>
  The datagram cryptography of the ShadowVPN backend (\<open>shadowvpn/crypto.rs\<close>).  MD5, HKDF-SHA1
  and the three AEAD ciphers come from crates and are a record of functions, with their
  documented behaviour as the predicate \<open>sv_crypto_ok\<close>; the random number generator is an
  explicit state.
\<close>

section \<open>Random bytes\<close>

text \<open>
  \<open>rand::rng().fill(buf)\<close>: the \<open>i\<close>-th draw of \<open>n\<close> bytes is \<open>rng_bytes i n\<close>.
\<close>

record Rng =
  rng_bytes :: "nat \<Rightarrow> nat \<Rightarrow> bytes"
  rng_next :: nat

definition rng_fill :: "nat \<Rightarrow> Rng \<Rightarrow> bytes \<times> Rng" where
  "rng_fill n g = (rng_bytes g (rng_next g) n, g\<lparr>rng_next := Suc (rng_next g)\<rparr>)"

definition rng_ok :: "Rng \<Rightarrow> bool" where
  "rng_ok g \<longleftrightarrow> (\<forall>i n. length (rng_bytes g i n) = n)"

lemma rng_fill_ok:
  assumes "rng_ok g" and "rng_fill n g = (bs, g')"
  shows "length bs = n" and "rng_ok g'"
  using assms by (auto simp: rng_ok_def rng_fill_def)

definition sample_rng :: Rng where
  "sample_rng = \<lparr>rng_bytes = (\<lambda>i n. replicate n (of_nat i)), rng_next = 0\<rparr>"

lemma sample_rng_ok: "rng_ok sample_rng"
  by (simp add: rng_ok_def sample_rng_def)

section \<open>Ciphers and errors\<close>

definition NONCE_LEN :: nat where "NONCE_LEN = 12"
definition TAG_LEN :: nat where "TAG_LEN = 16"
definition SS_SUBKEY_INFO :: bytes where "SS_SUBKEY_INFO = map of_char ''ss-subkey''"

datatype CryptoError =
    UnknownCipher string
  | TooShort nat nat
  | HkdfError
  | AeadError

datatype Cipher = Aes128Gcm | Aes256Gcm | ChaCha20Poly1305

definition Cipher_from_name :: "string \<Rightarrow> CryptoError + Cipher" where
  "Cipher_from_name name =
     (if name = ''aes-128-gcm'' then Inr Aes128Gcm
      else if name = ''aes-256-gcm'' then Inr Aes256Gcm
      else if name = ''chacha20-poly1305'' \<or> name = ''chacha20-ietf-poly1305'' then Inr ChaCha20Poly1305
      else Inl (UnknownCipher name))"

fun Cipher_name :: "Cipher \<Rightarrow> string" where
  "Cipher_name Aes128Gcm = ''aes-128-gcm''"
| "Cipher_name Aes256Gcm = ''aes-256-gcm''"
| "Cipher_name ChaCha20Poly1305 = ''chacha20-poly1305''"

fun key_len :: "Cipher \<Rightarrow> nat" where
  "key_len Aes128Gcm = 16"
| "key_len Aes256Gcm = 32"
| "key_len ChaCha20Poly1305 = 32"

definition salt_len :: "Cipher \<Rightarrow> nat" where
  "salt_len c = key_len c"

lemma Cipher_from_name_name: "Cipher_from_name (Cipher_name c) = Inr c"
  by (cases c) (simp_all add: Cipher_from_name_def)

lemma key_len_bounds: "0 < key_len c" "key_len c \<le> 32"
  by (cases c; simp)+

section \<open>The primitives\<close>

text \<open>
  \<open>hkdf_sha1 salt ikm info n\<close> expands to \<open>n\<close> bytes or fails; \<open>aead_seal\<close> and \<open>aead_open\<close> are
  the detached AEAD operations of the crate selected by the cipher (key, nonce, associated data,
  buffer), which fail on oversized buffers and on tags that do not verify.
\<close>

record sv_crypto =
  md5 :: "bytes \<Rightarrow> bytes"
  hkdf_sha1 :: "bytes \<Rightarrow> bytes \<Rightarrow> bytes \<Rightarrow> nat \<Rightarrow> bytes option"
  aead_seal :: "Cipher \<Rightarrow> bytes \<Rightarrow> bytes \<Rightarrow> bytes \<Rightarrow> bytes \<Rightarrow> (bytes \<times> bytes) option"
  aead_open :: "Cipher \<Rightarrow> bytes \<Rightarrow> bytes \<Rightarrow> bytes \<Rightarrow> bytes \<Rightarrow> bytes \<Rightarrow> bytes option"

text \<open>
  MD5 digests have 16 bytes.  HKDF-SHA1 can be asked for up to 255 digests of 20 bytes.  The
  ciphers accept buffers below \<open>2^36\<close> bytes, keep their length, produce 16-byte tags and open
  what they sealed.
\<close>

definition sv_crypto_ok :: "sv_crypto \<Rightarrow> bool" where
  "sv_crypto_ok S \<longleftrightarrow>
     (\<forall>bs. length (md5 S bs) = 16) \<and>
     (\<forall>salt ikm info n. n \<le> 255 * 20 \<longrightarrow> (\<exists>k. hkdf_sha1 S salt ikm info n = Some k \<and> length k = n)) \<and>
     (\<forall>c k nonce ad p. length p < 2 ^ 36 \<longrightarrow>
        (\<exists>ct tag. aead_seal S c k nonce ad p = Some (ct, tag) \<and> length ct = length p \<and>
           length tag = 16 \<and> aead_open S c k nonce ad ct tag = Some p))"

lemma sv_crypto_okD:
  assumes "sv_crypto_ok S"
  shows "length (md5 S bs) = 16"
    and "n \<le> 255 * 20 \<Longrightarrow> \<exists>k. hkdf_sha1 S salt ikm info n = Some k \<and> length k = n"
    and "length p < 2 ^ 36 \<Longrightarrow> \<exists>ct tag. aead_seal S c k nonce ad p = Some (ct, tag) \<and>
      length ct = length p \<and> length tag = 16 \<and> aead_open S c k nonce ad ct tag = Some p"
  using assms unfolding sv_crypto_ok_def by blast+

section \<open>The master key of a password\<close>

text \<open>
  The \<open>while\<close> loop of \<open>evp_bytes_to_key\<close>: it ends only because digests are not empty, so the
  model returns \<open>None\<close> when it does not end.
\<close>

partial_function (option) evp_loop :: "(bytes \<Rightarrow> bytes) \<Rightarrow> bytes \<Rightarrow> nat \<Rightarrow> bytes \<Rightarrow> bytes \<Rightarrow> bytes option" where
  "evp_loop md password n key prev =
     (if length key < n then
        let prev' = md (prev @ password) in evp_loop md password n (key @ prev') prev'
      else Some key)"

definition evp_bytes_to_key :: "sv_crypto \<Rightarrow> bytes \<Rightarrow> nat \<Rightarrow> bytes option" where
  "evp_bytes_to_key S password n = map_option (take n) (evp_loop (md5 S) password n [] [])"

text \<open>The documented digests \<open>d\<^sub>0 = MD5(password)\<close>, \<open>d\<^sub>i = MD5(d\<^sub>i\<^sub>-\<^sub>1 ++ password)\<close>.\<close>

fun evp_digest :: "(bytes \<Rightarrow> bytes) \<Rightarrow> bytes \<Rightarrow> nat \<Rightarrow> bytes" where
  "evp_digest md password 0 = md password"
| "evp_digest md password (Suc i) = md (evp_digest md password i @ password)"

lemma length_evp_digests:
  assumes "\<And>bs. length (md bs) = 16"
  shows "length (concat (map (evp_digest md pw) [0..<i])) = 16 * i"
proof -
  have "length (evp_digest md pw k) = 16" for k using assms by (cases k) simp_all
  then show ?thesis by (induction i) simp_all
qed

lemma evp_loop_stop: "\<not> length key < n \<Longrightarrow> evp_loop md pw n key prev = Some key"
  by (subst evp_loop.simps) simp

lemma evp_loop_step:
  "length key < n \<Longrightarrow> evp_loop md pw n key prev = evp_loop md pw n (key @ md (prev @ pw)) (md (prev @ pw))"
  by (subst evp_loop.simps) (simp add: Let_def)

lemma evp_loop_result:
  assumes md: "\<And>bs. length (md bs) = 16"
    and "key = concat (map (evp_digest md pw) [0..<i])"
    and "prev = (if i = 0 then [] else evp_digest md pw (i - 1))" and "i \<le> m" and "n \<le> 16 * m"
  shows "\<exists>j\<le>m. n \<le> 16 * j \<and> evp_loop md pw n key prev = Some (concat (map (evp_digest md pw) [0..<j]))"
  using assms(2-4)
proof (induction "m - i" arbitrary: i key prev)
  case (0 i key prev)
  then have "i = m" by simp
  moreover have "\<not> length key < n" using assms(5) length_evp_digests [of md pw i, OF md] 0 \<open>i = m\<close> by simp
  ultimately show ?case using 0 assms(5) by (intro exI [of _ m]) (simp add: evp_loop_stop)
next
  case (Suc d i key prev)
  show ?case
  proof (cases "length key < n")
    case True
    have dig: "md (prev @ pw) = evp_digest md pw i" using Suc.prems(2) by (cases i) simp_all
    have "d = m - Suc i" "key @ evp_digest md pw i = concat (map (evp_digest md pw) [0..<Suc i])"
      "evp_digest md pw i = (if Suc i = 0 then [] else evp_digest md pw (Suc i - 1))" "Suc i \<le> m"
      using Suc by simp_all
    from Suc.hyps(1) [OF this] show ?thesis by (simp add: evp_loop_step [OF True] dig)
  next
    case False
    with length_evp_digests [of md pw i, OF md] Suc.prems show ?thesis
      by (intro exI [of _ i]) (simp add: evp_loop_stop)
  qed
qed

text \<open>
  C30. Deriving a master key always ends, with the first \<open>n\<close> bytes of the documented chain of
  digests.
\<close>

theorem evp_bytes_to_key_terminates:
  assumes "sv_crypto_ok S" and "n \<le> 16 * m"
  shows "evp_bytes_to_key S password n = Some (take n (concat (map (evp_digest (md5 S) password) [0..<m])))"
proof -
  let ?d = "evp_digest (md5 S) password"
  have md: "\<And>bs. length (md5 S bs) = 16" by (rule sv_crypto_okD(1) [OF assms(1)])
  obtain j where j: "j \<le> m" "n \<le> 16 * j"
    and loop: "evp_loop (md5 S) password n [] [] = Some (concat (map ?d [0..<j]))"
    using evp_loop_result [where md = "md5 S" and i = 0 and key = "[]" and prev = "[]" and m = m and n = n, OF md] assms(2)
    by auto
  have "length (concat (map ?d [0..<j])) = 16 * j" by (rule length_evp_digests) (rule md)
  moreover have "[0..<m] = [0..<j] @ [j..<m]" using j(1) by (metis le0 le_add_diff_inverse upt_add_eq_append)
  ultimately show ?thesis using j(2) by (simp add: evp_bytes_to_key_def loop)
qed

section \<open>Datagrams\<close>

definition derive_subkey :: "sv_crypto \<Rightarrow> bytes \<Rightarrow> bytes \<Rightarrow> nat \<Rightarrow> CryptoError + bytes" where
  "derive_subkey S master_key salt n =
     (case hkdf_sha1 S salt master_key SS_SUBKEY_INFO n of None \<Rightarrow> Inl HkdfError | Some k \<Rightarrow> Inr k)"

text \<open>\<open>new_from_slice\<close> refuses a key that does not have the cipher's length.\<close>

definition aead_seal_in_place :: "sv_crypto \<Rightarrow> Cipher \<Rightarrow> bytes \<Rightarrow> bytes \<Rightarrow> CryptoError + bytes \<times> bytes" where
  "aead_seal_in_place S c subkey buf =
     (if length subkey \<noteq> key_len c then Inl AeadError
      else case aead_seal S c subkey (replicate NONCE_LEN 0) [] buf of
             None \<Rightarrow> Inl AeadError
           | Some sealed \<Rightarrow> Inr sealed)"

definition aead_open_in_place :: "sv_crypto \<Rightarrow> Cipher \<Rightarrow> bytes \<Rightarrow> bytes \<Rightarrow> bytes \<Rightarrow> CryptoError + bytes" where
  "aead_open_in_place S c subkey buf tag =
     (if length subkey \<noteq> key_len c then Inl AeadError
      else case aead_open S c subkey (replicate NONCE_LEN 0) [] buf tag of
             None \<Rightarrow> Inl AeadError
           | Some p \<Rightarrow> Inr p)"

definition encrypt_packet :: "sv_crypto \<Rightarrow> Cipher \<Rightarrow> bytes \<Rightarrow> bytes \<Rightarrow> Rng \<Rightarrow> (CryptoError + bytes) \<times> Rng" where
  "encrypt_packet S c master_key plaintext g =
     (let (salt, g') = rng_fill (salt_len c) g
      in (bind_res (derive_subkey S master_key salt (key_len c)) (\<lambda>subkey.
          bind_res (aead_seal_in_place S c subkey plaintext) (\<lambda>(ct, tag).
            Inr (salt @ ct @ tag))), g'))"

definition decrypt_packet :: "sv_crypto \<Rightarrow> Cipher \<Rightarrow> bytes \<Rightarrow> bytes \<Rightarrow> CryptoError + bytes" where
  "decrypt_packet S c master_key datagram =
     (let need = salt_len c + TAG_LEN
      in if length datagram < need then Inl (TooShort (length datagram) need)
         else
           let salt = take (salt_len c) datagram;
               rest = drop (salt_len c) datagram;
               n = length rest - TAG_LEN
           in bind_res (derive_subkey S master_key salt (key_len c)) (\<lambda>subkey.
              aead_open_in_place S c subkey (take n rest) (drop n rest)))"

lemma derive_subkey_total:
  assumes "sv_crypto_ok S"
  obtains k where "derive_subkey S master_key salt (key_len c) = Inr k" "length k = key_len c"
  using sv_crypto_okD(2) [OF assms, of "key_len c" salt master_key SS_SUBKEY_INFO] key_len_bounds(2) [of c]
  by (auto simp: derive_subkey_def)

text \<open>What is sealed opens again, and a datagram adds a salt and a tag.\<close>

lemma encrypt_packet_total:
  assumes "sv_crypto_ok S" and "rng_ok g" and "length p < 2 ^ 36"
  obtains d g' where "encrypt_packet S c key p g = (Inr d, g')" and "rng_ok g'"
    and "length d = salt_len c + length p + TAG_LEN" and "decrypt_packet S c key d = Inr p"
proof -
  obtain salt g' where fill: "rng_fill (salt_len c) g = (salt, g')" by (cases "rng_fill (salt_len c) g")
  note salt = rng_fill_ok [OF assms(2) fill]
  obtain k where k: "derive_subkey S key salt (key_len c) = Inr k" "length k = key_len c"
    using derive_subkey_total [OF assms(1)] .
  obtain ct tag where seal: "aead_seal S c k (replicate NONCE_LEN 0) [] p = Some (ct, tag)"
    "length ct = length p" "length tag = TAG_LEN" "aead_open S c k (replicate NONCE_LEN 0) [] ct tag = Some p"
    using sv_crypto_okD(3) [OF assms(1,3), of c k "replicate NONCE_LEN 0" "[]"] by (auto simp: TAG_LEN_def)
  show thesis
  proof (rule that [of "salt @ ct @ tag" g'])
    show "encrypt_packet S c key p g = (Inr (salt @ ct @ tag), g')"
      by (simp add: encrypt_packet_def fill k aead_seal_in_place_def seal)
    show "decrypt_packet S c key (salt @ ct @ tag) = Inr p"
      by (simp add: decrypt_packet_def Let_def salt seal k aead_open_in_place_def)
  qed (simp_all add: salt seal)
qed

lemma decrypt_too_short:
  assumes "sv_crypto_ok S"
  shows "(\<exists>got need. decrypt_packet S c key d = Inl (TooShort got need)) \<longleftrightarrow> length d < salt_len c + TAG_LEN"
proof -
  obtain k where "derive_subkey S key (take (salt_len c) d) (key_len c) = Inr k"
    using derive_subkey_total [OF assms] by metis
  then show ?thesis by (auto simp: decrypt_packet_def Let_def aead_open_in_place_def split: option.splits)
qed

section \<open>A concrete instance\<close>

text \<open>A keyed toy cipher: the tag is the key's first 16 bytes, so it opens only under that key.\<close>

definition sample_sv_crypto :: sv_crypto where
  "sample_sv_crypto =
     \<lparr>md5 = (\<lambda>bs. replicate 16 (foldl (\<lambda>acc b. acc * 31 + b + 1) 7 bs)),
      hkdf_sha1 = (\<lambda>salt ikm info n. if n \<le> 255 * 20 then Some (take n (ikm @ replicate n 0)) else None),
      aead_seal = (\<lambda>c k nonce ad p. if length p < 2 ^ 36 then Some (p, take 16 (k @ replicate 16 0)) else None),
      aead_open = (\<lambda>c k nonce ad ct tag. if tag = take 16 (k @ replicate 16 0) then Some ct else None)\<rparr>"

lemma sample_sv_crypto_ok: "sv_crypto_ok sample_sv_crypto"
  by (auto simp: sv_crypto_ok_def sample_sv_crypto_def)

theorem evp_bytes_to_key_terminates_witness:
  "evp_bytes_to_key sample_sv_crypto [1, 2] 20 =
     Some (take 20 (concat (map (evp_digest (md5 sample_sv_crypto) [1, 2]) [0..<2])))"
  by (rule evp_bytes_to_key_terminates [OF sample_sv_crypto_ok]) simp

end
