(* ===== verification/Sv_Obfs.thy ===== *)
theory Sv_Obfs
  imports Sv_Crypto
begin

text \<open>
  Carrier obfuscation (\<open>shadowvpn/obfs.rs\<close>): QUIC short-header framing, base64 and none.  The
  atomic packet counter of \<open>QuicObfs\<close> is state that \<open>wrap\<close> returns updated.
\<close>

section \<open>QUIC short headers\<close>

definition DEFAULT_DCID_LEN :: nat where "DEFAULT_DCID_LEN = 8"
definition PN_LEN :: nat where "PN_LEN = 2"

record QuicObfs =
  qo_dcid :: bytes
  qo_dcid_len :: nat
  qo_pn :: u32

definition QuicObfs_new :: "nat \<Rightarrow> Rng \<Rightarrow> QuicObfs \<times> Rng" where
  "QuicObfs_new dcid_len g =
     (let (dcid, g1) = rng_fill dcid_len g;
          (seed, g2) = rng_fill 4 g1
      in (\<lparr>qo_dcid = dcid, qo_dcid_len = dcid_len, qo_pn = of_be seed\<rparr>, g2))"

definition quic_first :: "u8 \<Rightarrow> u8" where
  "quic_first rnd = 0x40 OR (rnd AND 0x3C) OR ((of_nat PN_LEN - 1) AND 0x03)"

definition quic_wrap :: "bytes \<Rightarrow> QuicObfs \<times> Rng \<Rightarrow> bytes \<times> QuicObfs \<times> Rng" where
  "quic_wrap datagram = (\<lambda>(q, g).
     (let pn = qo_pn q;
          (rnd, g') = rng_fill 1 g
      in (quic_first (rnd ! 0) # qo_dcid q @ drop (4 - PN_LEN) (to_be 4 pn) @ datagram,
          q\<lparr>qo_pn := pn + 1\<rparr>, g')))"

definition quic_unwrap :: "QuicObfs \<Rightarrow> bytes \<Rightarrow> bytes option" where
  "quic_unwrap q pkt =
     (case pkt of
        [] \<Rightarrow> None
      | first # _ \<Rightarrow>
          if first AND 0x80 \<noteq> 0 \<or> first AND 0x40 = 0 then None
          else
            let pn_len = unat (first AND 0x03) + 1;
                hdr = 1 + qo_dcid_len q + pn_len
            in if length pkt < hdr then None else Some (drop hdr pkt))"

definition quic_header_len :: "QuicObfs \<Rightarrow> nat" where
  "quic_header_len q = 1 + qo_dcid_len q + PN_LEN"

section \<open>Base64\<close>

definition B64 :: bytes where
  "B64 = map of_char ''ABCDEFGHIJKLMNOPQRSTUVWXYZabcdefghijklmnopqrstuvwxyz0123456789+/''"

definition B64_REV :: bytes where
  "B64_REV = foldl (\<lambda>t i. t[unat (B64 ! i) := of_nat i]) (replicate 256 0xFF) [0..<64]"

text \<open>One chunk of at most three bytes; the missing bytes count as zero.\<close>

definition b64_symbol :: "u32 \<Rightarrow> nat \<Rightarrow> u8" where
  "b64_symbol n k = B64 ! unat (drop_bit k n AND 63)"

definition b64_chunk :: "bytes \<Rightarrow> bytes" where
  "b64_chunk chunk =
     (let b1 = (if 1 < length chunk then chunk ! 1 else 0);
          b2 = (if 2 < length chunk then chunk ! 2 else 0);
          n = push_bit 16 (ucast (chunk ! 0)) OR push_bit 8 (ucast b1) OR ucast b2 :: u32
      in [b64_symbol n 18, b64_symbol n 12,
          if 1 < length chunk then b64_symbol n 6 else 0x3D,
          if 2 < length chunk then b64_symbol n 0 else 0x3D])"

fun base64_encode :: "bytes \<Rightarrow> bytes" where
  "base64_encode [] = []"
| "base64_encode (b # bs) = b64_chunk (take 3 (b # bs)) @ base64_encode (drop 2 bs)"

fun b64_decode_loop :: "u32 \<Rightarrow> nat \<Rightarrow> bytes \<Rightarrow> bytes \<Rightarrow> bytes option" where
  "b64_decode_loop buf bits out [] = Some out"
| "b64_decode_loop buf bits out (c # input) =
     (if c = 0x3D then Some out
      else let v = B64_REV ! unat c
           in if v = 0xFF then None
              else let buf' = push_bit 6 buf OR ucast v; bits' = bits + 6
                   in if 8 \<le> bits' then
                        b64_decode_loop buf' (bits' - 8) (out @ [ucast (drop_bit (bits' - 8) buf')]) input
                      else b64_decode_loop buf' bits' out input)"

definition base64_decode :: "bytes \<Rightarrow> bytes option" where
  "base64_decode input = b64_decode_loop 0 0 [] input"

text \<open>The table is the inverse of the alphabet, which avoids the padding character.\<close>

lemma length_B64: "length B64 = 64" by (simp add: B64_def)

lemma map_unat_B64: "map unat B64 = [65..<91] @ [97..<123] @ [48..<58] @ [43, 47]"
  by code_simp

lemma nth_B64_REV_upto:
  assumes "n \<le> 64" and "i < n"
  shows "foldl (\<lambda>t i. t[unat (B64 ! i) := of_nat i]) (replicate 256 (0xFF :: u8)) [0..<n] ! unat (B64 ! i) = of_nat i"
  using assms
proof (induction n)
  case (Suc n)
  let ?t = "foldl (\<lambda>t i. t[unat (B64 ! i) := of_nat i]) (replicate 256 (0xFF :: u8)) [0..<n]"
  have "distinct (map unat B64)" unfolding map_unat_B64 by simp
  then have inj: "unat (B64 ! i) = unat (B64 ! n) \<longleftrightarrow> i = n"
    using Suc.prems length_B64 by (metis (no_types) Suc_le_lessD length_map less_trans_Suc nat_neq_iff not_less_eq
        nth_eq_iff_index_eq nth_map order_less_le_trans)
  have "length (foldl (\<lambda>t i. t[unat (B64 ! i) := of_nat i]) t xs) = length t" for t :: bytes and xs
    by (induction xs arbitrary: t) simp_all
  then have "length ?t = 256" by simp
  with Suc inj unat_less_2pow [of "B64 ! n"] show ?case by (auto simp: nth_list_update)
qed simp

lemma B64_table:
  assumes "i < 64"
  shows "B64_REV ! unat (B64 ! i) = of_nat i" and "B64 ! i \<noteq> 0x3D"
proof -
  show "B64_REV ! unat (B64 ! i) = of_nat i" unfolding B64_REV_def using assms by (intro nth_B64_REV_upto) simp_all
  have "unat (B64 ! i) \<in> set (map unat B64)" using assms length_B64 by simp
  then show "B64 ! i \<noteq> 0x3D" unfolding map_unat_B64 by auto
qed

lemma b64_decode_symbol:
  "b64_decode_loop buf bits out (b64_symbol n k # input) =
     (let buf' = push_bit 6 buf OR (drop_bit k n AND 63)
      in if 2 \<le> bits then b64_decode_loop buf' (bits - 2) (out @ [ucast (drop_bit (bits - 2) buf')]) input
         else b64_decode_loop buf' (bits + 6) out input)"
proof -
  let ?v = "drop_bit k n AND 63 :: u32"
  have v: "?v = take_bit 6 (drop_bit k n)" by (simp add: take_bit_eq_mask mask_eq_exp_minus_1)
  then have less: "unat ?v < 64" by (simp add: unsigned_take_bit_eq take_bit_nat_less_exp [of 6, simplified])
  have "unat (of_nat (unat ?v) :: u8) = unat ?v" using less by (subst unat_of_nat) simp
  then have "(of_nat (unat ?v) :: u8) \<noteq> 0xFF" "(ucast (of_nat (unat ?v) :: u8) :: u32) = ?v"
    using less by (force, simp only: word_unat_eq_iff unsigned_ucast_eq) (simp add: take_bit_nat_eq_self)
  with B64_table [OF less] show ?thesis unfolding b64_symbol_def by (simp only: b64_decode_loop.simps Let_def) auto
qed

lemma b64_decode_symbols:
  "b64_decode_loop buf 0 out (b64_symbol n k # input) = b64_decode_loop (push_bit 6 buf OR (drop_bit k n AND 63)) 6 out input"
  "b64_decode_loop buf 6 out (b64_symbol n k # input) = (let buf' = push_bit 6 buf OR (drop_bit k n AND 63)
      in b64_decode_loop buf' 4 (out @ [ucast (drop_bit 4 buf')]) input)"
  "b64_decode_loop buf 4 out (b64_symbol n k # input) = (let buf' = push_bit 6 buf OR (drop_bit k n AND 63)
      in b64_decode_loop buf' 2 (out @ [ucast (drop_bit 2 buf')]) input)"
  "b64_decode_loop buf 2 out (b64_symbol n k # input) = (let buf' = push_bit 6 buf OR (drop_bit k n AND 63)
      in b64_decode_loop buf' 0 (out @ [ucast buf']) input)"
  by (simp_all add: b64_decode_symbol Let_def del: b64_decode_loop.simps)

lemma b64_decode_pad: "b64_decode_loop buf bits out (0x3D # input) = Some out"
  by simp

lemma u8_bit_high: "8 \<le> k \<Longrightarrow> \<not> bit (w :: u8) k"
  by (auto dest: bit_imp_le_length)

lemma u8_eqI: "bit a 0 = bit b 0 \<Longrightarrow> bit a 1 = bit b 1 \<Longrightarrow> bit a 2 = bit b 2 \<Longrightarrow> bit a 3 = bit b 3 \<Longrightarrow>
   bit a 4 = bit b 4 \<Longrightarrow> bit a 5 = bit b 5 \<Longrightarrow> bit a 6 = bit b 6 \<Longrightarrow> bit a 7 = bit b 7 \<Longrightarrow> a = (b :: u8)"
proof (rule bit_word_eqI)
  fix i assume "i < LENGTH(8)"
  then have "i \<in> {0, 1, 2, 3, 4, 5, 6, 7}" by auto
  moreover assume "bit a 0 = bit b 0" "bit a 1 = bit b 1" "bit a 2 = bit b 2" "bit a 3 = bit b 3"
    "bit a 4 = bit b 4" "bit a 5 = bit b 5" "bit a 6 = bit b 6" "bit a 7 = bit b 7"
  ultimately show "bit a i = bit b i" by (elim insertE) (simp_all only: empty_iff)
qed

lemma b64_bytes:
  fixes x y z :: u8 and buf n :: u32
  defines "n \<equiv> push_bit 16 (ucast x) OR push_bit 8 (ucast y) OR ucast z"
  shows "ucast (drop_bit 4 (push_bit 6 (push_bit 6 buf OR (drop_bit 18 n AND 63)) OR (drop_bit 12 n AND 63))) = x"
    and "ucast (drop_bit 2 (push_bit 6 (push_bit 6 (push_bit 6 buf OR (drop_bit 18 n AND 63)) OR
      (drop_bit 12 n AND 63)) OR (drop_bit 6 n AND 63))) = y"
    and "ucast (push_bit 6 (push_bit 6 (push_bit 6 (push_bit 6 buf OR (drop_bit 18 n AND 63)) OR
      (drop_bit 12 n AND 63)) OR (drop_bit 6 n AND 63)) OR (drop_bit 0 n AND 63)) = z"
proof -
  have v: "drop_bit k n AND 63 = take_bit 6 (drop_bit k n)" for k
    by (simp add: take_bit_eq_mask mask_eq_exp_minus_1)
  note bits = n_def bit_simps u8_bit_high
  show "ucast (drop_bit 4 (push_bit 6 (push_bit 6 buf OR (drop_bit 18 n AND 63)) OR (drop_bit 12 n AND 63))) = x"
    unfolding v by (rule u8_eqI) (simp_all add: bits)
  show "ucast (drop_bit 2 (push_bit 6 (push_bit 6 (push_bit 6 buf OR (drop_bit 18 n AND 63)) OR
      (drop_bit 12 n AND 63)) OR (drop_bit 6 n AND 63))) = y"
    unfolding v by (rule u8_eqI) (simp_all add: bits)
  show "ucast (push_bit 6 (push_bit 6 (push_bit 6 (push_bit 6 buf OR (drop_bit 18 n AND 63)) OR
      (drop_bit 12 n AND 63)) OR (drop_bit 6 n AND 63)) OR (drop_bit 0 n AND 63)) = z"
    unfolding v by (rule u8_eqI) (simp_all add: bits)
qed

lemma b64_chunk_cases:
  "b64_chunk [x] = (let n = push_bit 16 (ucast x) OR push_bit 8 (ucast (0 :: u8)) OR ucast (0 :: u8)
     in [b64_symbol n 18, b64_symbol n 12, 0x3D, 0x3D])"
  "b64_chunk [x, y] = (let n = push_bit 16 (ucast x) OR push_bit 8 (ucast y) OR ucast (0 :: u8)
     in [b64_symbol n 18, b64_symbol n 12, b64_symbol n 6, 0x3D])"
  "b64_chunk [x, y, z] = (let n = push_bit 16 (ucast x) OR push_bit 8 (ucast y) OR ucast z
     in [b64_symbol n 18, b64_symbol n 12, b64_symbol n 6, b64_symbol n 0])"
  by (simp_all add: b64_chunk_def)

lemmas b64_eval = b64_chunk_cases Let_def append_Cons append_Nil append_assoc b64_decode_symbols b64_decode_pad b64_bytes

lemma b64_decode_chunk:
  "\<exists>buf'. b64_decode_loop buf 0 out (b64_chunk [x, y, z] @ input) = b64_decode_loop buf' 0 (out @ [x, y, z]) input"
  by (simp only: b64_eval) blast

lemma b64_decode_short_chunk:
  "b64_decode_loop buf 0 out (b64_chunk [x] @ input) = Some (out @ [x])"
  "b64_decode_loop buf 0 out (b64_chunk [x, y] @ input) = Some (out @ [x, y])"
  by (simp_all only: b64_eval)

lemma b64_decode_encode:
  "\<exists>buf'. b64_decode_loop buf 0 out (base64_encode bs @ input) =
     (if 3 dvd length bs then b64_decode_loop buf' 0 (out @ bs) input else Some (out @ bs))"
proof (induction bs arbitrary: buf out rule: base64_encode.induct)
  case (2 b bs)
  consider "bs = []" | y where "bs = [y]" | y z zs where "bs = y # z # zs"
    by (cases bs; cases "tl bs") auto
  then show ?case
  proof cases
    case 3
    obtain buf1 where "b64_decode_loop buf 0 out (b64_chunk [b, y, z] @ base64_encode zs @ input) =
        b64_decode_loop buf1 0 (out @ [b, y, z]) (base64_encode zs @ input)"
      using b64_decode_chunk by blast
    moreover obtain buf2 where "b64_decode_loop buf1 0 (out @ [b, y, z]) (base64_encode zs @ input) =
        (if 3 dvd length zs then b64_decode_loop buf2 0 ((out @ [b, y, z]) @ zs) input else Some ((out @ [b, y, z]) @ zs))"
      using 2 [of buf1 "out @ [b, y, z]"] unfolding 3 by (simp only: drop_Suc_Cons numeral_2_eq_2 drop_0) blast
    moreover have "3 dvd length (b # bs) \<longleftrightarrow> 3 dvd length zs" using 3 by (simp add: dvd_def) presburger
    ultimately show ?thesis using 3 by auto
  qed (auto simp: b64_decode_short_chunk dest: dvd_imp_le)
qed auto

lemma base64_decode_encode: "base64_decode (base64_encode bs) = Some bs"
  using b64_decode_encode [of 0 "[]" bs "[]"] by (auto simp: base64_decode_def split: if_splits)

text \<open>
  C31. Base64 decoding inverts encoding, and it ignores whatever follows the first padding
  character, although the documentation promises to reject any byte outside the alphabet.
\<close>

theorem base64_decode_ignores_tail:
  "base64_decode (base64_encode bs) = Some bs \<and>
   base64_decode (base64_encode bs @ 0x3D # junk) = Some bs"
proof -
  obtain buf' where "b64_decode_loop 0 0 [] (base64_encode bs @ 0x3D # junk) =
     (if 3 dvd length bs then b64_decode_loop buf' 0 bs (0x3D # junk) else Some bs)"
    using b64_decode_encode [of 0 "[]" bs "0x3D # junk"] by auto
  then show ?thesis by (auto simp: base64_decode_def base64_decode_encode [unfolded base64_decode_def])
qed

section \<open>The carriers\<close>

datatype Obfuscator = ObfsNone | ObfsQuic QuicObfs | ObfsBase64

definition Obfuscator_from_name :: "string \<Rightarrow> Rng \<Rightarrow> Obfuscator \<times> Rng" where
  "Obfuscator_from_name name g =
     (if name = ''quic'' then (case QuicObfs_new DEFAULT_DCID_LEN g of (q, g') \<Rightarrow> (ObfsQuic q, g'))
      else if name = ''base64'' then (ObfsBase64, g)
      else (ObfsNone, g))"

fun obfs_wrap :: "bytes \<Rightarrow> Obfuscator \<times> Rng \<Rightarrow> bytes \<times> Obfuscator \<times> Rng" where
  "obfs_wrap datagram (ObfsNone, g) = (datagram, ObfsNone, g)"
| "obfs_wrap datagram (ObfsQuic q, g) = (case quic_wrap datagram (q, g) of (pkt, q', g') \<Rightarrow> (pkt, ObfsQuic q', g'))"
| "obfs_wrap datagram (ObfsBase64, g) = (base64_encode datagram, ObfsBase64, g)"

fun obfs_unwrap :: "Obfuscator \<Rightarrow> bytes \<Rightarrow> bytes option" where
  "obfs_unwrap ObfsNone pkt = Some pkt"
| "obfs_unwrap (ObfsQuic q) pkt = quic_unwrap q pkt"
| "obfs_unwrap ObfsBase64 pkt = base64_decode pkt"

text \<open>
  What a carrier promises to the endpoint: a receiver that fits the sender's carrier recovers
  each datagram, and sending keeps them fitting.
\<close>

locale carrier =
  fixes wrap :: "bytes \<Rightarrow> 's \<Rightarrow> bytes \<times> 's" and unwrap :: "'r \<Rightarrow> bytes \<Rightarrow> bytes option"
    and fits :: "'s \<Rightarrow> 'r \<Rightarrow> bool"
  assumes unwrap_wrap: "fits s r \<Longrightarrow> unwrap r (fst (wrap d s)) = Some d"
    and fits_wrap: "fits s r \<Longrightarrow> fits (snd (wrap d s)) r"
begin

lemma unwrap_all:
  assumes "fits s r"
  shows "map (unwrap r) (readings wrap s ds) = map Some ds"
  using assms
proof (induction ds arbitrary: s)
  case (Cons d ds)
  obtain pkt s' where w: "wrap d s = (pkt, s')" by (cases "wrap d s")
  with unwrap_wrap [OF Cons.prems, of d] fits_wrap [OF Cons.prems, of d] Cons.IH [of s'] show ?case by simp
qed simp

lemma readings_lossy:
  assumes "fits s r" and "\<forall>i\<in>set is. i < length ds"
  shows "map (\<lambda>i. unwrap r (readings wrap s ds ! i)) is = map (\<lambda>i. Some (ds ! i)) is"
proof -
  have "length (readings wrap s ds) = length ds" by (induction ds arbitrary: s) (simp_all split: prod.splits)
  then have "unwrap r (readings wrap s ds ! i) = Some (ds ! i)" if "i < length ds" for i
    using arg_cong [OF unwrap_all [OF assms(1), of ds], of "\<lambda>xs. xs ! i"] that by simp
  with assms(2) show ?thesis by simp
qed

end

definition quic_fits :: "QuicObfs \<times> Rng \<Rightarrow> QuicObfs \<Rightarrow> bool" where
  "quic_fits = (\<lambda>(q, g) r. length (qo_dcid q) = qo_dcid_len r)"

fun obfs_fits :: "Obfuscator \<times> Rng \<Rightarrow> Obfuscator \<Rightarrow> bool" where
  "obfs_fits (ObfsNone, g) r = (r = ObfsNone)"
| "obfs_fits (ObfsQuic q, g) r = (case r of ObfsQuic q' \<Rightarrow> quic_fits (q, g) q' | _ \<Rightarrow> False)"
| "obfs_fits (ObfsBase64, g) r = (r = ObfsBase64)"

lemma quic_first_bits:
  "quic_first rnd AND 0x80 = 0" "quic_first rnd AND 0x40 \<noteq> 0" "quic_first rnd AND 0x03 = 1"
proof -
  show "quic_first rnd AND 0x80 = 0"
    by (rule u8_eqI) (simp_all add: quic_first_def PN_LEN_def bit_simps)
  show "quic_first rnd AND 0x03 = 1"
    by (rule u8_eqI) (simp_all add: quic_first_def PN_LEN_def bit_simps)
  have "bit (quic_first rnd AND 0x40) 6" by (simp add: quic_first_def bit_simps)
  then show "quic_first rnd AND 0x40 \<noteq> 0" by auto
qed

interpretation quic: carrier quic_wrap quic_unwrap quic_fits
proof unfold_locales
  fix s r d assume fits: "quic_fits s r"
  obtain q g where s: "s = (q, g)" by (cases s)
  obtain rnd g' where f: "rng_fill (Suc 0) g = (rnd, g')" by (cases "rng_fill (Suc 0) g")
  show "quic_unwrap r (fst (quic_wrap d s)) = Some d"
    using fits by (simp add: s f quic_fits_def quic_wrap_def quic_unwrap_def quic_first_bits Let_def PN_LEN_def)
  show "quic_fits (snd (quic_wrap d s)) r"
    using fits by (simp add: s f quic_fits_def quic_wrap_def Let_def)
qed

interpretation obfs: carrier obfs_wrap obfs_unwrap obfs_fits
proof unfold_locales
  fix s r d assume fits: "obfs_fits s r"
  obtain o' g where s: "s = (o', g)" by (cases s)
  show "obfs_unwrap r (fst (obfs_wrap d s)) = Some d"
    using fits quic.unwrap_wrap [of "(case o' of ObfsQuic q \<Rightarrow> q, g)" _ d]
    by (cases o'; cases r) (auto simp: s base64_decode_encode split: prod.splits)
  show "obfs_fits (snd (obfs_wrap d s)) r"
    using fits quic.fits_wrap [of "(case o' of ObfsQuic q \<Rightarrow> q, g)" _ d]
    by (cases o'; cases r) (auto simp: s split: prod.splits)
qed

end
