(* ===== verification/Sv_Endpoint.thy ===== *)
theory Sv_Endpoint
  imports Sv_Obfs Tunnel_Results Wg_Macs Noise
begin

text \<open>
  The ShadowVPN endpoint (\<open>shadowvpn/endpoint.rs\<close>): stateless pre-shared-key datagrams behind a
  carrier.  The order in which the hash map of peers is iterated by \<open>recv\<close> is an argument; the
  random number generator and the carrier's packet counter are threaded through \<open>send\<close>.
\<close>

definition MIN_DELIVER_LEN :: nat where "MIN_DELIVER_LEN = 20"

record SvPeer =
  svp_id :: PeerId
  svp_config :: PeerConfig
  svp_master_key :: bytes

definition SvPeer_new :: "PeerId \<Rightarrow> PeerConfig \<Rightarrow> Cipher \<Rightarrow> SvPeer" where
  "SvPeer_new i cfg c = \<lparr>svp_id = i, svp_config = cfg, svp_master_key = take (key_len c) (cfg_psk cfg)\<rparr>"

record SvEndpoint =
  sve_my_key :: X25519KeyPair
  sve_cipher :: Cipher
  sve_obfs :: Obfuscator
  sve_peers :: "PeerId \<rightharpoonup> SvPeer"
  sve_by_key :: "bytes \<rightharpoonup> PeerId"

definition sv_with_config :: "X25519KeyPair \<Rightarrow> Cipher \<Rightarrow> Obfuscator \<Rightarrow> SvEndpoint" where
  "sv_with_config my_key c ob =
     \<lparr>sve_my_key = my_key, sve_cipher = c, sve_obfs = ob, sve_peers = Map.empty, sve_by_key = Map.empty\<rparr>"

definition sv_new :: "X25519KeyPair \<Rightarrow> Rng \<Rightarrow> SvEndpoint \<times> Rng" where
  "sv_new my_key g =
     (case Obfuscator_from_name ''quic'' g of (ob, g') \<Rightarrow> (sv_with_config my_key ChaCha20Poly1305 ob, g'))"

definition sv_upsert_peer :: "PeerId \<Rightarrow> PeerConfig \<Rightarrow> SvEndpoint \<Rightarrow> wg_fault + PeerConfig option \<times> SvEndpoint" where
  "sv_upsert_peer i cfg ep =
     (if (case sve_by_key ep (cfg_key cfg) of Some existing \<Rightarrow> existing \<noteq> i | None \<Rightarrow> False)
      then Inl NodeKeyCollision
      else
        let peer = SvPeer_new i cfg (sve_cipher ep);
            new_key = cfg_key (svp_config peer);
            ep' = ep\<lparr>sve_peers := (sve_peers ep)(i \<mapsto> peer)\<rparr>
        in case sve_peers ep i of
             Some old \<Rightarrow>
               Inr (Some (svp_config old),
                 if cfg_key (svp_config old) \<noteq> new_key
                 then ep'\<lparr>sve_by_key := (sve_by_key ep)(cfg_key (svp_config old) := None, new_key \<mapsto> i)\<rparr>
                 else ep')
           | None \<Rightarrow> Inr (None, ep'\<lparr>sve_by_key := (sve_by_key ep)(new_key \<mapsto> i)\<rparr>))"

definition sv_remove_peer :: "PeerId \<Rightarrow> SvEndpoint \<Rightarrow> bool \<times> SvEndpoint" where
  "sv_remove_peer i ep =
     (case sve_peers ep i of
        None \<Rightarrow> (False, ep)
      | Some peer \<Rightarrow>
          (True, ep\<lparr>sve_peers := (sve_peers ep)(i := None),
                    sve_by_key := (sve_by_key ep)(cfg_key (svp_config peer) := None)\<rparr>))"

text \<open>The packets of one peer: each is encrypted and wrapped, or dropped when encryption fails.\<close>

fun sv_send_packets ::
  "sv_crypto \<Rightarrow> Cipher \<Rightarrow> bytes \<Rightarrow> bytes list \<Rightarrow> Obfuscator \<times> Rng \<Rightarrow> bytes list \<times> Obfuscator \<times> Rng" where
  "sv_send_packets S c key [] s = ([], s)"
| "sv_send_packets S c key (p # ps) (ob, g) =
     (case encrypt_packet S c key p g of
        (Inl e, g') \<Rightarrow> sv_send_packets S c key ps (ob, g')
      | (Inr datagram, g') \<Rightarrow>
          (case obfs_wrap datagram (ob, g') of (pkt, s') \<Rightarrow>
             (case sv_send_packets S c key ps s' of (out, s'') \<Rightarrow> (pkt # out, s''))))"

fun sv_send_each ::
  "sv_crypto \<Rightarrow> (PeerId \<times> bytes list) list \<Rightarrow> SvEndpoint \<times> Rng \<times> SendResult \<Rightarrow> SvEndpoint \<times> Rng \<times> SendResult" where
  "sv_send_each S [] s = s"
| "sv_send_each S ((i, packets) # rest) (ep, g, ret) =
     (case sve_peers ep i of
        None \<Rightarrow> sv_send_each S rest (ep, g, ret)
      | Some peer \<Rightarrow>
          (case sv_send_packets S (sve_cipher ep) (svp_master_key peer) packets (sve_obfs ep, g) of (out, ob, g') \<Rightarrow>
             sv_send_each S rest
               (ep\<lparr>sve_obfs := ob\<rparr>, g', ret\<lparr>sr_to_peers := entry_extend (sr_to_peers ret) i out\<rparr>)))"

definition sv_send ::
  "sv_crypto \<Rightarrow> (PeerId \<times> bytes list) list \<Rightarrow> SvEndpoint \<Rightarrow> Rng \<Rightarrow> SendResult \<times> SvEndpoint \<times> Rng" where
  "sv_send S packets ep g =
     (case sv_send_each S packets (ep, g, SendResult_default) of (ep', g', ret) \<Rightarrow> (ret, ep', g'))"

text \<open>Trial decryption: the first peer, in iteration order, whose key opens the datagram.\<close>

fun sv_trial :: "sv_crypto \<Rightarrow> Cipher \<Rightarrow> SvPeer list \<Rightarrow> bytes \<Rightarrow> (SvPeer \<times> bytes) option" where
  "sv_trial S c [] datagram = None"
| "sv_trial S c (peer # peers) datagram =
     (case decrypt_packet S c (svp_master_key peer) datagram of
        Inl e \<Rightarrow> sv_trial S c peers datagram
      | Inr plaintext \<Rightarrow> Some (peer, plaintext))"

definition sv_recv_one :: "sv_crypto \<Rightarrow> SvPeer list \<Rightarrow> SvEndpoint \<Rightarrow> bytes \<Rightarrow> RecvResult \<Rightarrow> RecvResult" where
  "sv_recv_one S peers ep packet ret =
     (case obfs_unwrap (sve_obfs ep) packet of
        None \<Rightarrow> ret
      | Some datagram \<Rightarrow>
          (case sv_trial S (sve_cipher ep) peers datagram of
             None \<Rightarrow> ret
           | Some (peer, plaintext) \<Rightarrow>
               if length plaintext < MIN_DELIVER_LEN then ret
               else recv_queue_to_local (svp_id peer) [plaintext] ret))"

definition sv_recv :: "sv_crypto \<Rightarrow> PeerId list \<Rightarrow> bytes list \<Rightarrow> SvEndpoint \<Rightarrow> RecvResult" where
  "sv_recv S order packets ep =
     (let peers = List.map_filter (sve_peers ep) order
      in fold (sv_recv_one S peers ep) packets RecvResult_default)"

definition sv_dispatch_events :: "instant \<Rightarrow> SvEndpoint \<Rightarrow> EventResult" where
  "sv_dispatch_events now ep = EventResult_default"

definition sv_next_event :: "SvEndpoint \<Rightarrow> TimeRange option" where
  "sv_next_event ep = None"

definition sv_peer_key :: "PeerId \<Rightarrow> SvEndpoint \<Rightarrow> bytes option" where
  "sv_peer_key i ep = map_option (\<lambda>peer. cfg_key (svp_config peer)) (sve_peers ep i)"

definition sv_peer_id :: "bytes \<Rightarrow> SvEndpoint \<Rightarrow> PeerId option" where
  "sv_peer_id key ep = sve_by_key ep key"

section \<open>Peer management\<close>

text \<open>Every peer is stored under its id with the key its configuration gives, and the reverse index is exact.\<close>

definition sv_inv :: "SvEndpoint \<Rightarrow> bool" where
  "sv_inv ep \<longleftrightarrow>
     (\<forall>i peer. sve_peers ep i = Some peer \<longrightarrow> peer = SvPeer_new i (svp_config peer) (sve_cipher ep)) \<and>
     (\<forall>key i. sve_by_key ep key = Some i \<longleftrightarrow> (\<exists>peer. sve_peers ep i = Some peer \<and> cfg_key (svp_config peer) = key))"

inductive sv_reachable :: "sv_crypto \<Rightarrow> SvEndpoint \<Rightarrow> bool" for S where
  sv_start: "sv_reachable S (sv_with_config k c ob)"
| sv_upsert: "sv_reachable S ep \<Longrightarrow> sv_upsert_peer i cfg ep = Inr (old, ep') \<Longrightarrow> sv_reachable S ep'"
| sv_remove: "sv_reachable S ep \<Longrightarrow> sv_remove_peer i ep = (b, ep') \<Longrightarrow> sv_reachable S ep'"
| sv_sent: "sv_reachable S ep \<Longrightarrow> sv_send S packets ep g = (ret, ep', g') \<Longrightarrow> sv_reachable S ep'"

lemma sv_inv_with_config: "sv_inv (sv_with_config k c ob)"
  by (simp add: sv_inv_def sv_with_config_def)

lemma sv_inv_upsert:
  assumes "sv_inv ep" and "sv_upsert_peer i cfg ep = Inr (old, ep')"
  shows "sv_inv ep'"
proof -
  note inv = assms(1) [unfolded sv_inv_def]
  have free: "\<not> (\<exists>j. sve_by_key ep (cfg_key cfg) = Some j \<and> j \<noteq> i)"
    using assms(2) by (auto simp: sv_upsert_peer_def split: if_splits option.splits)
  show ?thesis
  proof (cases "sve_peers ep i")
    case None
    then have "ep' = ep\<lparr>sve_peers := (sve_peers ep)(i \<mapsto> SvPeer_new i cfg (sve_cipher ep)),
        sve_by_key := (sve_by_key ep)(cfg_key cfg \<mapsto> i)\<rparr>"
      using assms(2) by (auto simp: sv_upsert_peer_def Let_def SvPeer_new_def split: if_splits)
    with None free inv show ?thesis by (auto simp: sv_inv_def SvPeer_new_def)
  next
    case (Some peer)
    then have key: "sve_by_key ep (cfg_key (svp_config peer)) = Some i" using inv by blast
    have "sve_peers ep' = (sve_peers ep)(i \<mapsto> SvPeer_new i cfg (sve_cipher ep))" "sve_cipher ep' = sve_cipher ep"
      "sve_by_key ep' = (sve_by_key ep)(cfg_key (svp_config peer) := None, cfg_key cfg \<mapsto> i)"
      using assms(2) Some key by (auto simp: sv_upsert_peer_def Let_def SvPeer_new_def fun_upd_idem split: if_splits)
    moreover have "cfg_key (svp_config q) \<noteq> cfg_key (svp_config peer)" if "sve_peers ep j = Some q" "j \<noteq> i" for j q
      using inv Some that by (metis option.inject)
    ultimately show ?thesis using Some key free inv by (auto simp: sv_inv_def SvPeer_new_def)
  qed
qed

lemma sv_inv_remove:
  assumes "sv_inv ep" and "sv_remove_peer i ep = (b, ep')"
  shows "sv_inv ep'"
proof (cases "sve_peers ep i")
  case (Some peer)
  note inv = assms(1) [unfolded sv_inv_def]
  have "cfg_key (svp_config q) \<noteq> cfg_key (svp_config peer)" if "sve_peers ep j = Some q" "j \<noteq> i" for j q
    using inv Some that by (metis option.inject)
  moreover have "ep' = ep\<lparr>sve_peers := (sve_peers ep)(i := None),
      sve_by_key := (sve_by_key ep)(cfg_key (svp_config peer) := None)\<rparr>"
    using assms(2) Some by (simp add: sv_remove_peer_def)
  ultimately show ?thesis using inv Some by (auto simp: sv_inv_def)
qed (use assms in \<open>simp add: sv_remove_peer_def\<close>)

lemma sv_send_keeps:
  assumes "sv_send S packets ep g = (ret, ep', g')"
  shows "\<exists>ob. ep' = ep\<lparr>sve_obfs := ob\<rparr>"
proof -
  have "sv_send_each S packets (ep, g, ret) = (ep', g', ret') \<Longrightarrow> \<exists>ob. ep' = ep\<lparr>sve_obfs := ob\<rparr>" for ret ret'
  proof (induction packets arbitrary: ep g ret)
    case Nil
    then show ?case by (intro exI [of _ "sve_obfs ep"]) simp
  next
    case (Cons x packets)
    obtain i ps where x: "x = (i, ps)" by (cases x)
    show ?case
    proof (cases "sve_peers ep i")
      case (Some peer)
      obtain out ob g1 where s: "sv_send_packets S (sve_cipher ep) (svp_master_key peer) ps (sve_obfs ep, g) = (out, ob, g1)"
        by (rule prod_cases3)
      from Cons.prems x Some s Cons.IH [of "ep\<lparr>sve_obfs := ob\<rparr>"] show ?thesis by auto
    qed (use Cons x in auto)
  qed
  with assms show ?thesis by (auto simp: sv_send_def split: prod.splits)
qed

lemma sv_inv_reachable: "sv_reachable S ep \<Longrightarrow> sv_inv ep"
proof (induction rule: sv_reachable.induct)
  case (sv_sent ep packets g ret ep' g')
  then show ?case using sv_send_keeps [of S packets ep g ret ep' g'] by (auto simp: sv_inv_def)
qed (auto intro: sv_inv_with_config sv_inv_upsert sv_inv_remove)

text \<open>
  C25. In every reachable ShadowVPN endpoint the reverse index agrees with the peers, each peer
  has the master key of its configuration, and \<open>upsert_peer\<close> panics exactly when another peer
  has the key, as its documentation says.
\<close>

theorem sv_keys_consistent:
  assumes "sv_reachable S ep"
  shows "(sv_peer_id key ep = Some i \<longleftrightarrow> sv_peer_key i ep = Some key) \<and>
     (\<forall>peer. sve_peers ep i = Some peer \<longrightarrow>
        svp_id peer = i \<and> svp_master_key peer = take (key_len (sve_cipher ep)) (cfg_psk (svp_config peer))) \<and>
     (sv_upsert_peer i cfg ep = Inl NodeKeyCollision \<longleftrightarrow> (\<exists>j. j \<noteq> i \<and> sv_peer_key j ep = Some (cfg_key cfg)))"
proof -
  note inv = sv_inv_reachable [OF assms, unfolded sv_inv_def]
  have key: "sve_by_key ep k = Some j \<longleftrightarrow> sv_peer_key j ep = Some k" for k j
    using inv by (auto simp: sv_peer_key_def)
  have "svp_id peer = i \<and> svp_master_key peer = take (key_len (sve_cipher ep)) (cfg_psk (svp_config peer))"
    if "sve_peers ep i = Some peer" for peer
    using inv that by (metis SvPeer.select_convs(1,3) SvPeer_new_def)
  moreover have "sv_upsert_peer i cfg ep = Inl NodeKeyCollision \<longleftrightarrow> (\<exists>j. j \<noteq> i \<and> sve_by_key ep (cfg_key cfg) = Some j)"
    by (auto simp: sv_upsert_peer_def Let_def split: option.splits)
  ultimately show ?thesis using key by (auto simp: sv_peer_id_def)
qed

theorem sv_keys_consistent_witness:
  "\<exists>ep. sv_reachable sample_sv_crypto ep \<and> sv_peer_key 7 ep = Some [1] \<and> sv_peer_id [1] ep = Some 7 \<and>
     sv_upsert_peer 8 \<lparr>cfg_key = [1], cfg_psk = []\<rparr> ep = Inl NodeKeyCollision"
proof -
  let ?cfg = "\<lparr>cfg_key = [1], cfg_psk = []\<rparr>"
  define ep0 where "ep0 = sv_with_config \<lparr>kp_private = [], kp_public = []\<rparr> Aes128Gcm ObfsNone"
  obtain ep where up: "sv_upsert_peer 7 ?cfg ep0 = Inr (None, ep)" and key: "sv_peer_key 7 ep = Some [1]"
    by (simp add: ep0_def sv_with_config_def sv_upsert_peer_def Let_def SvPeer_new_def sv_peer_key_def)
  have r: "sv_reachable sample_sv_crypto ep"
    by (rule sv_upsert [OF _ up]) (simp add: ep0_def sv_start)
  from key have "\<exists>j. j \<noteq> 8 \<and> sv_peer_key j ep = Some (cfg_key ?cfg)" by (intro exI [of _ 7]) simp
  with r key sv_keys_consistent [OF r, of "[1]" 7 ?cfg] sv_keys_consistent [OF r, of "[1]" 8 ?cfg]
  show ?thesis by blast
qed

section \<open>Delivery\<close>

text \<open>A packet on the wire that carries \<open>p\<close> under the key \<open>key\<close> for the receiver \<open>ep\<close>.\<close>

definition sv_opens :: "sv_crypto \<Rightarrow> SvEndpoint \<Rightarrow> bytes \<Rightarrow> bytes \<Rightarrow> bytes \<Rightarrow> bool" where
  "sv_opens S ep key pkt p \<longleftrightarrow>
     (case obfs_unwrap (sve_obfs ep) pkt of
        None \<Rightarrow> False
      | Some d \<Rightarrow> decrypt_packet S (sve_cipher ep) key d = Inr p)"

lemma obfs_fits_rng: "obfs_fits (ob, g) r = obfs_fits (ob, g') r"
  by (cases ob; cases r) (simp_all add: quic_fits_def)

lemma sv_send_packets_open:
  assumes "sv_crypto_ok S" and "rng_ok g" and "obfs_fits (ob, g) (sve_obfs ep)" and "\<forall>p\<in>set ps. length p < 2 ^ 36"
  shows "\<exists>out ob' g'. sv_send_packets S (sve_cipher ep) key ps (ob, g) = (out, ob', g') \<and>
    list_all2 (sv_opens S ep key) out ps"
  using assms(2-)
proof (induction ps arbitrary: ob g)
  case (Cons p ps)
  have "length p < 2 ^ 36" using Cons.prems(3) by simp
  then obtain d g1 where enc: "encrypt_packet S (sve_cipher ep) key p g = (Inr d, g1)" and g1: "rng_ok g1"
    and "length d = salt_len (sve_cipher ep) + length p + TAG_LEN" and dec: "decrypt_packet S (sve_cipher ep) key d = Inr p"
    by (rule encrypt_packet_total [OF assms(1) Cons.prems(1)])
  have fits: "obfs_fits (ob, g1) (sve_obfs ep)" using Cons.prems(2) obfs_fits_rng [where ob = ob and g = g and g' = g1] by simp
  obtain pkt ob2 g2 where w: "obfs_wrap d (ob, g1) = (pkt, ob2, g2)" by (rule prod_cases3)
  have "rng_ok g2" using w g1 by (cases ob) (auto simp: quic_wrap_def rng_fill_def rng_ok_def Let_def split: prod.splits)
  moreover have "obfs_fits (ob2, g2) (sve_obfs ep)" using obfs.fits_wrap [OF fits, of d] w by simp
  ultimately obtain out ob' g' where "sv_send_packets S (sve_cipher ep) key ps (ob2, g2) = (out, ob', g')"
    "list_all2 (sv_opens S ep key) out ps" using Cons.IH [of g2 ob2] Cons.prems(3) by auto
  moreover have "sv_opens S ep key pkt p" using obfs.unwrap_wrap [OF fits, of d] w dec by (simp add: sv_opens_def)
  ultimately show ?case using enc w by simp
qed simp

lemma sv_trial_unique:
  assumes "peer \<in> set peers" and "decrypt_packet S c (svp_master_key peer) d = Inr p"
    and "\<And>q p'. q \<in> set peers \<Longrightarrow> decrypt_packet S c (svp_master_key q) d = Inr p' \<Longrightarrow> q = peer"
  shows "sv_trial S c peers d = Some (peer, p)"
  using assms
proof (induction peers)
  case (Cons q peers)
  show ?case
  proof (cases "decrypt_packet S c (svp_master_key q) d")
    case (Inl e)
    with Cons.prems(1,2) have "peer \<in> set peers" by auto
    then have "sv_trial S c peers d = Some (peer, p)"
      by (rule Cons.IH [OF _ Cons.prems(2)]) (rule Cons.prems(3), rule list.set_intros(2))
    with Inl show ?thesis by simp
  next
    case (Inr p')
    then have "q = peer" by (rule Cons.prems(3) [OF list.set_intros(1)])
    with Inr Cons.prems(2) show ?thesis by simp
  qed
qed simp

lemma map_filter_member: "y \<in> set (List.map_filter f xs) \<longleftrightarrow> (\<exists>x\<in>set xs. f x = Some y)"
  by (induction xs) (auto simp: List.map_filter_def)

lemma entry_extend_twice: "entry_extend (entry_extend m k xs) k ys = entry_extend m k (xs @ ys)"
  by (simp add: entry_extend_def)

lemma sv_recv_fold:
  assumes "list_all2 (\<lambda>pkt p. \<exists>d. obfs_unwrap (sve_obfs ep) pkt = Some d \<and>
      sv_trial S (sve_cipher ep) peers d = Some (peer, p)) pkts ps"
  shows "fold (sv_recv_one S peers ep) pkts ret =
    (let ds = filter (\<lambda>p. MIN_DELIVER_LEN \<le> length p) ps
     in if ds = [] then ret else recv_queue_to_local (svp_id peer) ds ret)"
  using assms
proof (induction arbitrary: ret rule: list_all2_induct)
  case (Cons pkt pkts p ps)
  then show ?case
    by (auto simp: sv_recv_one_def Let_def recv_queue_to_local_def entry_extend_twice)
qed simp

text \<open>
  C15. What a ShadowVPN endpoint sends to a peer is delivered by the receiver that holds the
  same key, however the datagrams are reordered, dropped or repeated on the way: exactly the
  packets of at least 20 bytes arrive, attributed to the right peer.  The receiver tries the
  keys in any order; the hypothesis says that no other key opens these datagrams.
\<close>

theorem sv_delivery:
  assumes "sv_crypto_ok S" and "rng_ok g" and "sve_peers epA i = Some peerA"
    and "sve_peers epB j = Some peerB" and "svp_id peerB = j" and "svp_master_key peerA = svp_master_key peerB"
    and "sve_cipher epA = sve_cipher epB" and "obfs_fits (sve_obfs epA, g) (sve_obfs epB)"
    and "\<forall>p\<in>set ps. length p < 2 ^ 36" and "j \<in> set order" and "\<forall>k\<in>set arrivals. k < length ps"
  shows "\<exists>pkts epA' g'. sv_send S [(i, ps)] epA g = (\<lparr>sr_to_peers = [i \<mapsto> pkts]\<rparr>, epA', g') \<and> length pkts = length ps \<and>
    ((\<forall>q peer pkt p. sve_peers epB q = Some peer \<and> pkt \<in> set pkts \<and> sv_opens S epB (svp_master_key peer) pkt p \<longrightarrow> q = j) \<longrightarrow>
     sv_recv S order (map ((!) pkts) arrivals) epB =
       (let ds = filter (\<lambda>p. 20 \<le> length p) (map ((!) ps) arrivals)
        in \<lparr>rr_to_local = (if ds = [] then Map.empty else [j \<mapsto> ds]), rr_to_peers = Map.empty\<rparr>))"
proof -
  obtain pkts ob' g' where send: "sv_send_packets S (sve_cipher epB) (svp_master_key peerB) ps (sve_obfs epA, g) = (pkts, ob', g')"
    and opens: "list_all2 (sv_opens S epB (svp_master_key peerB)) pkts ps"
    using sv_send_packets_open [OF assms(1,2,8,9), of "svp_master_key peerB"] by blast
  note len = list_all2_lengthD [OF opens]
  let ?peers = "List.map_filter (sve_peers epB) order"
  have recv: "sv_recv S order (map ((!) pkts) arrivals) epB =
      (let ds = filter (\<lambda>p. 20 \<le> length p) (map ((!) ps) arrivals)
       in \<lparr>rr_to_local = (if ds = [] then Map.empty else [j \<mapsto> ds]), rr_to_peers = Map.empty\<rparr>)"
    if only: "\<forall>q peer pkt p. sve_peers epB q = Some peer \<and> pkt \<in> set pkts \<and> sv_opens S epB (svp_master_key peer) pkt p \<longrightarrow> q = j"
  proof -
    have "\<exists>d. obfs_unwrap (sve_obfs epB) (pkts ! k) = Some d \<and> sv_trial S (sve_cipher epB) ?peers d = Some (peerB, ps ! k)"
      if k: "k < length ps" for k
    proof -
      obtain d where d: "obfs_unwrap (sve_obfs epB) (pkts ! k) = Some d"
        "decrypt_packet S (sve_cipher epB) (svp_master_key peerB) d = Inr (ps ! k)"
        using list_all2_nthD2 [OF opens k] by (auto simp: sv_opens_def split: option.splits)
      have "sv_trial S (sve_cipher epB) ?peers d = Some (peerB, ps ! k)"
      proof (rule sv_trial_unique)
        show "peerB \<in> set ?peers" using assms(4,10) by (auto simp: map_filter_member)
        fix q p' assume q: "q \<in> set ?peers" "decrypt_packet S (sve_cipher epB) (svp_master_key q) d = Inr p'"
        then obtain qi where qi: "sve_peers epB qi = Some q" by (auto simp: map_filter_member)
        have "pkts ! k \<in> set pkts" "sv_opens S epB (svp_master_key q) (pkts ! k) p'"
          using k len d(1) q(2) by (simp_all add: sv_opens_def)
        with qi only have "qi = j" by blast
        with qi assms(4) show "q = peerB" by simp
      qed (rule d(2))
      with d(1) show ?thesis by blast
    qed
    then have "list_all2 (\<lambda>pkt p. \<exists>d. obfs_unwrap (sve_obfs epB) pkt = Some d \<and>
        sv_trial S (sve_cipher epB) ?peers d = Some (peerB, p)) (map ((!) pkts) arrivals) (map ((!) ps) arrivals)"
      using assms(11) by (simp add: list_all2_conv_all_nth)
    then have "sv_recv S order (map ((!) pkts) arrivals) epB =
        (let ds = filter (\<lambda>p. MIN_DELIVER_LEN \<le> length p) (map ((!) ps) arrivals)
         in if ds = [] then RecvResult_default else recv_queue_to_local (svp_id peerB) ds RecvResult_default)"
      unfolding sv_recv_def Let_def by (rule sv_recv_fold [unfolded Let_def])
    then show ?thesis using assms(5)
      by (simp add: RecvResult_default_def recv_queue_to_local_def entry_extend_def MIN_DELIVER_LEN_def Let_def)
  qed
  have "sv_send S [(i, ps)] epA g = (\<lparr>sr_to_peers = [i \<mapsto> pkts]\<rparr>, epA\<lparr>sve_obfs := ob'\<rparr>, g')"
    using send assms(3,6,7) by (simp add: sv_send_def SendResult_default_def entry_extend_def)
  then show ?thesis
    by - (rule exI [of _ pkts], rule exI [of _ "epA\<lparr>sve_obfs := ob'\<rparr>"], rule exI [of _ g'], intro conjI impI,
      assumption, rule len, rule recv)
qed

theorem sv_delivery_witness:
  "\<exists>epA epB pkts epA' g'.
     sv_upsert_peer 1 \<lparr>cfg_key = [2], cfg_psk = [5]\<rparr> (fst (sv_new \<lparr>kp_private = [], kp_public = [1]\<rparr> sample_rng)) = Inr (None, epA) \<and>
     sv_upsert_peer 4 \<lparr>cfg_key = [1], cfg_psk = [5]\<rparr> (fst (sv_new \<lparr>kp_private = [], kp_public = [2]\<rparr> sample_rng)) = Inr (None, epB) \<and>
     sv_send sample_sv_crypto [(1, [replicate 20 7, [8]])] epA sample_rng = (\<lparr>sr_to_peers = [1 \<mapsto> pkts]\<rparr>, epA', g') \<and>
     sv_recv sample_sv_crypto [4] [pkts ! 1, pkts ! 0, pkts ! 0] epB =
       \<lparr>rr_to_local = [4 \<mapsto> [replicate 20 7, replicate 20 7]], rr_to_peers = Map.empty\<rparr>"
proof -
  define q where "q = fst (QuicObfs_new DEFAULT_DCID_LEN sample_rng)"
  have q: "length (qo_dcid q) = qo_dcid_len q"
    by (simp add: q_def QuicObfs_new_def rng_fill_def sample_rng_def)
  have up: "\<exists>ep. sv_upsert_peer i \<lparr>cfg_key = k', cfg_psk = [5]\<rparr> (fst (sv_new \<lparr>kp_private = [], kp_public = k\<rparr> sample_rng)) = Inr (None, ep) \<and>
      sve_peers ep = [i \<mapsto> SvPeer_new i \<lparr>cfg_key = k', cfg_psk = [5]\<rparr> ChaCha20Poly1305] \<and>
      sve_cipher ep = ChaCha20Poly1305 \<and> sve_obfs ep = ObfsQuic q" for i k k'
    by (simp add: sv_new_def sv_with_config_def Obfuscator_from_name_def sv_upsert_peer_def Let_def SvPeer_new_def q_def
        split: prod.splits)
  obtain A where A: "sv_upsert_peer 1 \<lparr>cfg_key = [2], cfg_psk = [5]\<rparr> (fst (sv_new \<lparr>kp_private = [], kp_public = [1]\<rparr> sample_rng)) = Inr (None, A)"
    "sve_peers A = [1 \<mapsto> SvPeer_new 1 \<lparr>cfg_key = [2], cfg_psk = [5]\<rparr> ChaCha20Poly1305]"
    "sve_cipher A = ChaCha20Poly1305" "sve_obfs A = ObfsQuic q" using up [of 1 "[2]" "[1]"] by blast
  obtain B where B: "sv_upsert_peer 4 \<lparr>cfg_key = [1], cfg_psk = [5]\<rparr> (fst (sv_new \<lparr>kp_private = [], kp_public = [2]\<rparr> sample_rng)) = Inr (None, B)"
    "sve_peers B = [4 \<mapsto> SvPeer_new 4 \<lparr>cfg_key = [1], cfg_psk = [5]\<rparr> ChaCha20Poly1305]"
    "sve_cipher B = ChaCha20Poly1305" "sve_obfs B = ObfsQuic q" using up [of 4 "[1]" "[2]"] by blast
  have A1: "sve_peers A 1 = Some (SvPeer_new 1 \<lparr>cfg_key = [2], cfg_psk = [5]\<rparr> ChaCha20Poly1305)" using A(2) by simp
  have B1: "sve_peers B 4 = Some (SvPeer_new 4 \<lparr>cfg_key = [1], cfg_psk = [5]\<rparr> ChaCha20Poly1305)" using B(2) by simp
  have only: "sve_peers B r = Some peer \<Longrightarrow> r = 4" for r peer using B(2) by (simp split: if_splits)
  have prems: "obfs_fits (sve_obfs A, sample_rng) (sve_obfs B)" "sve_cipher A = sve_cipher B" using A B q by (simp_all add: quic_fits_def)
  have peers: "svp_id (SvPeer_new 4 \<lparr>cfg_key = [1], cfg_psk = [5]\<rparr> ChaCha20Poly1305) = 4"
    "svp_master_key (SvPeer_new 1 \<lparr>cfg_key = [2], cfg_psk = [5]\<rparr> ChaCha20Poly1305) =
     svp_master_key (SvPeer_new 4 \<lparr>cfg_key = [1], cfg_psk = [5]\<rparr> ChaCha20Poly1305)" by (simp_all add: SvPeer_new_def)
  have lists: "\<forall>p\<in>set [replicate 20 7, [8]]. length (p :: bytes) < 2 ^ 36" "4 \<in> set [4 :: PeerId]"
    "\<forall>k\<in>set [1, 0, 0]. k < length [replicate 20 7, [8] :: bytes]" by simp_all
  obtain pkts epA' g' where send: "sv_send sample_sv_crypto [(1, [replicate 20 7, [8]])] A sample_rng =
      (\<lparr>sr_to_peers = [1 \<mapsto> pkts]\<rparr>, epA', g')"
    and recv: "(\<forall>q peer pkt p. sve_peers B q = Some peer \<and> pkt \<in> set pkts \<and>
        sv_opens sample_sv_crypto B (svp_master_key peer) pkt p \<longrightarrow> q = 4) \<longrightarrow>
      sv_recv sample_sv_crypto [4] (map ((!) pkts) [1, 0, 0]) B =
      (let ds = filter (\<lambda>p. 20 \<le> length p) (map ((!) [replicate 20 7, [8]]) [1, 0, 0])
        in \<lparr>rr_to_local = (if ds = [] then Map.empty else [4 \<mapsto> ds]), rr_to_peers = Map.empty\<rparr>)"
    using sv_delivery [OF sample_sv_crypto_ok sample_rng_ok A1 B1 peers prems(2,1) lists] by blast
  have "sv_recv sample_sv_crypto [4] (map ((!) pkts) [1, 0, 0]) B =
      (let ds = filter (\<lambda>p. 20 \<le> length p) (map ((!) [replicate 20 7, [8]]) [1, 0, 0])
        in \<lparr>rr_to_local = (if ds = [] then Map.empty else [4 \<mapsto> ds]), rr_to_peers = Map.empty\<rparr>)"
    by (rule recv [rule_format]) (use only in blast)
  then have "sv_recv sample_sv_crypto [4] [pkts ! 1, pkts ! 0, pkts ! 0] B =
      \<lparr>rr_to_local = [4 \<mapsto> [replicate 20 7, replicate 20 7]], rr_to_peers = Map.empty\<rparr>"
    by (simp add: Let_def)
  with send A(1) B(1) show ?thesis by blast
qed

end
