(* ===== verification/Tunnel.thy ===== *)
theory Tunnel
  imports Wg_Invariant Sv_Endpoint
begin

text \<open>
  The protocol dispatcher of the tunnel (\<open>ts_tunnel/src/lib.rs\<close>) and the contract both backends
  share: their peer management implements an injective map from peer ids to node keys.
\<close>

datatype Protocol = Wireguard_p | Shadowvpn_p

definition Protocol_from_name :: "string \<Rightarrow> Protocol option" where
  "Protocol_from_name name =
     (if name = ''wireguard'' \<or> name = ''wg'' then Some Wireguard_p
      else if name = ''shadowvpn'' \<or> name = ''ss'' then Some Shadowvpn_p
      else None)"

fun Protocol_name :: "Protocol \<Rightarrow> string" where
  "Protocol_name Wireguard_p = ''wireguard''"
| "Protocol_name Shadowvpn_p = ''shadowvpn''"

lemma Protocol_from_name_name: "Protocol_from_name (Protocol_name p) = Some p"
  by (cases p) (simp_all add: Protocol_from_name_def)

datatype Tunnel = Wireguard Endpoint | Shadowvpn SvEndpoint

text \<open>
  The crates, the clocks and the randomness an operation uses: the backends read the primitives,
  the monotonic clock, the system clock and the random generator of the call's environment.
\<close>

record tunnel_env =
  te_crypto :: crypto
  te_sv_crypto :: sv_crypto
  te_now :: instant
  te_systime :: systime

definition Tunnel_new :: "tunnel_env \<Rightarrow> Entropy \<Rightarrow> Rng \<Rightarrow> Protocol \<Rightarrow> X25519KeyPair \<Rightarrow> Tunnel \<times> Rng" where
  "Tunnel_new env ent g protocol my_key =
     (case protocol of
        Wireguard_p \<Rightarrow> (Wireguard (Endpoint_new (te_crypto env) ent my_key), g)
      | Shadowvpn_p \<Rightarrow> (case sv_new my_key g of (e, g') \<Rightarrow> (Shadowvpn e, g')))"

fun Tunnel_protocol :: "Tunnel \<Rightarrow> Protocol" where
  "Tunnel_protocol (Wireguard _) = Wireguard_p"
| "Tunnel_protocol (Shadowvpn _) = Shadowvpn_p"

fun Tunnel_upsert_peer :: "tunnel_env \<Rightarrow> PeerId \<Rightarrow> PeerConfig \<Rightarrow> Tunnel \<Rightarrow> wg_fault + PeerConfig option \<times> Tunnel" where
  "Tunnel_upsert_peer env i cfg (Wireguard e) = bind_res (upsert_peer (te_crypto env) i cfg e) (\<lambda>(old, e'). Inr (old, Wireguard e'))"
| "Tunnel_upsert_peer env i cfg (Shadowvpn e) = bind_res (sv_upsert_peer i cfg e) (\<lambda>(old, e'). Inr (old, Shadowvpn e'))"

fun Tunnel_remove_peer :: "PeerId \<Rightarrow> Tunnel \<Rightarrow> wg_fault + bool \<times> Tunnel" where
  "Tunnel_remove_peer i (Wireguard e) = bind_res (remove_peer i e) (\<lambda>(b, e'). Inr (b, Wireguard e'))"
| "Tunnel_remove_peer i (Shadowvpn e) = (case sv_remove_peer i e of (b, e') \<Rightarrow> Inr (b, Shadowvpn e'))"

fun Tunnel_send ::
  "tunnel_env \<Rightarrow> (PeerId \<times> bytes list) list \<Rightarrow> Tunnel \<Rightarrow> Rng \<Rightarrow> wg_fault + SendResult \<times> Tunnel \<times> Rng" where
  "Tunnel_send env packets (Wireguard e) g =
     bind_res (Endpoint_send (te_crypto env) (te_now env) (te_systime env) packets e) (\<lambda>(ret, e'). Inr (ret, Wireguard e', g))"
| "Tunnel_send env packets (Shadowvpn e) g =
     (case sv_send (te_sv_crypto env) packets e g of (ret, e', g') \<Rightarrow> Inr (ret, Shadowvpn e', g'))"

text \<open>The iteration orders of the backends' hash maps: sessions for WireGuard, peers for ShadowVPN.\<close>

fun Tunnel_recv ::
  "tunnel_env \<Rightarrow> SessionId list \<Rightarrow> PeerId list \<Rightarrow> bytes list \<Rightarrow> Tunnel \<Rightarrow> wg_fault + RecvResult \<times> Tunnel" where
  "Tunnel_recv env sessions peers packets (Wireguard e) =
     bind_res (Endpoint_recv (te_crypto env) (te_now env) sessions packets e) (\<lambda>(ret, e'). Inr (ret, Wireguard e'))"
| "Tunnel_recv env sessions peers packets (Shadowvpn e) = Inr (sv_recv (te_sv_crypto env) peers packets e, Shadowvpn e)"

fun Tunnel_dispatch_events :: "tunnel_env \<Rightarrow> instant \<Rightarrow> Tunnel \<Rightarrow> wg_fault + EventResult \<times> Tunnel" where
  "Tunnel_dispatch_events env now (Wireguard e) =
     bind_res (dispatch_events (te_crypto env) (te_now env) (te_systime env) now e) (\<lambda>(ret, e'). Inr (ret, Wireguard e'))"
| "Tunnel_dispatch_events env now (Shadowvpn e) = Inr (sv_dispatch_events now e, Shadowvpn e)"

fun Tunnel_next_event :: "Tunnel \<Rightarrow> TimeRange option" where
  "Tunnel_next_event (Wireguard e) = next_event e"
| "Tunnel_next_event (Shadowvpn e) = sv_next_event e"

fun Tunnel_peer_key :: "PeerId \<Rightarrow> Tunnel \<Rightarrow> bytes option" where
  "Tunnel_peer_key i (Wireguard e) = peer_key i e"
| "Tunnel_peer_key i (Shadowvpn e) = sv_peer_key i e"

fun Tunnel_peer_id :: "bytes \<Rightarrow> Tunnel \<Rightarrow> PeerId option" where
  "Tunnel_peer_id key (Wireguard e) = peer_id key e"
| "Tunnel_peer_id key (Shadowvpn e) = sv_peer_id key e"

section \<open>The shared contract\<close>

text \<open>What the peer management of a tunnel is: operations on a map from ids to keys.\<close>

datatype table_op = AddPeer PeerId PeerConfig | DropPeer PeerId

type_synonym peer_table = "PeerId \<rightharpoonup> bytes"

fun table_allowed :: "table_op \<Rightarrow> peer_table \<Rightarrow> bool" where
  "table_allowed (AddPeer i cfg) m = (\<forall>j. m j = Some (cfg_key cfg) \<longrightarrow> j = i)"
| "table_allowed (DropPeer i) m = True"

fun table_step :: "table_op \<Rightarrow> peer_table \<Rightarrow> peer_table" where
  "table_step (AddPeer i cfg) m = m(i \<mapsto> cfg_key cfg)"
| "table_step (DropPeer i) m = m(i := None)"

fun table_run_allowed :: "table_op list \<Rightarrow> peer_table \<Rightarrow> bool" where
  "table_run_allowed [] m = True"
| "table_run_allowed (op # ops) m = (table_allowed op m \<and> table_run_allowed ops (table_step op m))"

fun peers_run ::
  "(PeerId \<Rightarrow> PeerConfig \<Rightarrow> 'e \<Rightarrow> wg_fault + PeerConfig option \<times> 'e) \<Rightarrow> (PeerId \<Rightarrow> 'e \<Rightarrow> wg_fault + bool \<times> 'e) \<Rightarrow>
   table_op list \<Rightarrow> 'e \<Rightarrow> wg_fault + 'e" where
  "peers_run up rm [] e = Inr e"
| "peers_run up rm (AddPeer i cfg # ops) e = bind_res (up i cfg e) (\<lambda>(_, e'). peers_run up rm ops e')"
| "peers_run up rm (DropPeer i # ops) e = bind_res (rm i e) (\<lambda>(_, e'). peers_run up rm ops e')"

locale keyed_peers =
  fixes upsert :: "PeerId \<Rightarrow> PeerConfig \<Rightarrow> 'e \<Rightarrow> wg_fault + PeerConfig option \<times> 'e"
    and remove :: "PeerId \<Rightarrow> 'e \<Rightarrow> wg_fault + bool \<times> 'e"
    and key_of :: "PeerId \<Rightarrow> 'e \<Rightarrow> bytes option"
    and id_of :: "bytes \<Rightarrow> 'e \<Rightarrow> PeerId option"
    and inv :: "'e \<Rightarrow> bool"
  assumes index: "inv e \<Longrightarrow> id_of k e = Some i \<longleftrightarrow> key_of i e = Some k"
    and upsert: "inv e \<Longrightarrow> (\<And>j. key_of j e = Some (cfg_key cfg) \<Longrightarrow> j = i) \<Longrightarrow>
      \<exists>old e'. upsert i cfg e = Inr (old, e') \<and> inv e' \<and> map_option cfg_key old = key_of i e \<and>
        (\<lambda>j. key_of j e') = (\<lambda>j. key_of j e)(i \<mapsto> cfg_key cfg)"
    and remove: "inv e \<Longrightarrow> \<exists>e'. remove i e = Inr (key_of i e \<noteq> None, e') \<and> inv e' \<and>
        (\<lambda>j. key_of j e') = (\<lambda>j. key_of j e)(i := None)"
begin

lemma key_of_injective: "inv e \<Longrightarrow> key_of i e = Some k \<Longrightarrow> key_of j e = Some k \<Longrightarrow> i = j"
  using index by (metis option.inject)

lemma run_refines:
  assumes "inv e" and "table_run_allowed ops (\<lambda>i. key_of i e)"
  shows "\<exists>e'. peers_run upsert remove ops e = Inr e' \<and> inv e' \<and> (\<lambda>i. key_of i e') = fold table_step ops (\<lambda>i. key_of i e)"
  using assms
proof (induction ops arbitrary: e)
  case (Cons op ops)
  show ?case
  proof (cases op)
    case (AddPeer i cfg)
    then obtain old e' where e': "upsert i cfg e = Inr (old, e')" "inv e'"
      "(\<lambda>j. key_of j e') = (\<lambda>j. key_of j e)(i \<mapsto> cfg_key cfg)"
      using upsert [OF Cons.prems(1), of cfg i] Cons.prems(2) by (simp, blast)
    then show ?thesis using Cons.IH [of e'] Cons.prems(2) AddPeer by simp
  next
    case (DropPeer i)
    obtain b e' where e': "remove i e = Inr (b, e')" "inv e'" "(\<lambda>j. key_of j e') = (\<lambda>j. key_of j e)(i := None)"
      using remove [OF Cons.prems(1), of i] by blast
    then show ?thesis using Cons.IH [of e'] Cons.prems(2) DropPeer by simp
  qed
qed simp

end

section \<open>The backends fulfil the contract\<close>

lemma bind_res_Inl: "bind_res r f = Inl e \<longleftrightarrow> r = Inl e \<or> (\<exists>x. r = Inr x \<and> f x = Inl e)"
  by (auto simp: bind_res_def split: sum.splits)

text \<open>Removing a peer can only fail on an unregistered id or key, never on the tolerated faults.\<close>

lemma remove_peer_fault: "remove_peer i ep = Inl e \<Longrightarrow> \<not> tolerated e"
  by (cases "ep_peers ep i"; cases "p_session (the (ep_peers ep i))")
    (auto simp: remove_peer_def shutdown_def bind_res_Inl remove_handshake_session_def remove_session_def remove_prev_def
      IdMap_remove_peer_def tolerated_def split: option.splits if_splits)

lemma remove_peer_keys: "remove_peer i ep = Inr (b, ep') \<Longrightarrow>
    b = (ep_peers ep i \<noteq> None) \<and> ep_peers ep' = (ep_peers ep)(i := None)"
  by (auto simp: remove_peer_def bind_res_Inr split: option.splits)

lemma upsert_peer_keys:
  assumes "upsert_peer C i cfg ep = Inr (old, ep')"
  shows "map_option cfg_key old = peer_key i ep \<and> (\<lambda>j. peer_key j ep') = (\<lambda>j. peer_key j ep)(i \<mapsto> cfg_key cfg)"
  using assms
  by (auto simp: upsert_peer_def bind_res_Inr Let_def put_peer_def peer_key_def Peer_new_def fun_eq_iff
      split: option.splits prod.splits bool.splits)

lemma upsert_peer_total:
  assumes "ep_inv ep" and "\<And>j. peer_key j ep = Some (cfg_key cfg) \<Longrightarrow> j = i"
  shows "\<exists>old ep'. upsert_peer C i cfg ep = Inr (old, ep') \<and> ep_inv ep'"
proof -
  have "op_allowed (OpUpsert i cfg) ep"
    using assms by (auto simp: peer_id_def get_by_nodekey_def peer_key_def ep_invD(3) split: option.splits)
  then have "safe (upsert_peer C i cfg ep) (\<lambda>(_, ep'). ep_inv ep')"
    using assms(1) by (cases "ep_peers ep i") (auto intro: safe_upsert_insert safe_upsert_update)
  moreover have "\<not> tolerated e" if "upsert_peer C i cfg ep = Inl e" for e
    using that by (auto simp: upsert_peer_def bind_res_Inl IdMap_remove_peer_def tolerated_def Let_def
        split: option.splits prod.splits bool.splits if_splits)
  ultimately show ?thesis by (cases "upsert_peer C i cfg ep") (auto simp: safe_def)
qed

interpretation wg: keyed_peers "upsert_peer C" remove_peer peer_key peer_id ep_inv for C
proof unfold_locales
  fix e k i assume inv: "ep_inv e"
  show "peer_id k e = Some i \<longleftrightarrow> peer_key i e = Some k"
    using inv by (auto simp: peer_id_def get_by_nodekey_def peer_key_def ep_invD(3))
  have "safe (remove_peer i e) (\<lambda>(_, ep'). ep_inv ep')" by (rule safe_remove_peer [OF inv])
  then obtain b e' where "remove_peer i e = Inr (b, e')" "ep_inv e'"
    using remove_peer_fault [of i e] by (cases "remove_peer i e") (auto simp: safe_def)
  with remove_peer_keys [OF this(1)]
  show "\<exists>e'. remove_peer i e = Inr (peer_key i e \<noteq> None, e') \<and> ep_inv e' \<and>
      (\<lambda>j. peer_key j e') = (\<lambda>j. peer_key j e)(i := None)"
    by (auto simp: peer_key_def fun_eq_iff)
next
  fix e and cfg :: PeerConfig and i assume "ep_inv e" and "\<And>j. peer_key j e = Some (cfg_key cfg) \<Longrightarrow> j = i"
  from upsert_peer_total [OF this, where C = C] obtain old e' where "upsert_peer C i cfg e = Inr (old, e')" "ep_inv e'" by blast
  with upsert_peer_keys [OF this(1)]
  show "\<exists>old e'. upsert_peer C i cfg e = Inr (old, e') \<and> ep_inv e' \<and> map_option cfg_key old = peer_key i e \<and>
      (\<lambda>j. peer_key j e') = (\<lambda>j. peer_key j e)(i \<mapsto> cfg_key cfg)" by blast
qed

interpretation sv: keyed_peers sv_upsert_peer "\<lambda>i e. Inr (sv_remove_peer i e)" sv_peer_key sv_peer_id sv_inv
proof unfold_locales
  fix e k i assume inv: "sv_inv e"
  show "sv_peer_id k e = Some i \<longleftrightarrow> sv_peer_key i e = Some k"
    using inv by (auto simp: sv_peer_id_def sv_peer_key_def sv_inv_def)
  obtain b e' where rm: "sv_remove_peer i e = (b, e')" by (cases "sv_remove_peer i e")
  from sv_inv_remove [OF inv rm] rm
  show "\<exists>e'. Inr (sv_remove_peer i e) = Inr (sv_peer_key i e \<noteq> None, e') \<and> sv_inv e' \<and>
      (\<lambda>j. sv_peer_key j e') = (\<lambda>j. sv_peer_key j e)(i := None)"
    by (auto simp: sv_remove_peer_def sv_peer_key_def fun_eq_iff split: option.splits)
next
  fix e and cfg :: PeerConfig and i assume inv: "sv_inv e" and free: "\<And>j. sv_peer_key j e = Some (cfg_key cfg) \<Longrightarrow> j = i"
  have "\<not> (case sve_by_key e (cfg_key cfg) of Some existing \<Rightarrow> existing \<noteq> i | None \<Rightarrow> False)"
    using inv free by (auto simp: sv_inv_def sv_peer_key_def split: option.splits)
  then obtain old e' where up: "sv_upsert_peer i cfg e = Inr (old, e')"
    and "map_option cfg_key old = sv_peer_key i e" "(\<lambda>j. sv_peer_key j e') = (\<lambda>j. sv_peer_key j e)(i \<mapsto> cfg_key cfg)"
    by (cases "sve_peers e i") (auto simp: sv_upsert_peer_def Let_def SvPeer_new_def sv_peer_key_def fun_eq_iff)
  with sv_inv_upsert [OF inv up]
  show "\<exists>old e'. sv_upsert_peer i cfg e = Inr (old, e') \<and> sv_inv e' \<and> map_option cfg_key old = sv_peer_key i e \<and>
      (\<lambda>j. sv_peer_key j e') = (\<lambda>j. sv_peer_key j e)(i \<mapsto> cfg_key cfg)" by blast
qed

fun tunnel_inv :: "Tunnel \<Rightarrow> bool" where
  "tunnel_inv (Wireguard e) = ep_inv e"
| "tunnel_inv (Shadowvpn e) = sv_inv e"

interpretation tunnel: keyed_peers "Tunnel_upsert_peer env" Tunnel_remove_peer Tunnel_peer_key Tunnel_peer_id tunnel_inv for env
proof unfold_locales
  fix e k i assume "tunnel_inv e"
  then show "Tunnel_peer_id k e = Some i \<longleftrightarrow> Tunnel_peer_key i e = Some k"
    by (cases e) (auto simp: wg.index sv.index)
  from \<open>tunnel_inv e\<close> show "\<exists>e'. Tunnel_remove_peer i e = Inr (Tunnel_peer_key i e \<noteq> None, e') \<and> tunnel_inv e' \<and>
      (\<lambda>j. Tunnel_peer_key j e') = (\<lambda>j. Tunnel_peer_key j e)(i := None)"
  proof (cases e)
    case (Wireguard w)
    then show ?thesis using wg.remove [of w i] \<open>tunnel_inv e\<close> by (force simp: fun_eq_iff)
  next
    case (Shadowvpn v)
    then show ?thesis using sv.remove [of v i] \<open>tunnel_inv e\<close> by (force simp: fun_eq_iff)
  qed
next
  fix e and cfg :: PeerConfig and i assume inv: "tunnel_inv e" and free: "\<And>j. Tunnel_peer_key j e = Some (cfg_key cfg) \<Longrightarrow> j = i"
  show "\<exists>old e'. Tunnel_upsert_peer env i cfg e = Inr (old, e') \<and> tunnel_inv e' \<and> map_option cfg_key old = Tunnel_peer_key i e \<and>
      (\<lambda>j. Tunnel_peer_key j e') = (\<lambda>j. Tunnel_peer_key j e)(i \<mapsto> cfg_key cfg)"
  proof (cases e)
    case (Wireguard w)
    obtain old w' where "upsert_peer (te_crypto env) i cfg w = Inr (old, w') \<and> ep_inv w' \<and> map_option cfg_key old = peer_key i w \<and>
      (\<lambda>j. peer_key j w') = (\<lambda>j. peer_key j w)(i \<mapsto> cfg_key cfg)"
      using wg.upsert [of w cfg i "te_crypto env"] inv free Wireguard by auto
    with Wireguard show ?thesis by (auto simp: fun_eq_iff)
  next
    case (Shadowvpn v)
    obtain old v' where "sv_upsert_peer i cfg v = Inr (old, v') \<and> sv_inv v' \<and> map_option cfg_key old = sv_peer_key i v \<and>
      (\<lambda>j. sv_peer_key j v') = (\<lambda>j. sv_peer_key j v)(i \<mapsto> cfg_key cfg)"
      using sv.upsert [of v cfg i] inv free Shadowvpn by auto
    with Shadowvpn show ?thesis by (auto simp: fun_eq_iff)
  qed
qed

lemma tunnel_inv_new: "tunnel_inv (fst (Tunnel_new env ent g protocol k))"
  by (auto simp: Tunnel_new_def ep_inv_new sv_new_def sv_inv_with_config split: Protocol.splits prod.splits)

lemma Tunnel_new_no_peers: "Tunnel_peer_key i (fst (Tunnel_new env ent g protocol k)) = None"
  by (auto simp: Tunnel_new_def Endpoint_new_def peer_key_def sv_new_def sv_with_config_def sv_peer_key_def
      split: Protocol.splits prod.splits)

lemma peers_run_protocol:
  "peers_run (Tunnel_upsert_peer env) Tunnel_remove_peer ops t = Inr t' \<Longrightarrow> Tunnel_protocol t' = Tunnel_protocol t"
proof (induction "Tunnel_upsert_peer env" Tunnel_remove_peer ops t rule: peers_run.induct)
  case (2 i cfg ops t)
  then show ?case by (cases t) (fastforce simp: bind_res_Inr)+
next
  case (3 i ops t)
  then show ?case by (cases t) (fastforce simp: bind_res_Inr split: prod.splits)+
qed simp

text \<open>
  C18. Whatever the protocol, the peer management of a tunnel refines a map from peer ids to
  node keys: a sequence of updates that never gives one key to two peers succeeds without a
  panic, and both lookups then answer from the map.
\<close>

theorem tunnel_peers_refine_map:
  assumes "table_run_allowed ops Map.empty"
  shows "\<exists>t. peers_run (Tunnel_upsert_peer env) Tunnel_remove_peer ops (fst (Tunnel_new env ent g protocol k)) = Inr t \<and>
     Tunnel_protocol t = protocol \<and>
     (\<forall>i. Tunnel_peer_key i t = fold table_step ops Map.empty i) \<and>
     (\<forall>i key. Tunnel_peer_id key t = Some i \<longleftrightarrow> fold table_step ops Map.empty i = Some key)"
proof -
  let ?t = "fst (Tunnel_new env ent g protocol k)"
  have empty: "(\<lambda>i. Tunnel_peer_key i ?t) = Map.empty" by (simp add: Tunnel_new_no_peers)
  obtain t where t: "peers_run (Tunnel_upsert_peer env) Tunnel_remove_peer ops ?t = Inr t" "tunnel_inv t"
    "(\<lambda>i. Tunnel_peer_key i t) = fold table_step ops Map.empty"
    using tunnel.run_refines [OF tunnel_inv_new, of ops env ent g protocol k env] assms unfolding empty by blast
  moreover have "Tunnel_protocol ?t = protocol" by (auto simp: Tunnel_new_def split: Protocol.splits prod.splits)
  ultimately show ?thesis using peers_run_protocol [OF t(1)] tunnel.index [OF t(2)] by (metis (no_types, lifting))
qed

definition sample_env :: tunnel_env where
  "sample_env = \<lparr>te_crypto = sample_crypto, te_sv_crypto = sample_sv_crypto, te_now = 0, te_systime = 0\<rparr>"

definition sample_tunnel :: "Protocol \<Rightarrow> Tunnel" where
  "sample_tunnel protocol = fst (Tunnel_new sample_env \<lparr>en_ids = [11, 12], en_keys = (\<lambda>_. [9]), en_next = 0\<rparr> sample_rng
     protocol (keypair sample_crypto [1]))"

theorem tunnel_peers_refine_map_witness:
  "\<exists>t. peers_run (Tunnel_upsert_peer sample_env) Tunnel_remove_peer
       [AddPeer 1 \<lparr>cfg_key = [1], cfg_psk = []\<rparr>, AddPeer 2 \<lparr>cfg_key = [2], cfg_psk = []\<rparr>, DropPeer 1]
       (sample_tunnel Shadowvpn_p) = Inr t \<and>
     Tunnel_peer_key 1 t = None \<and> Tunnel_peer_key 2 t = Some [2] \<and> Tunnel_peer_id [2] t = Some 2"
proof -
  let ?ops = "[AddPeer 1 \<lparr>cfg_key = [1], cfg_psk = []\<rparr>, AddPeer 2 \<lparr>cfg_key = [2], cfg_psk = []\<rparr>, DropPeer 1]"
  have "table_run_allowed ?ops Map.empty" by (simp split: if_splits)
  from tunnel_peers_refine_map [OF this, of sample_env "\<lparr>en_ids = [11, 12], en_keys = (\<lambda>_. [9]), en_next = 0\<rparr>" sample_rng Shadowvpn_p
      "keypair sample_crypto [1]"]
  show ?thesis unfolding sample_tunnel_def by (auto simp del: Tunnel_peer_key.simps Tunnel_peer_id.simps)
qed

end
