(* ===== verification/Data_Plane.thy ===== *)
theory Data_Plane
  imports Routers Packet_Filter Tunnel
begin

text \<open>
  The data plane (\<open>ts_dataplane/src/lib.rs\<close>): the composition of the tunnel, the routers, the
  source filter, the packet filter and the timer queue.  The crate \<open>etherparse\<close> is a parameter.
  Iteration orders of hash maps are arguments.
\<close>

section \<open>Definitions\<close>

text \<open>The parts of a parsed packet the data plane reads.\<close>

datatype NetSlice = Ipv4Slice u8 IpAddr IpAddr | Ipv6Slice u8 IpAddr IpAddr | ArpSlice

datatype TransportSlice = UdpSlice u16 u16 | TcpSlice u16 u16 | OtherSlice

record SlicedPacket =
  sp_net :: "NetSlice option"
  sp_transport :: "TransportSlice option"

type_synonym from_ip = "bytes \<Rightarrow> SlicedPacket option"

text \<open>The crate parses an IP packet only: what it returns for one has an IP header.\<close>

definition from_ip_ok :: "from_ip \<Rightarrow> bool" where
  "from_ip_ok F \<longleftrightarrow> (\<forall>p s. F p = Some s \<longrightarrow> (\<exists>n src dst. sp_net s = Some (Ipv4Slice n src dst) \<or> sp_net s = Some (Ipv6Slice n src dst)))"

datatype Subsystem = Tunnel_s

datatype dp_fault = TunnelFault wg_fault | DpPanic

record 'n DataPlane =
  dp_tunnel :: Tunnel
  dp_or_out :: "'n OutRouter"
  dp_ur_out :: UnderlayRouter
  dp_src_filter_in :: "('n, PeerId) SplitStackTable"
  dp_or_in :: "'n InRouter"
  dp_packet_filter :: filter_fn
  dp_events :: "Subsystem Scheduler"
  dp_tunnel_next :: "handle option"

record 'n dp_env =
  de_tunnel :: tunnel_env
  de_net :: "'n ipnet"
  de_from_ip :: from_ip

definition of_tunnel :: "wg_fault + 'a \<Rightarrow> dp_fault + 'a" where
  "of_tunnel r = map_sum TunnelFault (\<lambda>x. x) r"

definition of_option :: "'a option \<Rightarrow> dp_fault + 'a" where
  "of_option r = (case r of None \<Rightarrow> Inl DpPanic | Some x \<Rightarrow> Inr x)"

definition bind_dp :: "dp_fault + 'a \<Rightarrow> ('a \<Rightarrow> dp_fault + 'b) \<Rightarrow> dp_fault + 'b" where
  "bind_dp r f = (case r of Inl e \<Rightarrow> Inl e | Inr x \<Rightarrow> f x)"

definition DataPlane_new :: "'n dp_env \<Rightarrow> Entropy \<Rightarrow> Rng \<Rightarrow> Protocol \<Rightarrow> X25519KeyPair \<Rightarrow> 'n DataPlane \<times> Rng" where
  "DataPlane_new env ent g protocol my_key =
     (case Tunnel_new (de_tunnel env) ent g protocol my_key of (t, g') \<Rightarrow>
        (\<lparr>dp_tunnel = t, dp_or_out = OutRouter_default, dp_ur_out = UnderlayRouter_default,
          dp_src_filter_in = SplitStackTable_EMPTY, dp_or_in = InRouter_default,
          dp_packet_filter = (\<lambda>info caps. Some (DropAllFilter info caps \<noteq> None)),
          dp_events = Scheduler_default, dp_tunnel_next = None\<rparr>, g'))"

definition map_iter :: "'k list \<Rightarrow> ('k \<rightharpoonup> 'v) \<Rightarrow> ('k \<times> 'v) list" where
  [rust_std]: "map_iter order m = List.map_filter (\<lambda>k. map_option (Pair k) (m k)) order"

text \<open>The timer of the tunnel, rearmed at the end of every operation.\<close>

definition arm_tunnel :: "'n DataPlane \<Rightarrow> 'n DataPlane" where
  "arm_tunnel dp =
     (case Tunnel_next_event (dp_tunnel dp) of
        None \<Rightarrow> dp
      | Some next \<Rightarrow>
          (let (h, events) = Scheduler_add next Tunnel_s (dp_events dp);
               prev = dp_tunnel_next dp
           in dp\<lparr>dp_tunnel_next := Some h,
                 dp_events := (case prev of Some prev \<Rightarrow> Handle_cancel prev events | None \<Rightarrow> events)\<rparr>))"

record OutboundResult =
  ob_to_peers :: underlay_result
  ob_loopback :: "OverlayTransportId \<rightharpoonup> bytes list"

record InboundResult =
  ib_to_local :: "OverlayTransportId \<rightharpoonup> bytes list"
  ib_to_peers :: underlay_result

definition process_outbound ::
  "'n dp_env \<Rightarrow> IpAddr list \<Rightarrow> PeerId list \<Rightarrow> PeerId list \<Rightarrow> bytes list \<Rightarrow> 'n DataPlane \<Rightarrow> Rng \<Rightarrow>
   dp_fault + OutboundResult \<times> 'n DataPlane \<times> Rng" where
  "process_outbound env dests order order' packets dp g =
     bind_dp (of_option (OutRouter_route (de_net env) dests packets (dp_or_out dp))) (\<lambda>routed.
     bind_dp (of_tunnel (Tunnel_send (de_tunnel env) (map_iter order (to_wireguard routed)) (dp_tunnel dp) g)) (\<lambda>(encrypted, tunnel, g').
       let to_peers = UnderlayRouter_route (dp_ur_out dp) (map_iter order' (sr_to_peers encrypted));
           dp' = arm_tunnel (dp\<lparr>dp_tunnel := tunnel\<rparr>)
       in Inr (\<lparr>ob_to_peers = to_peers, ob_loopback = loopback routed\<rparr>, dp', g')))"

fun retain :: "('a \<Rightarrow> bool option) \<Rightarrow> 'a list \<Rightarrow> 'a list option" where
  "retain f [] = Some []"
| "retain f (x # xs) = do { keep \<leftarrow> f x; rest \<leftarrow> retain f xs; Some (if keep then x # rest else rest) }"

definition src_verdict :: "'n ipnet \<Rightarrow> ('n, PeerId) SplitStackTable \<Rightarrow> PeerId \<Rightarrow> bytes \<Rightarrow> bool option" where
  "src_verdict N t peer packet =
     (case get_src_addr packet of
        None \<Rightarrow> Some False
      | Some src \<Rightarrow>
          do {
            allowed \<leftarrow> tbl_lookup N t src;
            Some (case allowed of Some allowed_peer \<Rightarrow> allowed_peer = peer | None \<Rightarrow> False)
          })"

definition packet_info :: "SlicedPacket \<Rightarrow> PacketInfo option" where
  "packet_info pkt =
     (let dst_port = (case sp_transport pkt of
            Some (UdpSlice _ d) \<Rightarrow> d
          | Some (TcpSlice _ d) \<Rightarrow> d
          | _ \<Rightarrow> 0)
      in case sp_net pkt of
           Some (Ipv4Slice n src dst) \<Rightarrow> Some \<lparr>pk_src = src, pk_dst = dst, pk_ip_proto = ucast n, pk_port = dst_port\<rparr>
         | Some (Ipv6Slice n src dst) \<Rightarrow> Some \<lparr>pk_src = src, pk_dst = dst, pk_ip_proto = ucast n, pk_port = dst_port\<rparr>
         | _ \<Rightarrow> None)"

definition filter_verdict :: "from_ip \<Rightarrow> filter_fn \<Rightarrow> bytes \<Rightarrow> bool option" where
  "filter_verdict F can_access packet =
     (case F packet of
        None \<Rightarrow> Some False
      | Some pkt \<Rightarrow> do { info \<leftarrow> packet_info pkt; can_access info [] })"

fun inbound_packets ::
  "'n dp_env \<Rightarrow> 'n DataPlane \<Rightarrow> (PeerId \<times> bytes list) list \<Rightarrow> bytes list option" where
  "inbound_packets env dp [] = Some []"
| "inbound_packets env dp ((peer, packets) # rest) =
     do {
       v \<leftarrow> retain (src_verdict (de_net env) (dp_src_filter_in dp) peer) packets;
       v' \<leftarrow> retain (filter_verdict (de_from_ip env) (dp_packet_filter dp)) v;
       vs \<leftarrow> inbound_packets env dp rest;
       Some (v' @ vs)
     }"

definition process_inbound ::
  "'n dp_env \<Rightarrow> SessionId list \<Rightarrow> PeerId list \<Rightarrow> PeerId list \<Rightarrow> PeerId list \<Rightarrow> bytes list \<Rightarrow> 'n DataPlane \<Rightarrow>
   dp_fault + InboundResult \<times> 'n DataPlane" where
  "process_inbound env sessions peers order order' packets dp =
     bind_dp (of_tunnel (Tunnel_recv (de_tunnel env) sessions peers packets (dp_tunnel dp))) (\<lambda>(received, tunnel).
     bind_dp (of_option (inbound_packets env dp (map_iter order (rr_to_local received)))) (\<lambda>local.
     bind_dp (of_option (InRouter_route (de_net env) local (dp_or_in dp))) (\<lambda>to_local.
       let to_peers = UnderlayRouter_route (dp_ur_out dp) (map_iter order' (rr_to_peers received));
           dp' = arm_tunnel (dp\<lparr>dp_tunnel := tunnel\<rparr>)
       in Inr (\<lparr>ib_to_local = to_local, ib_to_peers = to_peers\<rparr>, dp'))))"

definition dp_next_event :: "'n DataPlane \<Rightarrow> instant option" where
  "dp_next_event dp = next_dispatch (dp_events dp)"

fun process_each ::
  "'n dp_env \<Rightarrow> instant \<Rightarrow> Subsystem list \<Rightarrow> packets_by_peer \<Rightarrow> Tunnel \<Rightarrow> dp_fault + packets_by_peer \<times> Tunnel" where
  "process_each env now [] to_peers t = Inr (to_peers, t)"
| "process_each env now (Tunnel_s # rest) to_peers t =
     bind_dp (of_tunnel (Tunnel_dispatch_events (de_tunnel env) now t)) (\<lambda>(res, t').
       process_each env now rest (to_peers ++ er_to_peers res) t')"

definition process_events ::
  "'n dp_env \<Rightarrow> PeerId list \<Rightarrow> 'n DataPlane \<Rightarrow> dp_fault + underlay_result \<times> 'n DataPlane" where
  "process_events env order dp =
     (let now = te_now (de_tunnel env);
          (due, events) = Scheduler_dispatch now (dp_events dp)
      in bind_dp (process_each env now due Map.empty (dp_tunnel dp)) (\<lambda>(to_peers, tunnel).
           let routed = UnderlayRouter_route (dp_ur_out dp) (map_iter order to_peers)
           in Inr (routed, arm_tunnel (dp\<lparr>dp_tunnel := tunnel, dp_events := events\<rparr>))))"

section \<open>Sequencing and filtering\<close>

definition safe_dp :: "dp_fault + 'a \<Rightarrow> ('a \<Rightarrow> bool) \<Rightarrow> bool" where
  "safe_dp r Q = (case r of Inl (TunnelFault e) \<Rightarrow> tolerated e | Inl DpPanic \<Rightarrow> False | Inr x \<Rightarrow> Q x)"

lemma bind_dp_simps [simp]: "bind_dp (Inr x) f = f x" "bind_dp (Inl e) f = Inl e"
  by (simp_all add: bind_dp_def)

lemma of_simps [simp]:
  "of_option (Some x) = Inr x" "of_option None = Inl DpPanic"
  "of_tunnel (Inr x) = Inr x" "of_tunnel (Inl e) = Inl (TunnelFault e)"
  by (simp_all add: of_option_def of_tunnel_def)

lemma safe_dp_Inr [simp]: "safe_dp (Inr x) Q = Q x"
  by (simp add: safe_dp_def)

lemma safe_dp_tunnel: "safe r Q \<Longrightarrow> (\<And>x. Q x \<Longrightarrow> safe_dp (f x) R) \<Longrightarrow> safe_dp (bind_dp (of_tunnel r) f) R"
  by (cases r) (auto simp: safe_def safe_dp_def)

lemma retain_total: "(\<And>x. x \<in> set xs \<Longrightarrow> f x \<noteq> None) \<Longrightarrow> retain f xs = Some (filter (\<lambda>x. f x = Some True) xs)"
  by (induction xs) fastforce+

lemma map_iter_batches:
  assumes "distinct order" and "dom m \<subseteq> set order"
  shows "concat (map snd (filter (\<lambda>b. fst b = k) (map_iter order m))) = entry_list m k"
proof -
  have "concat (map snd (filter (\<lambda>b. fst b = k) (map_iter order m))) = (if k \<in> set order then entry_list m k else [])"
    using assms(1)
    by (induction order) (auto simp: map_iter_def map_filter_simps entry_list_def split: option.split)
  moreover have "k \<notin> set order \<Longrightarrow> entry_list m k = []" using assms(2) by (auto simp: entry_list_def split: option.split)
  ultimately show ?thesis by simp
qed

lemma map_iter_empty [simp]: "map_iter order Map.empty = []"
  by (induction order) (simp_all add: map_iter_def map_filter_simps)

lemma underlay_batches:
  assumes "distinct order" and "dom m \<subseteq> set order"
  shows "entry_list (UnderlayRouter_route r (map_iter order m)) (tr, peer) = (if ur_table r peer = Some tr then entry_list m peer else [])"
  by (simp add: UnderlayRouter_route_list map_iter_batches [OF assms])

section \<open>The source filter and the packet filter\<close>

text \<open>The peer that the source filter assigns a packet's source address to.\<close>

definition sender :: "'n ipnet \<Rightarrow> ('n, PeerId) SplitStackTable \<Rightarrow> bytes \<Rightarrow> PeerId option" where
  "sender N t p = Option.bind (get_src_addr p) (hop_of N t)"

lemma src_verdict_sender:
  assumes "ipnet_ok N" and "tbl_ok N t"
  shows "src_verdict N t peer p = Some (sender N t p = Some peer)"
proof (cases "get_src_addr p")
  case (Some a)
  with lookup_hop [OF assms get_src_addr_wf [OF Some]] show ?thesis
    by (simp add: src_verdict_def sender_def split: option.split)
qed (simp add: src_verdict_def sender_def)

lemma filter_verdict_total:
  assumes "from_ip_ok F" and "\<And>info caps. can_access info caps \<noteq> None"
  shows "filter_verdict F can_access p \<noteq> None"
proof (cases "F p")
  case (Some s)
  then obtain n src dst where "sp_net s = Some (Ipv4Slice n src dst) \<or> sp_net s = Some (Ipv6Slice n src dst)"
    using assms(1) unfolding from_ip_ok_def by blast
  then have "packet_info s \<noteq> None" by (auto simp: packet_info_def Let_def)
  with Some assms(2) show ?thesis by (auto simp: filter_verdict_def)
qed (simp add: filter_verdict_def)

definition accepts :: "'n dp_env \<Rightarrow> 'n DataPlane \<Rightarrow> PeerId \<Rightarrow> bytes \<Rightarrow> bool" where
  "accepts env dp peer p \<longleftrightarrow> sender (de_net env) (dp_src_filter_in dp) p = Some peer \<and>
     filter_verdict (de_from_ip env) (dp_packet_filter dp) p = Some True"

text \<open>What the crates are assumed to do, and the invariant of the data plane.\<close>

definition env_ok :: "'n dp_env \<Rightarrow> bool" where
  "env_ok env \<longleftrightarrow> ipnet_ok (de_net env) \<and> from_ip_ok (de_from_ip env)"

definition timer_inv :: "'n DataPlane \<Rightarrow> bool" where
  "timer_inv dp \<longleftrightarrow> sched_inv (dp_events dp) \<and> ev_id ` set (sched_events (dp_events dp)) \<subseteq> set_option (dp_tunnel_next dp) \<and>
     (\<forall>h\<in>set_option (dp_tunnel_next dp). h < sched_next (dp_events dp))"

definition dp_inv :: "'n dp_env \<Rightarrow> 'n DataPlane \<Rightarrow> bool" where
  "dp_inv env dp \<longleftrightarrow> tunnel_inv (dp_tunnel dp) \<and> timer_inv dp \<and> tbl_ok (de_net env) (or_out_table (dp_or_out dp)) \<and>
     tbl_ok (de_net env) (dp_src_filter_in dp) \<and> tbl_ok (de_net env) (or_in_table (dp_or_in dp)) \<and>
     (\<forall>info caps. dp_packet_filter dp info caps \<noteq> None)"

lemma inbound_packets_spec:
  assumes "env_ok env" and "dp_inv env dp"
  shows "inbound_packets env dp batches = Some (concat (map (\<lambda>(peer, ps). filter (accepts env dp peer) ps) batches))"
proof (induction batches)
  case (Cons b batches)
  obtain peer ps where b: "b = (peer, ps)" by (cases b)
  have src: "src_verdict (de_net env) (dp_src_filter_in dp) peer p = Some (sender (de_net env) (dp_src_filter_in dp) p = Some peer)" for p
    using assms by (intro src_verdict_sender) (auto simp: env_ok_def dp_inv_def)
  have filt: "filter_verdict (de_from_ip env) (dp_packet_filter dp) p \<noteq> None" for p
    using assms by (intro filter_verdict_total) (auto simp: env_ok_def dp_inv_def)
  show ?case
    using Cons by (simp add: b src filt retain_total accepts_def [abs_def] conj_commute)
qed simp

lemma concat_accepted:
  assumes "distinct order" and "dom m \<subseteq> set order" and "\<And>k p. P k p \<Longrightarrow> d p = Some k"
  shows "filter (\<lambda>p. d p = Some k) (filter Q (concat (map (\<lambda>(k, ps). filter (P k) ps) (map_iter order m)))) =
     filter (\<lambda>p. P k p \<and> Q p) (entry_list m k)"
proof -
  have "filter (\<lambda>p. d p = Some k) (filter Q (filter (P j) ps)) = (if j = k then filter (\<lambda>p. P k p \<and> Q p) ps else [])" for j ps
    using assms(3) by (induction ps) auto
  then have "filter (\<lambda>p. d p = Some k) (filter Q (concat (map (\<lambda>(k, ps). filter (P k) ps) bs))) =
      filter (\<lambda>p. P k p \<and> Q p) (concat (map snd (filter (\<lambda>b. fst b = k) bs)))" for bs
    by (induction bs) auto
  then show ?thesis by (simp add: map_iter_batches [OF assms(1,2)])
qed

section \<open>The timer of the tunnel\<close>

lemma next_dispatch_range_ordered: "next_dispatch_range s = Some r \<Longrightarrow> tr_start r \<le> tr_end r"
  by (auto simp: next_dispatch_range_def TimeRange_new_def split: list.splits if_splits)

lemma Tunnel_next_event_ordered: "Tunnel_next_event t = Some r \<Longrightarrow> tr_start r \<le> tr_end r"
  by (cases t) (auto simp: next_event_def sv_next_event_def dest: next_dispatch_range_ordered)

text \<open>After an operation, the timer queue holds exactly the tunnel's next event.\<close>

definition armed :: "TimeRange \<Rightarrow> 'n DataPlane \<Rightarrow> bool" where
  "armed r dp \<longleftrightarrow> (\<exists>h. dp_tunnel_next dp = Some h \<and>
     sched_events (dp_events dp) = [\<lparr>ev_id = h, ev_when = r, ev_what = Tunnel_s\<rparr>])"

lemma filter_insert_at: "filter P (insert_at i x xs) = filter P (take i xs) @ filter P [x] @ filter P (drop i xs)"
  by (simp add: insert_at_def)

lemma arm_tunnel_armed:
  assumes "timer_inv dp" and r: "Tunnel_next_event (dp_tunnel dp) = Some r"
  shows "timer_inv (arm_tunnel dp)" and "armed r (arm_tunnel dp)"
proof -
  let ?s = "dp_events dp" and ?h = "sched_next (dp_events dp)"
  let ?ev = "\<lparr>ev_id = ?h, ev_when = r, ev_what = Tunnel_s\<rparr>"
  let ?i = "partition_point (sched_events ?s) (tr_start r)"
  let ?s' = "?s\<lparr>sched_events := insert_at ?i ?ev (sched_events ?s), sched_next := Suc ?h\<rparr>"
  have add: "Scheduler_add r Tunnel_s ?s = (?h, ?s')" by (simp add: Scheduler_add_def Let_def)
  have inv: "sched_inv ?s'"
    using sched_inv_add [of ?s r Tunnel_s] Tunnel_next_event_ordered [OF r] assms(1) add by (simp add: timer_inv_def)
  have "sched_events (dp_events (arm_tunnel dp)) = [?ev] \<and> sched_next (dp_events (arm_tunnel dp)) = Suc ?h \<and> sched_inv (dp_events (arm_tunnel dp))"
  proof (cases "dp_tunnel_next dp")
    case None
    then have "sched_events ?s = []" using assms(1) by (simp add: timer_inv_def)
    with None inv show ?thesis by (simp add: arm_tunnel_def r add insert_at_def)
  next
    case (Some prev)
    then have prev: "\<And>e. e \<in> set (sched_events ?s) \<Longrightarrow> ev_id e = prev" "prev < ?h" using assms(1) by (auto simp: timer_inv_def)
    have "filter (\<lambda>e. ev_id e \<noteq> prev) (insert_at ?i ?ev (sched_events ?s)) = [?ev]"
    proof -
      have "filter (\<lambda>e. ev_id e \<noteq> prev) (take n (sched_events ?s)) = []" "filter (\<lambda>e. ev_id e \<noteq> prev) (drop n (sched_events ?s)) = []" for n
        using prev(1) by (auto simp: filter_empty_conv dest: in_set_takeD in_set_dropD)
      with prev(2) show ?thesis by (simp add: filter_insert_at)
    qed
    with Some inv sched_inv_cancel [OF inv, of prev] show ?thesis by (simp add: arm_tunnel_def r add cancel_eq [OF inv])
  qed
  moreover have "dp_tunnel_next (arm_tunnel dp) = Some ?h" by (simp add: arm_tunnel_def r add)
  ultimately show "timer_inv (arm_tunnel dp)" and "armed r (arm_tunnel dp)" by (simp_all add: timer_inv_def armed_def)
qed

lemma arm_tunnel_idle: "Tunnel_next_event (dp_tunnel dp) = None \<Longrightarrow> arm_tunnel dp = dp"
  by (simp add: arm_tunnel_def)

lemma arm_tunnel_fields [simp]:
  "dp_tunnel (arm_tunnel dp) = dp_tunnel dp" "dp_or_out (arm_tunnel dp) = dp_or_out dp"
  "dp_ur_out (arm_tunnel dp) = dp_ur_out dp" "dp_src_filter_in (arm_tunnel dp) = dp_src_filter_in dp"
  "dp_or_in (arm_tunnel dp) = dp_or_in dp" "dp_packet_filter (arm_tunnel dp) = dp_packet_filter dp"
  by (simp_all add: arm_tunnel_def Let_def split: option.split prod.split)

text \<open>An operation leaves the timer armed for the tunnel's next event, when it has one.\<close>

definition timer_set :: "'n DataPlane \<Rightarrow> bool" where
  "timer_set dp \<longleftrightarrow> (\<forall>r. Tunnel_next_event (dp_tunnel dp) = Some r \<longrightarrow> armed r dp)"

lemma dp_inv_arm:
  assumes "dp_inv env dp" and "tunnel_inv t" and "timer_inv (dp\<lparr>dp_tunnel := t, dp_events := es\<rparr>)"
  shows "dp_inv env (arm_tunnel (dp\<lparr>dp_tunnel := t, dp_events := es\<rparr>)) \<and> timer_set (arm_tunnel (dp\<lparr>dp_tunnel := t, dp_events := es\<rparr>))"
proof (cases "Tunnel_next_event t")
  case None
  with assms show ?thesis by (simp add: arm_tunnel_idle dp_inv_def timer_set_def)
next
  case (Some r)
  with arm_tunnel_armed [OF assms(3)] assms(1,2) show ?thesis by (simp add: dp_inv_def timer_set_def)
qed

lemma timer_inv_tunnel [simp]: "timer_inv (dp\<lparr>dp_tunnel := t\<rparr>) = timer_inv dp"
  by (simp add: timer_inv_def)

lemma dp_inv_arm_tunnel:
  "dp_inv env dp \<Longrightarrow> tunnel_inv t \<Longrightarrow> dp_inv env (arm_tunnel (dp\<lparr>dp_tunnel := t\<rparr>)) \<and> timer_set (arm_tunnel (dp\<lparr>dp_tunnel := t\<rparr>))"
  using dp_inv_arm [of env dp t "dp_events dp"] by (simp add: dp_inv_def)

lemma armed_next_event: "armed r dp \<Longrightarrow> tr_start r \<le> tr_end r \<Longrightarrow> dp_next_event dp = Some (tr_end r)"
  by (auto simp: armed_def dp_next_event_def next_dispatch_def next_dispatch_range_def TimeRange_new_def)

lemma armed_dispatch:
  assumes "armed r dp"
  shows "fst (Scheduler_dispatch now (dp_events dp)) = (if tr_start r \<le> now then [Tunnel_s] else [])"
    and "now < tr_start r \<Longrightarrow> snd (Scheduler_dispatch now (dp_events dp)) = dp_events dp"
  using assms by (auto simp: armed_def Scheduler_dispatch_def Let_def partition_point_def)

lemma timer_inv_dispatch:
  assumes "timer_inv dp"
  shows "timer_inv (dp\<lparr>dp_tunnel := t, dp_events := snd (Scheduler_dispatch now (dp_events dp))\<rparr>)"
    and "length (fst (Scheduler_dispatch now (dp_events dp))) \<le> 1"
proof -
  let ?s = "dp_events dp"
  have inv: "sched_inv ?s" and ids: "ev_id ` set (sched_events ?s) \<subseteq> set_option (dp_tunnel_next dp)" "distinct (map ev_id (sched_events ?s))"
    using assms by (auto simp: timer_inv_def sched_inv_def)
  show "timer_inv (dp\<lparr>dp_tunnel := t, dp_events := snd (Scheduler_dispatch now ?s)\<rparr>)"
    using sched_inv_dispatch [OF inv, of now] assms
    by (fastforce simp: timer_inv_def Scheduler_dispatch_def Let_def dest: in_set_takeD)
  have "card (set (map ev_id (sched_events ?s))) \<le> card (set_option (dp_tunnel_next dp))"
    using ids(1) by (intro card_mono) auto
  also have "\<dots> \<le> 1" by (cases "dp_tunnel_next dp") auto
  finally have "length (sched_events ?s) \<le> 1" using distinct_card [OF ids(2)] by simp
  then show "length (fst (Scheduler_dispatch now ?s)) \<le> 1" by (simp add: Scheduler_dispatch_def Let_def)
qed

section \<open>The operations\<close>

lemma safe_snd: "safe (bind_res r (\<lambda>(_, x). Inr x)) Q \<Longrightarrow> safe r (\<lambda>(_, x). Q x)"
  by (cases r) (auto simp: safe_def)

lemma safe_wireguard: "safe r (\<lambda>(_, x). P x) \<Longrightarrow> (\<And>a x. P x \<Longrightarrow> Q (f a x)) \<Longrightarrow> safe (bind_res r (\<lambda>(a, x). Inr (f a x))) Q"
  by (cases r) (auto simp: safe_def)

lemma safe_Tunnel_send:
  assumes "tunnel_inv t"
  shows "safe (Tunnel_send env ps t g) (\<lambda>(_, t', _). tunnel_inv t')"
proof (cases t)
  case (Wireguard e)
  then have "safe (ep_step (te_crypto env) (OpSend (te_now env) (te_systime env) ps) e) ep_inv" using assms by (intro safe_ep_step) simp_all
  then have "safe (Endpoint_send (te_crypto env) (te_now env) (te_systime env) ps e) (\<lambda>(_, e'). ep_inv e')" by (simp add: safe_snd)
  then show ?thesis unfolding Wireguard by (simp add: safe_wireguard)
next
  case (Shadowvpn e)
  obtain ret e' g' where "sv_send (te_sv_crypto env) ps e g = (ret, e', g')" by (rule prod_cases3)
  with assms sv_send_keeps [OF this] show ?thesis by (auto simp: Shadowvpn sv_inv_def)
qed

lemma safe_Tunnel_recv:
  assumes "tunnel_inv t"
  shows "safe (Tunnel_recv env ss ps packets t) (\<lambda>(_, t'). tunnel_inv t')"
proof (cases t)
  case (Wireguard e)
  then have "safe (ep_step (te_crypto env) (OpRecv (te_now env) ss packets) e) ep_inv" using assms by (intro safe_ep_step) simp_all
  then have "safe (Endpoint_recv (te_crypto env) (te_now env) ss packets e) (\<lambda>(_, e'). ep_inv e')" by (simp add: safe_snd)
  then show ?thesis unfolding Wireguard by (simp add: safe_wireguard)
qed (use assms in simp)

lemma safe_Tunnel_dispatch:
  assumes "tunnel_inv t"
  shows "safe (Tunnel_dispatch_events env now t) (\<lambda>(_, t'). tunnel_inv t')"
proof (cases t)
  case (Wireguard e)
  then have "safe (ep_step (te_crypto env) (OpDispatch (te_now env) (te_systime env) now) e) ep_inv" using assms by (intro safe_ep_step) simp_all
  then have "safe (dispatch_events (te_crypto env) (te_now env) (te_systime env) now e) (\<lambda>(_, e'). ep_inv e')" by (simp add: safe_snd)
  then show ?thesis unfolding Wireguard by (simp add: safe_wireguard)
qed (use assms in simp)

definition good :: "'n dp_env \<Rightarrow> 'n DataPlane \<Rightarrow> bool" where
  "good env dp \<longleftrightarrow> dp_inv env dp \<and> timer_set dp"

lemma safe_process_outbound:
  assumes "env_ok env" and "dp_inv env dp" and "distinct dests" and "set dests = dom (by_dest packets)"
  shows "safe_dp (process_outbound env dests order order' packets dp g) (\<lambda>(_, dp', _). good env dp')"
proof -
  have N: "ipnet_ok (de_net env)" "tbl_ok (de_net env) (or_out_table (dp_or_out dp))" using assms(1,2) by (simp_all add: env_ok_def dp_inv_def)
  obtain ret where "OutRouter_route (de_net env) dests packets (dp_or_out dp) = Some ret"
    by (rule OutRouter_route_spec [OF N assms(3,4)])
  moreover have "tunnel_inv (dp_tunnel dp)" using assms(2) by (simp add: dp_inv_def)
  ultimately show ?thesis
    unfolding process_outbound_def by simp (rule safe_dp_tunnel [OF safe_Tunnel_send], auto simp: good_def dp_inv_arm_tunnel [OF assms(2)])
qed

lemma in_route_total:
  assumes "env_ok env" and "dp_inv env dp"
  obtains ret where "InRouter_route (de_net env) packets (dp_or_in dp) = Some ret"
    and "\<And>i. entry_list ret i = filter (\<lambda>p. next_hop (de_net env) (or_in_table (dp_or_in dp)) p = Some (ToOverlay i)) packets"
proof -
  have N: "ipnet_ok (de_net env)" "tbl_ok (de_net env) (or_in_table (dp_or_in dp))" using assms by (simp_all add: env_ok_def dp_inv_def)
  show thesis by (rule InRouter_route_spec [OF N, of packets]) (rule that)
qed

lemma process_inbound_received:
  assumes "env_ok env" and "dp_inv env dp" and "Tunnel_recv (de_tunnel env) ss ps packets (dp_tunnel dp) = Inr (received, t)"
  obtains res where "process_inbound env ss ps order order' packets dp = Inr (res, arm_tunnel (dp\<lparr>dp_tunnel := t\<rparr>))"
    and "ib_to_peers res = UnderlayRouter_route (dp_ur_out dp) (map_iter order' (rr_to_peers received))"
    and "\<And>i. entry_list (ib_to_local res) i = filter (\<lambda>p. next_hop (de_net env) (or_in_table (dp_or_in dp)) p = Some (ToOverlay i))
      (concat (map (\<lambda>(peer, ps). filter (accepts env dp peer) ps) (map_iter order (rr_to_local received))))"
proof -
  let ?local = "concat (map (\<lambda>(peer, ps). filter (accepts env dp peer) ps) (map_iter order (rr_to_local received)))"
  show thesis
    by (rule in_route_total [OF assms(1,2), of ?local])
      (rule that, auto simp: process_inbound_def assms(3) inbound_packets_spec [OF assms(1,2)] Let_def)
qed

lemma safe_process_inbound:
  assumes "env_ok env" and "dp_inv env dp"
  shows "safe_dp (process_inbound env ss ps order order' packets dp) (\<lambda>(_, dp'). good env dp')"
proof -
  have recv: "safe (Tunnel_recv (de_tunnel env) ss ps packets (dp_tunnel dp)) (\<lambda>(_, t'). tunnel_inv t')"
    using assms(2) by (intro safe_Tunnel_recv) (simp add: dp_inv_def)
  show ?thesis
  proof (cases "Tunnel_recv (de_tunnel env) ss ps packets (dp_tunnel dp)")
    case (Inl e)
    with recv show ?thesis by (simp add: process_inbound_def safe_def safe_dp_def)
  next
    case (Inr r)
    obtain received t where r: "r = (received, t)" by (cases r)
    with recv Inr have "tunnel_inv t" by simp
    then show ?thesis
      by - (rule process_inbound_received [OF assms Inr [unfolded r], of order order'], simp add: good_def dp_inv_arm_tunnel [OF assms(2)])
  qed
qed

lemma process_events_due:
  assumes "armed r dp" and "tr_start r \<le> te_now (de_tunnel env)"
  shows "process_events env order dp =
    bind_dp (of_tunnel (Tunnel_dispatch_events (de_tunnel env) (te_now (de_tunnel env)) (dp_tunnel dp))) (\<lambda>(res, t').
      Inr (UnderlayRouter_route (dp_ur_out dp) (map_iter order (er_to_peers res)),
        arm_tunnel (dp\<lparr>dp_tunnel := t', dp_events := snd (Scheduler_dispatch (te_now (de_tunnel env)) (dp_events dp))\<rparr>)))"
  using armed_dispatch(1) [OF assms(1), of "te_now (de_tunnel env)"] assms(2)
  by (cases "Tunnel_dispatch_events (de_tunnel env) (te_now (de_tunnel env)) (dp_tunnel dp)")
    (auto simp: process_events_def Let_def split_beta)

lemma safe_process_events:
  assumes "dp_inv env dp"
  shows "safe_dp (process_events env order dp) (\<lambda>(_, dp'). good env dp')"
proof -
  let ?now = "te_now (de_tunnel env)"
  obtain due es where d: "Scheduler_dispatch ?now (dp_events dp) = (due, es)" by fastforce
  have t: "timer_inv dp" "tunnel_inv (dp_tunnel dp)" using assms by (simp_all add: dp_inv_def)
  note es = timer_inv_dispatch [OF t(1), where now = ?now, unfolded d, simplified]
  have "due = [] \<or> due = [Tunnel_s]" using es(2) by (cases due; cases "hd due") auto
  then show ?thesis
  proof
    assume "due = []"
    then show ?thesis using dp_inv_arm [OF assms t(2) es(1)] by (simp add: process_events_def Let_def d good_def)
  next
    assume "due = [Tunnel_s]"
    then have "process_events env order dp =
      bind_dp (of_tunnel (Tunnel_dispatch_events (de_tunnel env) ?now (dp_tunnel dp))) (\<lambda>(res, t').
        Inr (UnderlayRouter_route (dp_ur_out dp) (map_iter order (er_to_peers res)), arm_tunnel (dp\<lparr>dp_tunnel := t', dp_events := es\<rparr>)))"
      by (cases "Tunnel_dispatch_events (de_tunnel env) ?now (dp_tunnel dp)") (auto simp: process_events_def Let_def d)
    then show ?thesis
      by simp (rule safe_dp_tunnel [OF safe_Tunnel_dispatch [OF t(2)]], auto simp: good_def dp_inv_arm [OF assms _ es(1)])
  qed
qed

section \<open>Inbound packets\<close>

text \<open>
  C5. What the data plane delivers to the local host.  Whatever the tunnel accepts, processing
  never panics and the queue of an overlay transport holds, peer by peer and in order, exactly
  the packets that the tunnel decrypted for a peer, whose source address is routed to that very
  peer, that the packet filter allows and whose destination has its longest covering route on
  the transport.  Hence no peer can send from the address of another.  The packets for the peers
  go to the transport of each peer, and are dropped for a peer without one.
\<close>

theorem inbound_delivery:
  fixes env :: "'n dp_env"
  assumes "env_ok env" and "dp_inv env dp"
    and "Tunnel_recv (de_tunnel env) sessions peers packets (dp_tunnel dp) = Inr (received, t)"
    and "distinct order" and "set order = dom (rr_to_local received)"
    and "distinct order'" and "set order' = dom (rr_to_peers received)"
  shows "\<exists>res dp'. process_inbound env sessions peers order order' packets dp = Inr (res, dp') \<and>
    (\<forall>i peer. filter (\<lambda>p. sender (de_net env) (dp_src_filter_in dp) p = Some peer) (entry_list (ib_to_local res) i) =
       filter (\<lambda>p. accepts env dp peer p \<and> next_hop (de_net env) (or_in_table (dp_or_in dp)) p = Some (ToOverlay i))
         (entry_list (rr_to_local received) peer)) \<and>
    (\<forall>i. \<forall>p\<in>set (entry_list (ib_to_local res) i). sender (de_net env) (dp_src_filter_in dp) p \<noteq> None) \<and>
    (\<forall>tr peer. entry_list (ib_to_peers res) (tr, peer) =
       (if ur_table (dp_ur_out dp) peer = Some tr then entry_list (rr_to_peers received) peer else []))"
proof -
  let ?N = "de_net env" and ?src = "sender (de_net env) (dp_src_filter_in dp)"
  let ?q = "\<lambda>i. filter (\<lambda>p. next_hop ?N (or_in_table (dp_or_in dp)) p = Some (ToOverlay i))
      (concat (map (\<lambda>(peer, ps). filter (accepts env dp peer) ps) (map_iter order (rr_to_local received))))"
  have orders: "dom (rr_to_local received) \<subseteq> set order" "dom (rr_to_peers received) \<subseteq> set order'" using assms(5,7) by simp_all
  have src: "accepts env dp peer p \<Longrightarrow> ?src p = Some peer" for peer p by (simp add: accepts_def)
  have "filter (\<lambda>p. ?src p = Some peer) (?q i) =
      filter (\<lambda>p. accepts env dp peer p \<and> next_hop ?N (or_in_table (dp_or_in dp)) p = Some (ToOverlay i)) (entry_list (rr_to_local received) peer)" for i peer
    by (rule concat_accepted [OF assms(4) orders(1) src])
  moreover have "\<forall>p\<in>set (?q i). ?src p \<noteq> None" for i using src by fastforce
  ultimately show ?thesis
    by - (rule process_inbound_received [OF assms(1-3), of order order'], simp add: underlay_batches [OF assms(6) orders(2)])
qed

text \<open>A concrete parser of IP headers, and a data plane with one ShadowVPN peer at \<open>10.0.0.0/8\<close>.\<close>

definition plain_from_ip :: from_ip where
  "plain_from_ip p = (case (get_src_addr p, get_dst_addr p) of
      (Some src, Some dst) \<Rightarrow> Some \<lparr>sp_net = Some (if is_ipv4 src then Ipv4Slice (p ! 9) src dst else Ipv6Slice (p ! 6) src dst), sp_transport = None\<rparr>
    | _ \<Rightarrow> None)"

definition plain_env :: "plain_net dp_env" where
  "plain_env = \<lparr>de_tunnel = sample_env, de_net = plain_ipnet, de_from_ip = plain_from_ip\<rparr>"

lemma plain_env_ok: "env_ok plain_env"
  by (auto simp: env_ok_def plain_env_def plain_ipnet_ok from_ip_ok_def plain_from_ip_def split: option.splits if_splits)

definition addressed :: "bytes \<Rightarrow> bytes \<Rightarrow> bytes" where
  "addressed src dst = 0x45 # replicate 11 0 @ src @ dst"

lemma addressed_addrs:
  assumes "length src = 4" and "length dst = 4"
  shows "get_src_addr (addressed src dst) = Some (V4 src)" and "get_dst_addr (addressed src dst) = Some (V4 dst)"
proof -
  have "drop_bit 4 (0x45 :: u8) = 4" by code_simp
  with assms show "get_src_addr (addressed src dst) = Some (V4 src)" and "get_dst_addr (addressed src dst) = Some (V4 dst)"
    by (simp_all add: get_src_addr_def get_dst_addr_def get_ip_family_def addressed_def ipv4_at_def field_def)
qed

definition peer4_endpoint :: SvEndpoint where
  "peer4_endpoint = \<lparr>sve_my_key = \<lparr>kp_private = [], kp_public = []\<rparr>, sve_cipher = Aes128Gcm, sve_obfs = ObfsNone,
     sve_peers = [4 \<mapsto> SvPeer_new 4 \<lparr>cfg_key = [1], cfg_psk = [5]\<rparr> Aes128Gcm], sve_by_key = [[1] \<mapsto> 4]\<rparr>"

lemma peer4_receives:
  assumes "\<forall>p\<in>set ps. 20 \<le> length p \<and> length p < 2 ^ 36" and "ps \<noteq> []"
  shows "\<exists>pkts. Tunnel_recv sample_env sessions [4] pkts (Shadowvpn peer4_endpoint) =
    Inr (\<lparr>rr_to_local = [4 \<mapsto> ps], rr_to_peers = Map.empty\<rparr>, Shadowvpn peer4_endpoint)"
proof -
  let ?peer = "SvPeer_new 4 \<lparr>cfg_key = [1], cfg_psk = [5]\<rparr> Aes128Gcm"
  have "\<exists>d. decrypt_packet sample_sv_crypto Aes128Gcm (svp_master_key ?peer) d = Inr p" if "p \<in> set ps" for p
    using encrypt_packet_total [OF sample_sv_crypto_ok sample_rng_ok, of p Aes128Gcm "svp_master_key ?peer"] assms(1) that by blast
  then obtain f where f: "\<And>p. p \<in> set ps \<Longrightarrow> decrypt_packet sample_sv_crypto Aes128Gcm (svp_master_key ?peer) (f p) = Inr p" by metis
  have "list_all2 (\<lambda>pkt p. \<exists>d. obfs_unwrap (sve_obfs peer4_endpoint) pkt = Some d \<and>
      sv_trial sample_sv_crypto (sve_cipher peer4_endpoint) [?peer] d = Some (?peer, p)) (map f ps) ps"
    using f by (simp add: list_all2_conv_all_nth peer4_endpoint_def)
  from sv_recv_fold [OF this, of RecvResult_default] assms have "sv_recv sample_sv_crypto [4] (map f ps) peer4_endpoint =
      \<lparr>rr_to_local = [4 \<mapsto> ps], rr_to_peers = Map.empty\<rparr>"
    by (simp add: sv_recv_def peer4_endpoint_def map_filter_simps Let_def MIN_DELIVER_LEN_def filter_id_conv [THEN iffD2]
        RecvResult_default_def recv_queue_to_local_def entry_extend_def SvPeer_new_def)
  then show ?thesis by (auto simp: sample_env_def)
qed

definition peer4_plane :: "(plain_net, PeerId) SplitStackTable \<Rightarrow> (plain_net, InRouteAction) SplitStackTable \<Rightarrow> plain_net DataPlane" where
  "peer4_plane src inr = \<lparr>dp_tunnel = Shadowvpn peer4_endpoint, dp_or_out = OutRouter_default, dp_ur_out = UnderlayRouter_default,
     dp_src_filter_in = src, dp_or_in = \<lparr>or_in_table = inr\<rparr>, dp_packet_filter = (\<lambda>info caps. Some (pk_ip_proto info = 0)),
     dp_events = Scheduler_default, dp_tunnel_next = None\<rparr>"

lemma peer4_plane_inv:
  assumes "tbl_ok plain_ipnet src" and "tbl_ok plain_ipnet inr"
  shows "dp_inv plain_env (peer4_plane src inr)"
proof -
  have "sv_inv peer4_endpoint" by (simp add: sv_inv_def peer4_endpoint_def SvPeer_new_def)
  with assms show ?thesis
    by (simp add: dp_inv_def timer_inv_def peer4_plane_def plain_env_def sched_inv_default OutRouter_default_def tbl_ok_EMPTY(1))
      (simp add: Scheduler_default_def)
qed

theorem inbound_delivery_witness:
  "\<exists>(dp :: plain_net DataPlane) pkts received t res dp'.
     Tunnel_recv (de_tunnel plain_env) [] [4] pkts (dp_tunnel dp) = Inr (received, t) \<and>
     entry_list (rr_to_local received) 4 = [addressed [10, 0, 0, 1] [10, 0, 0, 2], addressed [8, 8, 8, 8] [10, 0, 0, 2]] \<and>
     process_inbound plain_env [] [4] [4] [] pkts dp = Inr (res, dp') \<and>
     entry_list (ib_to_local res) 1 = [addressed [10, 0, 0, 1] [10, 0, 0, 2]]"
proof -
  let ?a = "addressed [10, 0, 0, 1] [10, 0, 0, 2]" and ?b = "addressed [8, 8, 8, 8] [10, 0, 0, 2]"
  let ?N = "plain_ipnet"
  obtain src where src: "tbl_ok ?N src" "\<And>b c d. hop_of ?N src (V4 [10, b, c, d]) = Some (4 :: PeerId)"
    "\<And>a b c d. a \<noteq> 10 \<Longrightarrow> hop_of ?N src (V4 [a, b, c, d]) = None" using ten_table [of "4 :: PeerId"] by blast
  obtain inr where inr: "tbl_ok ?N inr" "\<And>b c d. hop_of ?N inr (V4 [10, b, c, d]) = Some (ToOverlay 1)"
    using ten_table [of "ToOverlay 1"] by blast
  let ?dp = "peer4_plane src inr"
  have "length ?a = 20" "length ?b = 20" by (simp_all add: addressed_def)
  then obtain pkts where recv: "Tunnel_recv (de_tunnel plain_env) [] [4] pkts (dp_tunnel ?dp) =
      Inr (\<lparr>rr_to_local = [4 \<mapsto> [?a, ?b]], rr_to_peers = Map.empty\<rparr>, Shadowvpn peer4_endpoint)"
    using peer4_receives [of "[?a, ?b]" "[]"] by (auto simp: peer4_plane_def plain_env_def)
  obtain res dp' where res: "process_inbound plain_env [] [4] [4] [] pkts ?dp = Inr (res, dp')"
    "\<forall>i peer. filter (\<lambda>p. sender ?N src p = Some peer) (entry_list (ib_to_local res) i) =
       filter (\<lambda>p. accepts plain_env ?dp peer p \<and> next_hop ?N inr p = Some (ToOverlay i)) (entry_list [4 \<mapsto> [?a, ?b]] peer)"
    "\<forall>i. \<forall>p\<in>set (entry_list (ib_to_local res) i). sender ?N src p \<noteq> None"
    using inbound_delivery [OF plain_env_ok peer4_plane_inv [OF src(1) inr(1)] recv, of "[4]" "[]"]
    by (auto simp: plain_env_def peer4_plane_def)
  have facts: "sender ?N src ?a = Some 4" "sender ?N src ?b = None" "next_hop ?N inr ?a = Some (ToOverlay 1)"
    using src(2,3) inr(2) by (simp_all add: sender_def next_hop_def addressed_addrs)
  moreover have "filter_verdict plain_from_ip (\<lambda>info caps. Some (pk_ip_proto info = 0)) ?a = Some True"
    by (simp add: filter_verdict_def plain_from_ip_def addressed_addrs is_ipv4_def packet_info_def) (simp add: addressed_def nth_append)
  ultimately have acc: "accepts plain_env ?dp 4 ?a" "\<not> accepts plain_env ?dp 4 ?b"
    by (simp_all add: accepts_def plain_env_def peer4_plane_def)
  let ?q = "entry_list (ib_to_local res) 1"
  have per_peer: "filter (\<lambda>p. sender ?N src p = Some peer) ?q = (if peer = 4 then [?a] else [])" for peer
    using res(2) [rule_format, of peer 1] facts acc by (auto simp: entry_list_def)
  have "sender ?N src p = Some 4" if q: "p \<in> set ?q" for p
  proof -
    obtain peer where peer: "sender ?N src p = Some peer" using bspec [OF spec [OF res(3), of 1] q] by auto
    then have "p \<in> set (filter (\<lambda>p. sender ?N src p = Some peer) ?q)" using q by simp
    with per_peer [of peer] peer show ?thesis by (auto split: if_splits)
  qed
  then have "filter (\<lambda>p. sender ?N src p = Some 4) ?q = ?q" by (simp add: filter_id_conv)
  with per_peer [of 4] have "?q = [?a]" by simp
  moreover have "entry_list (rr_to_local \<lparr>rr_to_local = [4 \<mapsto> [?a, ?b]], rr_to_peers = Map.empty\<rparr>) 4 = [?a, ?b]" by (simp add: entry_list_def)
  ultimately show ?thesis using res(1) recv by blast
qed

section \<open>Timer events\<close>


text \<open>A WireGuard tunnel with a handshake timeout between the instants 3 and 5.\<close>

definition timeout_tunnel :: Tunnel where
  "timeout_tunnel =
     (let ep = Endpoint_new sample_crypto \<lparr>en_ids = [5], en_keys = (\<lambda>_. []), en_next = 0\<rparr> (keypair sample_crypto [3])
      in Wireguard (ep\<lparr>ep_state := (ep_state ep)\<lparr>es_scheduler :=
           snd (Scheduler_add \<lparr>tr_start = 3, tr_end = 5\<rparr> (HandshakeTimeout 1) (es_scheduler (ep_state ep)))\<rparr>\<rparr>))"

lemma timeout_tunnel:
  "tunnel_inv timeout_tunnel" "Tunnel_next_event timeout_tunnel = Some \<lparr>tr_start = 3, tr_end = 5\<rparr>"
proof -
  let ?r = "\<lparr>tr_start = 3, tr_end = 5\<rparr>"
  have "sched_inv (snd (Scheduler_add ?r (HandshakeTimeout 1) Scheduler_default))" by (rule sched_inv_add [OF sched_inv_default]) simp
  then show "tunnel_inv timeout_tunnel"
    by (simp add: timeout_tunnel_def Let_def ep_inv_def Endpoint_new_def IdMap_default_def)
  show "Tunnel_next_event timeout_tunnel = Some ?r"
    by (simp add: timeout_tunnel_def Let_def Endpoint_new_def next_event_def next_dispatch_range_def TimeRange_new_def Scheduler_add_def
        Scheduler_default_def insert_at_def partition_point_def)
qed


end
