(* ===== verification/Peer_Db.thy ===== *)
theory Peer_Db
  imports Routers
begin

text \<open>
  The peer database (\<open>ts_runtime/src/peer_tracker\<close>) over the nodes of the control client
  (\<open>ts_control/src/node.rs\<close>): the peers by id, and an index for every field they are looked up
  by.  A failed assertion or \<open>unwrap\<close> is \<open>None\<close>.  Time stamps are numbers; the order in which a
  hash map is iterated is an argument.
\<close>

section \<open>Nodes\<close>

type_synonym i64 = "64 word"
type_synonym timestamp = int

datatype NodeStatus = NodeUnknown | NodeOnline | NodeOffline "timestamp option" timestamp

record 'n TailnetAddress =
  ta_ipv4 :: 'n
  ta_ipv6 :: 'n

record 'n ControlNode =
  nd_id :: i64
  nd_stable_id :: string
  nd_hostname :: string
  nd_capability_version :: u16
  nd_status :: NodeStatus
  nd_tailnet :: "string option"
  nd_capabilities :: "(string \<times> string list) list"
  nd_tags :: "string list"
  nd_tailnet_address :: "'n TailnetAddress"
  nd_node_key :: bytes
  nd_node_key_expiry :: "timestamp option"
  nd_machine_key :: "bytes option"
  nd_disco_key :: "bytes option"
  nd_tailnet_lock_key_signature :: "bytes option"
  nd_accepted_routes :: "'n list"
  nd_underlay_addresses :: "(IpAddr \<times> u16) list"
  nd_derp_region :: "u32 option"

record NodeUpdate =
  nu_id :: i64
  nu_status :: NodeStatus
  nu_derp_region :: "u32 option"
  nu_cap :: "u16 option"
  nu_cap_map :: "(string \<times> string list) list option"
  nu_node_key :: "bytes option"
  nu_node_key_expiry :: "timestamp option"
  nu_disco_key :: "bytes option"
  nu_tailnet_lock_key_signature :: "bytes option"
  nu_underlay_addresses :: "(IpAddr \<times> u16) list option"

definition or_keep :: "'a option \<Rightarrow> 'a \<Rightarrow> 'a" where
  "or_keep new old = (case new of Some x \<Rightarrow> x | None \<Rightarrow> old)"

definition or_keep_opt :: "'a option \<Rightarrow> 'a option \<Rightarrow> 'a option" where
  "or_keep_opt new old = (case new of Some x \<Rightarrow> Some x | None \<Rightarrow> old)"

definition node_apply_update :: "NodeUpdate \<Rightarrow> 'n ControlNode \<Rightarrow> 'n ControlNode option" where
  "node_apply_update u n =
     (if nd_id n \<noteq> nu_id u then None
      else Some (n\<lparr>
        nd_status := (if nu_status u \<noteq> NodeUnknown then nu_status u else nd_status n),
        nd_capability_version := or_keep (nu_cap u) (nd_capability_version n),
        nd_capabilities := or_keep (nu_cap_map u) (nd_capabilities n),
        nd_derp_region := or_keep_opt (nu_derp_region u) (nd_derp_region n),
        nd_disco_key := or_keep_opt (nu_disco_key u) (nd_disco_key n),
        nd_node_key := or_keep (nu_node_key u) (nd_node_key n),
        nd_node_key_expiry := or_keep_opt (nu_node_key_expiry u) (nd_node_key_expiry n),
        nd_tailnet_lock_key_signature := or_keep_opt (nu_tailnet_lock_key_signature u) (nd_tailnet_lock_key_signature n),
        nd_underlay_addresses := or_keep (nu_underlay_addresses u) (nd_underlay_addresses n)\<rparr>))"

definition fqdn :: "bool \<Rightarrow> 'n ControlNode \<Rightarrow> string" where
  "fqdn trailing_dot n =
     (let dot = (if trailing_dot then ''.'' else [])
      in case nd_tailnet n of Some tailnet \<Rightarrow> nd_hostname n @ ''.'' @ tailnet @ dot | None \<Rightarrow> nd_hostname n @ dot)"

definition fqdn_opt :: "bool \<Rightarrow> 'n ControlNode \<Rightarrow> string option" where
  "fqdn_opt trailing_dot n =
     (let dot = (if trailing_dot then ''.'' else [])
      in map_option (\<lambda>tailnet. nd_hostname n @ ''.'' @ tailnet @ dot) (nd_tailnet n))"

definition strip_suffix :: "string \<Rightarrow> string \<Rightarrow> string option" where
  [rust_std]: "strip_suffix suf s =
     (if length suf \<le> length s \<and> drop (length s - length suf) s = suf then Some (take (length s - length suf) s) else None)"

definition matches_name :: "string \<Rightarrow> 'n ControlNode \<Rightarrow> bool" where
  "matches_name name0 n =
     (let name = or_keep (strip_suffix ''.'' name0) name0;
          name' = (case nd_tailnet n of
              Some tailnet \<Rightarrow> or_keep (Option.bind (strip_suffix tailnet name) (strip_suffix ''.'')) name
            | None \<Rightarrow> name)
      in name' = nd_hostname n)"

section \<open>The database\<close>

record 'n IndexState =
  ix_nk :: "bytes \<rightharpoonup> PeerId"
  ix_disco :: "bytes \<rightharpoonup> PeerId"
  ix_stableid :: "string \<rightharpoonup> PeerId"
  ix_control :: "i64 \<rightharpoonup> PeerId"
  ix_name :: "string \<rightharpoonup> PeerId"
  ix_ip :: "('n, PeerId) SplitStackTable"
  ix_route :: "('n, PeerId list) SplitStackTable"

record 'n PeerDb =
  db_peers :: "PeerId \<rightharpoonup> 'n ControlNode"
  db_index :: "'n IndexState"
  db_next_id :: u32

definition PeerDb_default :: "'n PeerDb" where
  "PeerDb_default = \<lparr>db_peers = Map.empty,
     db_index = \<lparr>ix_nk = Map.empty, ix_disco = Map.empty, ix_stableid = Map.empty, ix_control = Map.empty, ix_name = Map.empty,
       ix_ip = SplitStackTable_EMPTY, ix_route = SplitStackTable_EMPTY\<rparr>,
     db_next_id = 0\<rparr>"

definition maybe_update ::
  "'n ControlNode \<Rightarrow> 'n ControlNode option \<Rightarrow> ('n ControlNode \<Rightarrow> 't) \<Rightarrow> 'i \<Rightarrow>
   ('n ControlNode \<Rightarrow> 'i \<Rightarrow> 'i option) \<Rightarrow> ('n ControlNode \<Rightarrow> 'i \<Rightarrow> 'i option) \<Rightarrow> 'i option" where
  "maybe_update new old accessor idx remove insertf =
     (case old of
        Some x \<Rightarrow> if accessor x = accessor new then Some idx else do { idx' \<leftarrow> remove x idx; insertf new idx' }
      | None \<Rightarrow> insertf new idx)"

definition maybe_update_idx ::
  "'n ControlNode \<Rightarrow> 'n ControlNode option \<Rightarrow> ('n ControlNode \<Rightarrow> 'k) \<Rightarrow> ('k \<rightharpoonup> PeerId) \<Rightarrow> PeerId \<Rightarrow> ('k \<rightharpoonup> PeerId) option" where
  "maybe_update_idx new old accessor idx new_id =
     maybe_update new old accessor idx
       (\<lambda>old idx. if idx (accessor old) = Some new_id then Some (idx(accessor old := None)) else None)
       (\<lambda>new idx. Some (idx(accessor new \<mapsto> new_id)))"

definition update_disco :: "PeerId \<Rightarrow> 'n ControlNode \<Rightarrow> 'n ControlNode option \<Rightarrow> (bytes \<rightharpoonup> PeerId) \<Rightarrow> (bytes \<rightharpoonup> PeerId) option" where
  "update_disco pid new old idx =
     maybe_update new old nd_disco_key idx
       (\<lambda>old idx. case nd_disco_key old of
          Some key \<Rightarrow> if idx key = Some pid then Some (idx(key := None)) else None
        | None \<Rightarrow> Some idx)
       (\<lambda>new idx. case nd_disco_key new of Some key \<Rightarrow> Some (idx(key \<mapsto> pid)) | None \<Rightarrow> Some idx)"

definition update_name :: "PeerId \<Rightarrow> 'n ControlNode \<Rightarrow> 'n ControlNode option \<Rightarrow> (string \<rightharpoonup> PeerId) \<Rightarrow> (string \<rightharpoonup> PeerId) option" where
  "update_name pid new old idx =
     maybe_update new old (\<lambda>x. (nd_hostname x, nd_tailnet x)) idx
       (\<lambda>old idx. let idx' = (if idx (nd_hostname old) = Some pid then idx(nd_hostname old := None) else idx)
          in case fqdn_opt False old of
               Some f \<Rightarrow> if idx' f = Some pid then Some (idx'(f := None)) else None
             | None \<Rightarrow> Some idx')
       (\<lambda>new idx. let idx' = idx(nd_hostname new \<mapsto> pid)
          in case fqdn_opt False new of Some f \<Rightarrow> Some (idx'(f \<mapsto> pid)) | None \<Rightarrow> Some idx')"

definition update_ip ::
  "'n ipnet \<Rightarrow> PeerId \<Rightarrow> 'n ControlNode \<Rightarrow> 'n ControlNode option \<Rightarrow> ('n, PeerId) SplitStackTable \<Rightarrow> ('n, PeerId) SplitStackTable option" where
  "update_ip N pid new old idx =
     maybe_update new old nd_tailnet_address idx
       (\<lambda>old idx. do {
          (id4, idx') \<leftarrow> tbl_remove N idx (ta_ipv4 (nd_tailnet_address old));
          (id6, idx'') \<leftarrow> tbl_remove N idx' (ta_ipv6 (nd_tailnet_address old));
          if id4 = Some pid \<and> id6 = Some pid then Some idx'' else None })
       (\<lambda>new idx. do {
          (_, idx') \<leftarrow> tbl_insert N idx (ta_ipv4 (nd_tailnet_address new)) pid;
          (_, idx'') \<leftarrow> tbl_insert N idx' (ta_ipv6 (nd_tailnet_address new)) pid;
          Some idx'' })"

text \<open>
  The closure of \<open>remove_route\<close> asserts that the id is in the list.  A failed assertion unwinds out
  of the table; it is signalled by a non-empty returned value, which the other branches never
  return.
\<close>

definition remove_route :: "'n ipnet \<Rightarrow> 'n \<Rightarrow> PeerId \<Rightarrow> ('n, PeerId list) SplitStackTable \<Rightarrow> ('n, PeerId list) SplitStackTable option" where
  "remove_route N route pid t =
     do {
       (ret, t') \<leftarrow> tbl_modify_impl N t route
         \<lparr>on_vacant = Noop,
          on_occupied = (\<lambda>val. let some_matched = list_ex (\<lambda>x. x = pid) val; val' = filter (\<lambda>x. x \<noteq> pid) val
            in if \<not> some_matched then (pid # val, Insert val) else (val', if val' = [] then Remove else Noop))\<rparr>;
       if ret = None \<or> ret = Some [] then Some t' else None
     }"

fun remove_routes :: "'n ipnet \<Rightarrow> 'n list \<Rightarrow> PeerId \<Rightarrow> ('n, PeerId list) SplitStackTable \<Rightarrow> ('n, PeerId list) SplitStackTable option" where
  "remove_routes N [] pid t = Some t"
| "remove_routes N (route # rs) pid t = do { t' \<leftarrow> remove_route N route pid t; remove_routes N rs pid t' }"

definition add_route :: "'n ipnet \<Rightarrow> 'n \<Rightarrow> PeerId \<Rightarrow> ('n, PeerId list) SplitStackTable \<Rightarrow> ('n, PeerId list) SplitStackTable option" where
  "add_route N route pid t =
     map_option snd (tbl_modify_impl N t route \<lparr>on_vacant = Insert [pid], on_occupied = (\<lambda>val. (val @ [pid], Noop))\<rparr>)"

fun add_routes :: "'n ipnet \<Rightarrow> 'n list \<Rightarrow> PeerId \<Rightarrow> ('n, PeerId list) SplitStackTable \<Rightarrow> ('n, PeerId list) SplitStackTable option" where
  "add_routes N [] pid t = Some t"
| "add_routes N (route # rs) pid t = do { t' \<leftarrow> add_route N route pid t; add_routes N rs pid t' }"

definition update_routes ::
  "'n ipnet \<Rightarrow> PeerId \<Rightarrow> 'n ControlNode \<Rightarrow> 'n ControlNode option \<Rightarrow> ('n, PeerId list) SplitStackTable \<Rightarrow> ('n, PeerId list) SplitStackTable option" where
  "update_routes N pid new old idx =
     maybe_update new old nd_accepted_routes idx
       (\<lambda>old idx. remove_routes N (nd_accepted_routes old) pid idx) (\<lambda>new idx. add_routes N (nd_accepted_routes new) pid idx)"

definition PeerDb_upsert :: "'n ipnet \<Rightarrow> 'n ControlNode \<Rightarrow> 'n PeerDb \<Rightarrow> (PeerId \<times> 'n PeerDb) option" where
  "PeerDb_upsert N new db =
     (let ix = db_index db
      in do {
        (pid, next) \<leftarrow> (case ix_stableid ix (nd_stable_id new) of
            Some pid \<Rightarrow> Some (pid, db_next_id db)
          | None \<Rightarrow> do { n \<leftarrow> checked_add (db_next_id db) 1; Some (db_next_id db, n) });
        let old = db_peers db pid
        in if old = Some new then Some (pid, db\<lparr>db_next_id := next\<rparr>)
           else do {
             nk \<leftarrow> maybe_update_idx new old nd_node_key (ix_nk ix) pid;
             stableid \<leftarrow> maybe_update_idx new old nd_stable_id (ix_stableid ix) pid;
             control \<leftarrow> maybe_update_idx new old nd_id (ix_control ix) pid;
             disco \<leftarrow> update_disco pid new old (ix_disco ix);
             name \<leftarrow> update_name pid new old (ix_name ix);
             ip \<leftarrow> update_ip N pid new old (ix_ip ix);
             route \<leftarrow> update_routes N pid new old (ix_route ix);
             Some (pid, db\<lparr>db_next_id := next, db_peers := (db_peers db)(pid \<mapsto> new),
               db_index := \<lparr>ix_nk = nk, ix_disco = disco, ix_stableid = stableid, ix_control = control, ix_name = name,
                 ix_ip = ip, ix_route = route\<rparr>\<rparr>)
           }
      })"

definition IndexState_remove :: "'n ipnet \<Rightarrow> PeerId \<Rightarrow> 'n ControlNode \<Rightarrow> 'n IndexState \<Rightarrow> 'n IndexState option" where
  "IndexState_remove N pid node ix =
     do {
       (_, ip) \<leftarrow> tbl_remove N (ix_ip ix) (ta_ipv4 (nd_tailnet_address node));
       (_, ip') \<leftarrow> tbl_remove N ip (ta_ipv6 (nd_tailnet_address node));
       let name = (if ix_name ix (nd_hostname node) = Some pid then (ix_name ix)(nd_hostname node := None) else ix_name ix);
           name' = (case fqdn_opt False node of Some f \<Rightarrow> name(f := None) | None \<Rightarrow> name)
       in do {
         route \<leftarrow> remove_routes N (nd_accepted_routes node) pid (ix_route ix);
         Some \<lparr>ix_nk = (ix_nk ix)(nd_node_key node := None),
           ix_disco = (case nd_disco_key node of Some disco \<Rightarrow> (ix_disco ix)(disco := None) | None \<Rightarrow> ix_disco ix),
           ix_stableid = (ix_stableid ix)(nd_stable_id node := None), ix_control = (ix_control ix)(nd_id node := None),
           ix_name = name', ix_ip = ip', ix_route = route\<rparr>
       }
     }"

datatype IndexedField =
  ByPeerId PeerId | ByNodeKey bytes | ByDiscoKey bytes | ByStableId string | ByNodeId i64 | ByName string | ByIp IpAddr

fun db_lookup :: "'n ipnet \<Rightarrow> IndexedField \<Rightarrow> 'n PeerDb \<Rightarrow> PeerId option option" where
  "db_lookup N (ByPeerId i) db = Some (if db_peers db i \<noteq> None then Some i else None)"
| "db_lookup N (ByNodeKey k) db = Some (ix_nk (db_index db) k)"
| "db_lookup N (ByDiscoKey k) db = Some (ix_disco (db_index db) k)"
| "db_lookup N (ByStableId k) db = Some (ix_stableid (db_index db) k)"
| "db_lookup N (ByNodeId k) db = Some (ix_control (db_index db) k)"
| "db_lookup N (ByName k) db = Some (ix_name (db_index db) k)"
| "db_lookup N (ByIp a) db = tbl_lookup N (ix_ip (db_index db)) a"

definition PeerDb_remove :: "'n ipnet \<Rightarrow> IndexedField \<Rightarrow> 'n PeerDb \<Rightarrow> ((PeerId \<times> 'n ControlNode) option \<times> 'n PeerDb) option" where
  "PeerDb_remove N fld db =
     do {
       found \<leftarrow> db_lookup N fld db;
       case Option.bind found (\<lambda>pid. map_option (Pair pid) (db_peers db pid)) of
         None \<Rightarrow> Some (None, db)
       | Some (pid, node) \<Rightarrow>
           do {
             ix \<leftarrow> IndexState_remove N pid node (db_index db);
             Some (Some (pid, node), db\<lparr>db_peers := (db_peers db)(pid := None), db_index := ix\<rparr>)
           }
     }"

definition PeerDb_get :: "'n ipnet \<Rightarrow> IndexedField \<Rightarrow> 'n PeerDb \<Rightarrow> (PeerId \<times> 'n ControlNode) option option" where
  "PeerDb_get N fld db =
     do { found \<leftarrow> db_lookup N fld db; Some (Option.bind found (\<lambda>pid. map_option (Pair pid) (db_peers db pid))) }"

fun nodes_of :: "'n PeerDb \<Rightarrow> PeerId list \<Rightarrow> (PeerId \<times> 'n ControlNode) list option" where
  "nodes_of db [] = Some []"
| "nodes_of db (pid # ids) = do { node \<leftarrow> db_peers db pid; rest \<leftarrow> nodes_of db ids; Some ((pid, node) # rest) }"

definition get_route :: "'n ipnet \<Rightarrow> 'n \<Rightarrow> 'n PeerDb \<Rightarrow> (PeerId \<times> 'n ControlNode) list option" where
  "get_route N route db =
     do { found \<leftarrow> tbl_lookup_prefix N (ix_route (db_index db)) route; nodes_of db (case found of Some ids \<Rightarrow> ids | None \<Rightarrow> []) }"

fun PeerDb_retain :: "'n ipnet \<Rightarrow> (PeerId \<Rightarrow> 'n ControlNode \<Rightarrow> bool) \<Rightarrow> PeerId list \<Rightarrow> 'n PeerDb \<Rightarrow> 'n PeerDb option" where
  "PeerDb_retain N keep [] db = Some db"
| "PeerDb_retain N keep (pid # order) db =
     (case db_peers db pid of
        None \<Rightarrow> PeerDb_retain N keep order db
      | Some node \<Rightarrow>
          if keep pid node then PeerDb_retain N keep order db
          else do {
            ix \<leftarrow> IndexState_remove N pid node (db_index db);
            PeerDb_retain N keep order (db\<lparr>db_peers := (db_peers db)(pid := None), db_index := ix\<rparr>)
          })"

definition PeerDb_patch :: "'n ipnet \<Rightarrow> NodeUpdate \<Rightarrow> 'n PeerDb \<Rightarrow> (PeerId \<times> 'n PeerDb) option" where
  "PeerDb_patch N update db =
     do {
       found \<leftarrow> db_lookup N (ByNodeId (nu_id update)) db;
       pid \<leftarrow> found;
       peer \<leftarrow> db_peers db pid;
       peer' \<leftarrow> node_apply_update update peer;
       PeerDb_upsert N peer' (db\<lparr>db_peers := (db_peers db)(pid := None)\<rparr>)
     }"

section \<open>Indices\<close>

text \<open>
  An index maps every key of every peer to that peer and nothing else; \<open>idx_step\<close> is the index
  after a peer has been replaced.
\<close>

definition idx_ok :: "('p \<Rightarrow> 'k set) \<Rightarrow> (PeerId \<rightharpoonup> 'p) \<Rightarrow> ('k \<rightharpoonup> PeerId) \<Rightarrow> bool" where
  "idx_ok keys peers M \<longleftrightarrow> (\<forall>k i. M k = Some i \<longleftrightarrow> (\<exists>n. peers i = Some n \<and> k \<in> keys n))"

definition idx_step :: "('p \<Rightarrow> 'k set) \<Rightarrow> PeerId \<Rightarrow> 'p option \<Rightarrow> 'p option \<Rightarrow> ('k \<rightharpoonup> PeerId) \<Rightarrow> ('k \<rightharpoonup> PeerId)" where
  "idx_step keys pid new old M =
     (\<lambda>k. if \<exists>n\<in>set_option new. k \<in> keys n then Some pid else if \<exists>n\<in>set_option old. k \<in> keys n then None else M k)"

definition no_clash :: "('p \<Rightarrow> 'k set) \<Rightarrow> PeerId \<Rightarrow> 'p \<Rightarrow> (PeerId \<rightharpoonup> 'p) \<Rightarrow> bool" where
  "no_clash keys pid new peers \<longleftrightarrow> (\<forall>j m. peers j = Some m \<longrightarrow> j \<noteq> pid \<longrightarrow> keys m \<inter> keys new = {})"

lemma idx_okD: "idx_ok keys peers M \<Longrightarrow> peers i = Some n \<Longrightarrow> k \<in> keys n \<Longrightarrow> M k = Some i"
  by (auto simp: idx_ok_def)

lemma idx_ok_put:
  assumes "idx_ok keys peers M" and "no_clash keys pid new peers"
  shows "idx_ok keys (peers(pid \<mapsto> new)) (idx_step keys pid (Some new) (peers pid) M)"
  unfolding idx_ok_def
proof (intro allI iffI)
  fix k i
  assume "idx_step keys pid (Some new) (peers pid) M k = Some i"
  then show "\<exists>n. (peers(pid \<mapsto> new)) i = Some n \<and> k \<in> keys n"
    using assms(1) by (cases "peers pid") (auto simp: idx_ok_def idx_step_def split: if_splits)
next
  fix k i
  assume "\<exists>n. (peers(pid \<mapsto> new)) i = Some n \<and> k \<in> keys n"
  then obtain n where n: "(peers(pid \<mapsto> new)) i = Some n" "k \<in> keys n" by blast
  show "idx_step keys pid (Some new) (peers pid) M k = Some i"
  proof (cases "i = pid")
    case True
    with n show ?thesis by (simp add: idx_step_def)
  next
    case False
    then have i: "peers i = Some n" using n(1) by simp
    with n(2) assms(2) False have "k \<notin> keys new" by (auto simp: no_clash_def)
    moreover have "k \<notin> keys m" if "peers pid = Some m" for m
      using idx_okD [OF assms(1) i n(2)] idx_okD [OF assms(1) that, of k] False by auto
    ultimately show ?thesis using idx_okD [OF assms(1) i n(2)] by (auto simp: idx_step_def)
  qed
qed

lemma idx_ok_del:
  assumes "idx_ok keys peers M" and "peers pid = Some old"
  shows "idx_ok keys (peers(pid := None)) (idx_step keys pid None (Some old) M)"
  unfolding idx_ok_def
proof (intro allI iffI)
  fix k i
  assume "idx_step keys pid None (Some old) M k = Some i"
  then show "\<exists>n. (peers(pid := None)) i = Some n \<and> k \<in> keys n"
    using assms by (auto simp: idx_ok_def idx_step_def split: if_splits)
next
  fix k i
  assume "\<exists>n. (peers(pid := None)) i = Some n \<and> k \<in> keys n"
  then obtain n where n: "peers i = Some n" "k \<in> keys n" "i \<noteq> pid" by (auto split: if_splits)
  then have "k \<notin> keys old" using idx_okD [OF assms(1) n(1,2)] idx_okD [OF assms(1,2), of k] by auto
  then show "idx_step keys pid None (Some old) M k = Some i" using idx_okD [OF assms(1) n(1,2)] by (simp add: idx_step_def)
qed

lemma maybe_update_idx_step:
  assumes "idx_ok (\<lambda>n. {f n}) peers M"
  shows "maybe_update_idx new (peers pid) f M pid = Some (idx_step (\<lambda>n. {f n}) pid (Some new) (peers pid) M)"
proof (cases "peers pid")
  case (Some old)
  with idx_okD [OF assms Some, of "f old"] show ?thesis
    by (auto simp: maybe_update_idx_def maybe_update_def idx_step_def fun_eq_iff)
qed (auto simp: maybe_update_idx_def maybe_update_def idx_step_def fun_eq_iff)

abbreviation disco_keys :: "'n ControlNode \<Rightarrow> bytes set" where
  "disco_keys n \<equiv> set_option (nd_disco_key n)"

lemma update_disco_step:
  assumes "idx_ok disco_keys peers M"
  shows "update_disco pid new (peers pid) M = Some (idx_step disco_keys pid (Some new) (peers pid) M)"
proof (cases "peers pid")
  case None
  then show ?thesis by (auto simp: update_disco_def maybe_update_def idx_step_def fun_eq_iff split: option.split)
next
  case (Some old)
  show ?thesis
  proof (cases "nd_disco_key old")
    case None
    with Some show ?thesis by (auto simp: update_disco_def maybe_update_def idx_step_def fun_eq_iff split: option.split)
  next
    case (Some k)
    then have "M k = Some pid" using idx_okD [OF assms \<open>peers pid = Some old\<close>, of k] by simp
    with Some \<open>peers pid = Some old\<close> show ?thesis
      by (auto simp: update_disco_def maybe_update_def idx_step_def fun_eq_iff split: option.split)
  qed
qed

text \<open>
  The name index: exact for the fully qualified names, which have a dot; a plain host name leads
  to some peer that has it.
\<close>

abbreviation dotted :: "string \<Rightarrow> bool" where
  "dotted k \<equiv> CHR ''.'' \<in> set k"

abbreviation fqdn_keys :: "'n ControlNode \<Rightarrow> string set" where
  "fqdn_keys n \<equiv> set_option (fqdn_opt False n)"

definition dotted_part :: "(string \<rightharpoonup> PeerId) \<Rightarrow> (string \<rightharpoonup> PeerId)" where
  "dotted_part M = (\<lambda>k. if dotted k then M k else None)"

definition name_ok :: "(PeerId \<rightharpoonup> 'n ControlNode) \<Rightarrow> (string \<rightharpoonup> PeerId) \<Rightarrow> bool" where
  "name_ok peers M \<longleftrightarrow> idx_ok fqdn_keys peers (dotted_part M) \<and>
     (\<forall>k i. \<not> dotted k \<longrightarrow> M k = Some i \<longrightarrow> (\<exists>n. peers i = Some n \<and> nd_hostname n = k))"

lemma fqdn_dotted: "fqdn_opt False n = Some f \<Longrightarrow> dotted f"
  by (auto simp: fqdn_opt_def)

definition unname :: "PeerId \<Rightarrow> 'n ControlNode \<Rightarrow> (string \<rightharpoonup> PeerId) \<Rightarrow> (string \<rightharpoonup> PeerId)" where
  "unname pid old M = (let M' = (if M (nd_hostname old) = Some pid then M(nd_hostname old := None) else M)
     in case fqdn_opt False old of Some f \<Rightarrow> M'(f := None) | None \<Rightarrow> M')"

lemma unname_parts:
  assumes "\<not> dotted (nd_hostname old)"
  shows "dotted_part (unname pid old M) = idx_step fqdn_keys pid None (Some old) (dotted_part M)"
    and "\<not> dotted k \<Longrightarrow> unname pid old M k = (if k = nd_hostname old \<and> M k = Some pid then None else M k)"
  using assms
  by (auto simp: unname_def dotted_part_def idx_step_def Let_def fun_eq_iff fqdn_dotted split: option.split)

definition name_new :: "PeerId \<Rightarrow> 'n ControlNode \<Rightarrow> (string \<rightharpoonup> PeerId) \<Rightarrow> (string \<rightharpoonup> PeerId)" where
  "name_new pid new M = (let M' = M(nd_hostname new \<mapsto> pid) in case fqdn_opt False new of Some f \<Rightarrow> M'(f \<mapsto> pid) | None \<Rightarrow> M')"

lemma name_new_parts:
  assumes "\<not> dotted (nd_hostname new)"
  shows "dotted_part (name_new pid new M) = idx_step fqdn_keys pid (Some new) None (dotted_part M)"
    and "\<not> dotted k \<Longrightarrow> name_new pid new M k = (if k = nd_hostname new then Some pid else M k)"
  using assms
  by (auto simp: name_new_def dotted_part_def idx_step_def Let_def fun_eq_iff fqdn_dotted split: option.split)

lemma idx_step_steps: "idx_step keys pid (Some new) None (idx_step keys pid None old M) = idx_step keys pid (Some new) old M"
  by (auto simp: idx_step_def fun_eq_iff)

lemma name_ok_put:
  assumes "name_ok peers M" and "no_clash fqdn_keys pid new peers" and "\<not> dotted (nd_hostname new)"
    and host: "\<And>old. peers pid = Some old \<Longrightarrow> \<not> dotted (nd_hostname old)"
  shows "\<exists>M'. update_name pid new (peers pid) M = Some M' \<and> name_ok (peers(pid \<mapsto> new)) M'"
proof (cases "peers pid")
  case None
  then have up: "update_name pid new (peers pid) M = Some (name_new pid new M)"
    by (simp add: update_name_def maybe_update_def name_new_def Let_def split: option.split)
  have "dotted_part (name_new pid new M) = idx_step fqdn_keys pid (Some new) (peers pid) (dotted_part M)"
    using name_new_parts(1) [OF assms(3)] None by simp
  then have "name_ok (peers(pid \<mapsto> new)) (name_new pid new M)"
    using assms(1) idx_ok_put [OF _ assms(2)] name_new_parts(2) [OF assms(3)] None by (fastforce simp: name_ok_def)
  with up show ?thesis by blast
next
  case (Some old)
  show ?thesis
  proof (cases "nd_hostname old = nd_hostname new \<and> nd_tailnet old = nd_tailnet new")
    case True
    then have "fqdn_opt False old = fqdn_opt False new" by (simp add: fqdn_opt_def)
    moreover from this have "idx_step fqdn_keys pid (Some new) (peers pid) (dotted_part M) = dotted_part M"
      using idx_okD [of fqdn_keys peers "dotted_part M" pid old] assms(1) Some by (auto simp: idx_step_def fun_eq_iff name_ok_def)
    ultimately have "name_ok (peers(pid \<mapsto> new)) M"
      using assms(1) idx_ok_put [OF _ assms(2), of "dotted_part M"] True Some by (auto simp: name_ok_def)
    moreover have "update_name pid new (peers pid) M = Some M" using True Some by (simp add: update_name_def maybe_update_def)
    ultimately show ?thesis by blast
  next
    case False
    note old = host [OF Some]
    let ?M = "name_new pid new (unname pid old M)"
    have "M f = Some pid" if "fqdn_opt False old = Some f" for f
      using idx_okD [of fqdn_keys peers "dotted_part M" pid old f] that assms(1) Some fqdn_dotted [OF that]
      by (simp add: name_ok_def dotted_part_def)
    then have up: "update_name pid new (peers pid) M = Some ?M"
      using False Some old fqdn_dotted
      by (auto simp: update_name_def maybe_update_def name_new_def unname_def Let_def split: option.split)
    have "dotted_part ?M = idx_step fqdn_keys pid (Some new) (peers pid) (dotted_part M)"
      by (simp add: name_new_parts(1) [OF assms(3)] unname_parts(1) [OF old] idx_step_steps Some)
    moreover have "\<exists>n. (peers(pid \<mapsto> new)) i = Some n \<and> nd_hostname n = k" if "\<not> dotted k" "?M k = Some i" for k i
      using that assms(1) Some name_new_parts(2) [OF assms(3)] unname_parts(2) [OF old]
      by (fastforce simp: name_ok_def split: if_splits)
    ultimately have "name_ok (peers(pid \<mapsto> new)) ?M" using idx_ok_put [OF _ assms(2)] assms(1) by (auto simp: name_ok_def)
    with up show ?thesis by blast
  qed
qed

lemma name_ok_del:
  assumes "name_ok peers M" and "peers pid = Some old" and "\<not> dotted (nd_hostname old)"
  shows "name_ok (peers(pid := None)) (unname pid old M)"
proof -
  have "\<exists>n. (peers(pid := None)) i = Some n \<and> nd_hostname n = k" if k: "\<not> dotted k" "unname pid old M k = Some i" for k i
  proof -
    have i: "M k = Some i" "k = nd_hostname old \<Longrightarrow> i \<noteq> pid"
      using k unname_parts(2) [OF assms(3) k(1), of pid M] by (auto split: if_splits)
    then obtain n where "peers i = Some n" "nd_hostname n = k" using assms(1) k(1) unfolding name_ok_def by blast
    with i(2) assms(2) show ?thesis by auto
  qed
  with assms(1,2) idx_ok_del [of fqdn_keys peers "dotted_part M" pid old] show ?thesis unfolding name_ok_def unname_parts(1) [OF assms(3)] by blast
qed

text \<open>The address index and the route index, as maps from prefixes.\<close>

definition ip_keys :: "'n ipnet \<Rightarrow> 'n ControlNode \<Rightarrow> (bool \<times> bool list) set" where
  "ip_keys N n = {net_key N (ta_ipv4 (nd_tailnet_address n)), net_key N (ta_ipv6 (nd_tailnet_address n))}"

definition families_ok :: "'n ipnet \<Rightarrow> 'n ControlNode \<Rightarrow> bool" where
  "families_ok N n \<longleftrightarrow> is_ipv4 (net_addr N (ta_ipv4 (nd_tailnet_address n))) \<and> \<not> is_ipv4 (net_addr N (ta_ipv6 (nd_tailnet_address n)))"

lemma families_ok_keys: "families_ok N n \<Longrightarrow> net_key N (ta_ipv6 (nd_tailnet_address n)) \<noteq> net_key N (ta_ipv4 (nd_tailnet_address n))"
  by (auto simp: families_ok_def net_key_def)

lemma ip_insert:
  assumes "ipnet_ok N" and "tbl_ok N t"
  shows "\<exists>t'. do { (_, idx') \<leftarrow> tbl_insert N t (ta_ipv4 (nd_tailnet_address new)) pid;
        (_, idx'') \<leftarrow> tbl_insert N idx' (ta_ipv6 (nd_tailnet_address new)) pid; Some idx'' } = Some t' \<and>
      tbl_ok N t' \<and> tbl_routes N t' = idx_step (ip_keys N) pid (Some new) None (tbl_routes N t)"
proof -
  obtain t1 where t1: "tbl_insert N t (ta_ipv4 (nd_tailnet_address new)) pid = Some (tbl_routes N t (net_key N (ta_ipv4 (nd_tailnet_address new))), t1)"
    "tbl_ok N t1" "tbl_routes N t1 = (tbl_routes N t)(net_key N (ta_ipv4 (nd_tailnet_address new)) \<mapsto> pid)"
    using tbl_insert_spec [OF assms] by blast
  obtain t2 where t2: "tbl_insert N t1 (ta_ipv6 (nd_tailnet_address new)) pid = Some (tbl_routes N t1 (net_key N (ta_ipv6 (nd_tailnet_address new))), t2)"
    "tbl_ok N t2" "tbl_routes N t2 = (tbl_routes N t1)(net_key N (ta_ipv6 (nd_tailnet_address new)) \<mapsto> pid)"
    using tbl_insert_spec [OF assms(1) t1(2)] by blast
  moreover have "tbl_routes N t2 = idx_step (ip_keys N) pid (Some new) None (tbl_routes N t)"
    unfolding t2(3) t1(3) idx_step_def ip_keys_def by (rule ext) auto
  ultimately show ?thesis using t1(1) by simp
qed

lemma ip_remove:
  assumes "ipnet_ok N" and "tbl_ok N t" and "families_ok N old"
  obtains t1 t2 where "tbl_remove N t (ta_ipv4 (nd_tailnet_address old)) = Some (tbl_routes N t (net_key N (ta_ipv4 (nd_tailnet_address old))), t1)"
    and "tbl_remove N t1 (ta_ipv6 (nd_tailnet_address old)) = Some (tbl_routes N t (net_key N (ta_ipv6 (nd_tailnet_address old))), t2)"
    and "tbl_ok N t2" and "tbl_routes N t2 = idx_step (ip_keys N) pid None (Some old) (tbl_routes N t)"
proof -
  let ?k4 = "net_key N (ta_ipv4 (nd_tailnet_address old))" and ?k6 = "net_key N (ta_ipv6 (nd_tailnet_address old))"
  obtain t1 where t1: "tbl_remove N t (ta_ipv4 (nd_tailnet_address old)) = Some (tbl_routes N t ?k4, t1)" "tbl_ok N t1"
    "tbl_routes N t1 = (tbl_routes N t)(?k4 := None)" using tbl_remove_spec [OF assms(1,2)] by blast
  obtain t2 where t2: "tbl_remove N t1 (ta_ipv6 (nd_tailnet_address old)) = Some (tbl_routes N t1 ?k6, t2)" "tbl_ok N t2"
    "tbl_routes N t2 = (tbl_routes N t1)(?k6 := None)" using tbl_remove_spec [OF assms(1) t1(2)] by blast
  have "tbl_routes N t1 ?k6 = tbl_routes N t ?k6" using families_ok_keys [OF assms(3)] t1(3) by simp
  moreover have "tbl_routes N t2 = idx_step (ip_keys N) pid None (Some old) (tbl_routes N t)"
    unfolding t2(3) t1(3) idx_step_def ip_keys_def by (rule ext) auto
  ultimately show thesis using that t1 t2 by simp
qed

lemma update_ip_step:
  assumes "ipnet_ok N" and "tbl_ok N t" and "idx_ok (ip_keys N) peers (tbl_routes N t)"
    and fam: "\<And>old. peers pid = Some old \<Longrightarrow> families_ok N old"
  shows "\<exists>t'. update_ip N pid new (peers pid) t = Some t' \<and> tbl_ok N t' \<and>
    tbl_routes N t' = idx_step (ip_keys N) pid (Some new) (peers pid) (tbl_routes N t)"
proof (cases "peers pid")
  case None
  with ip_insert [OF assms(1,2), of new pid] show ?thesis by (simp add: update_ip_def maybe_update_def)
next
  case (Some old)
  let ?A = "nd_tailnet_address"
  have keys: "tbl_routes N t (net_key N (ta_ipv4 (?A old))) = Some pid" "tbl_routes N t (net_key N (ta_ipv6 (?A old))) = Some pid"
    using idx_okD [OF assms(3) Some] by (simp_all add: ip_keys_def)
  show ?thesis
  proof (cases "?A old = ?A new")
    case True
    then have "idx_step (ip_keys N) pid (Some new) (peers pid) (tbl_routes N t) = tbl_routes N t"
      using keys Some by (auto simp: idx_step_def ip_keys_def fun_eq_iff)
    with True Some assms(2) show ?thesis by (simp add: update_ip_def maybe_update_def)
  next
    case False
    obtain t1 t2 where rm: "tbl_remove N t (ta_ipv4 (?A old)) = Some (tbl_routes N t (net_key N (ta_ipv4 (?A old))), t1)"
      "tbl_remove N t1 (ta_ipv6 (?A old)) = Some (tbl_routes N t (net_key N (ta_ipv6 (?A old))), t2)"
      "tbl_ok N t2" "tbl_routes N t2 = idx_step (ip_keys N) pid None (Some old) (tbl_routes N t)"
      by (rule ip_remove [OF assms(1,2) fam [OF Some], of pid])
    with ip_insert [OF assms(1) rm(3), of new pid] keys False Some show ?thesis
      by (simp add: update_ip_def maybe_update_def idx_step_steps)
  qed
qed

definition route_keys :: "'n ipnet \<Rightarrow> 'n ControlNode \<Rightarrow> (bool \<times> bool list) set" where
  "route_keys N n = net_key N ` set (nd_accepted_routes n)"

definition route_ok :: "'n ipnet \<Rightarrow> (PeerId \<rightharpoonup> 'n ControlNode) \<Rightarrow> (bool \<times> bool list \<rightharpoonup> PeerId list) \<Rightarrow> bool" where
  "route_ok N peers R \<longleftrightarrow> (\<forall>key. R key \<noteq> Some [] \<and> distinct (entry_list R key) \<and>
     (\<forall>i. i \<in> set (entry_list R key) \<longleftrightarrow> (\<exists>n. peers i = Some n \<and> key \<in> route_keys N n)))"

definition drop_ids :: "PeerId \<Rightarrow> PeerId list \<Rightarrow> PeerId list option" where
  "drop_ids pid ids = (let ids' = filter (\<lambda>x. x \<noteq> pid) ids in if ids' = [] then None else Some ids')"

lemma entry_list_drop_ids: "R' k = drop_ids pid ids \<Longrightarrow> entry_list R' k = filter (\<lambda>x. x \<noteq> pid) ids"
  by (auto simp: drop_ids_def entry_list_def Let_def split: if_splits)

lemma remove_route_spec:
  assumes "ipnet_ok N" and "tbl_ok N t" and "tbl_routes N t (net_key N r) = Some ids"
  shows "if pid \<in> set ids then \<exists>t'. remove_route N r pid t = Some t' \<and> tbl_ok N t' \<and> tbl_routes N t' = (tbl_routes N t)(net_key N r := drop_ids pid ids)
    else remove_route N r pid t = None"
proof -
  let ?f = "\<lparr>on_vacant = Noop, on_occupied = (\<lambda>val. let some_matched = list_ex (\<lambda>x. x = pid) val; val' = filter (\<lambda>x. x \<noteq> pid) val
            in if \<not> some_matched then (pid # val, Insert val) else (val', if val' = [] then Remove else Noop))\<rparr>"
  let ?ret = "if pid \<in> set ids then if filter (\<lambda>x. x \<noteq> pid) ids = [] then Some [] else None else Some (pid # ids)"
  let ?e = "if pid \<in> set ids then drop_ids pid ids else Some ids"
  have "modified ?f (tbl_routes N t (net_key N r)) = (?ret, ?e)"
    using assms(3) by (auto simp: modified_def Let_def list_ex_iff drop_ids_def)
  then obtain t' where "tbl_modify_impl N t r ?f = Some (?ret, t')" "tbl_ok N t'" "tbl_routes N t' = (tbl_routes N t)(net_key N r := ?e)"
    using tbl_modify_spec [OF assms(1,2)] by blast
  then show ?thesis by (simp add: remove_route_def split: if_split)
qed

lemma add_route_spec:
  assumes "ipnet_ok N" and "tbl_ok N t"
  shows "\<exists>t'. add_route N r pid t = Some t' \<and> tbl_ok N t' \<and>
    tbl_routes N t' = (tbl_routes N t)(net_key N r \<mapsto> entry_list (tbl_routes N t) (net_key N r) @ [pid])"
proof -
  let ?f = "\<lparr>on_vacant = Insert [pid], on_occupied = (\<lambda>val. (val @ [pid], Noop))\<rparr>"
  have "modified ?f (tbl_routes N t (net_key N r)) = (None, Some (entry_list (tbl_routes N t) (net_key N r) @ [pid]))"
    by (simp add: modified_def entry_list_def split: option.split)
  from tbl_modify_spec [OF assms this] show ?thesis by (auto simp: add_route_def)
qed

lemma remove_routes_spec:
  assumes "ipnet_ok N" and "tbl_ok N t" and "distinct (map (net_key N) rs)"
    and "\<And>r. r \<in> set rs \<Longrightarrow> pid \<in> set (entry_list (tbl_routes N t) (net_key N r))"
  shows "\<exists>t'. remove_routes N rs pid t = Some t' \<and> tbl_ok N t' \<and>
    tbl_routes N t' = (\<lambda>key. if key \<in> net_key N ` set rs then drop_ids pid (entry_list (tbl_routes N t) key) else tbl_routes N t key)"
  using assms(2-)
proof (induction rs arbitrary: t)
  case (Cons r rs)
  let ?R = "tbl_routes N t" and ?k = "net_key N r"
  have "pid \<in> set (entry_list ?R ?k)" using Cons.prems(3) by simp
  then obtain ids where ids: "?R ?k = Some ids" "pid \<in> set ids" by (cases "?R ?k") (simp_all add: entry_list_def)
  then obtain t1 where t1: "remove_route N r pid t = Some t1" "tbl_ok N t1" "tbl_routes N t1 = ?R(?k := drop_ids pid ids)"
    using remove_route_spec [OF assms(1) Cons.prems(1) ids(1), of pid] by auto
  have other: "entry_list (tbl_routes N t1) key = entry_list ?R key" if "key \<noteq> ?k" for key using that t1(3) by (simp add: entry_list_def)
  have "pid \<in> set (entry_list (tbl_routes N t1) (net_key N r'))" if "r' \<in> set rs" for r'
  proof -
    have "?k \<notin> net_key N ` set rs" "net_key N r' \<in> net_key N ` set rs" using Cons.prems(2) that by simp_all
    then have "net_key N r' \<noteq> ?k" by metis
    with other Cons.prems(3) that show ?thesis by simp
  qed
  then obtain t2 where t2: "remove_routes N rs pid t1 = Some t2" "tbl_ok N t2"
    "tbl_routes N t2 = (\<lambda>key. if key \<in> net_key N ` set rs then drop_ids pid (entry_list (tbl_routes N t1) key) else tbl_routes N t1 key)"
    using Cons.IH [OF t1(2)] Cons.prems(2) by (auto simp del: fun_upd_apply)
  have "?k \<notin> net_key N ` set rs" using Cons.prems(2) by simp
  then have "tbl_routes N t2 = (\<lambda>key. if key \<in> net_key N ` set (r # rs) then drop_ids pid (entry_list ?R key) else ?R key)"
    unfolding t2(3) using other t1(3) ids(1) by (intro ext) (auto simp: entry_list_def)
  with t1(1) t2(1,2) show ?case by simp
qed simp

lemma add_routes_spec:
  assumes "ipnet_ok N" and "tbl_ok N t" and "distinct (map (net_key N) rs)"
  shows "\<exists>t'. add_routes N rs pid t = Some t' \<and> tbl_ok N t' \<and>
    tbl_routes N t' = (\<lambda>key. if key \<in> net_key N ` set rs then Some (entry_list (tbl_routes N t) key @ [pid]) else tbl_routes N t key)"
  using assms(2-)
proof (induction rs arbitrary: t)
  case (Cons r rs)
  let ?R = "tbl_routes N t" and ?k = "net_key N r"
  obtain t1 where t1: "add_route N r pid t = Some t1" "tbl_ok N t1" "tbl_routes N t1 = ?R(?k \<mapsto> entry_list ?R ?k @ [pid])"
    using add_route_spec [OF assms(1) Cons.prems(1)] by blast
  obtain t2 where t2: "add_routes N rs pid t1 = Some t2" "tbl_ok N t2"
    "tbl_routes N t2 = (\<lambda>key. if key \<in> net_key N ` set rs then Some (entry_list (tbl_routes N t1) key @ [pid]) else tbl_routes N t1 key)"
    using Cons.IH [OF t1(2)] Cons.prems(2) by (auto simp del: fun_upd_apply)
  have "?k \<notin> net_key N ` set rs" using Cons.prems(2) by simp
  then have "tbl_routes N t2 = (\<lambda>key. if key \<in> net_key N ` set (r # rs) then Some (entry_list ?R key @ [pid]) else ?R key)"
    unfolding t2(3) using t1(3) by (intro ext) (auto simp: entry_list_def)
  with t1(1) t2(1,2) show ?case by simp
qed simp

definition routes_without :: "PeerId \<Rightarrow> (bool \<times> bool list) set \<Rightarrow> (bool \<times> bool list \<rightharpoonup> PeerId list) \<Rightarrow> (bool \<times> bool list \<rightharpoonup> PeerId list)" where
  "routes_without pid K R = (\<lambda>key. if key \<in> K then drop_ids pid (entry_list R key) else R key)"

definition routes_with :: "PeerId \<Rightarrow> (bool \<times> bool list) set \<Rightarrow> (bool \<times> bool list \<rightharpoonup> PeerId list) \<Rightarrow> (bool \<times> bool list \<rightharpoonup> PeerId list)" where
  "routes_with pid K R = (\<lambda>key. if key \<in> K then Some (entry_list R key @ [pid]) else R key)"

lemma entry_routes_without [simp]:
  "entry_list (routes_without pid K R) key = (if key \<in> K then filter (\<lambda>x. x \<noteq> pid) (entry_list R key) else entry_list R key)"
  by (auto simp: routes_without_def entry_list_def drop_ids_def Let_def)

lemma entry_routes_with [simp]: "entry_list (routes_with pid K R) key = entry_list R key @ (if key \<in> K then [pid] else [])"
  by (auto simp: routes_with_def entry_list_def)

lemma routes_not_Nil:
  "R key \<noteq> Some [] \<Longrightarrow> routes_without pid K R key \<noteq> Some []" "R key \<noteq> Some [] \<Longrightarrow> routes_with pid K R key \<noteq> Some []"
  by (auto simp: routes_without_def routes_with_def drop_ids_def Let_def)

lemma route_ok_del:
  assumes "route_ok N peers R" and "peers pid = Some old"
  shows "route_ok N (peers(pid := None)) (routes_without pid (route_keys N old) R)"
  unfolding route_ok_def
proof (intro allI conjI)
  fix key
  note R = assms(1) [unfolded route_ok_def, rule_format, of key]
  show "routes_without pid (route_keys N old) R key \<noteq> Some []" using R by (simp add: routes_not_Nil)
  show "distinct (entry_list (routes_without pid (route_keys N old) R) key)" using R by simp
  show "i \<in> set (entry_list (routes_without pid (route_keys N old) R) key) \<longleftrightarrow> (\<exists>n. (peers(pid := None)) i = Some n \<and> key \<in> route_keys N n)" for i
    using R assms(2) by auto
qed

lemma route_ok_add:
  assumes "route_ok N peers R" and "peers pid = None"
  shows "route_ok N (peers(pid \<mapsto> new)) (routes_with pid (route_keys N new) R)"
  unfolding route_ok_def
proof (intro allI conjI)
  fix key
  note R = assms(1) [unfolded route_ok_def, rule_format, of key]
  show "routes_with pid (route_keys N new) R key \<noteq> Some []" using R by (simp add: routes_not_Nil)
  show "distinct (entry_list (routes_with pid (route_keys N new) R) key)" using R assms(2) by simp
  show "i \<in> set (entry_list (routes_with pid (route_keys N new) R) key) \<longleftrightarrow> (\<exists>n. (peers(pid \<mapsto> new)) i = Some n \<and> key \<in> route_keys N n)" for i
    using R assms(2) by auto
qed

section \<open>The invariant of the database\<close>

definition node_ok :: "'n ipnet \<Rightarrow> 'n ControlNode \<Rightarrow> bool" where
  "node_ok N n \<longleftrightarrow> \<not> dotted (nd_hostname n) \<and> families_ok N n \<and> distinct (map (net_key N) (nd_accepted_routes n))"

definition db_ok :: "'n ipnet \<Rightarrow> 'n PeerDb \<Rightarrow> bool" where
  "db_ok N db \<longleftrightarrow> (let peers = db_peers db; ix = db_index db in
     (\<forall>i n. peers i = Some n \<longrightarrow> node_ok N n \<and> i < db_next_id db) \<and>
     idx_ok (\<lambda>n. {nd_node_key n}) peers (ix_nk ix) \<and> idx_ok (\<lambda>n. {nd_stable_id n}) peers (ix_stableid ix) \<and>
     idx_ok (\<lambda>n. {nd_id n}) peers (ix_control ix) \<and> idx_ok disco_keys peers (ix_disco ix) \<and> name_ok peers (ix_name ix) \<and>
     tbl_ok N (ix_ip ix) \<and> idx_ok (ip_keys N) peers (tbl_routes N (ix_ip ix)) \<and>
     tbl_ok N (ix_route ix) \<and> route_ok N peers (tbl_routes N (ix_route ix)))"

text \<open>The id an upsert gives a node, and the documented condition: no other node has an indexed field of it.\<close>

definition assigned_id :: "'n PeerDb \<Rightarrow> 'n ControlNode \<Rightarrow> PeerId" where
  "assigned_id db new = (case ix_stableid (db_index db) (nd_stable_id new) of Some i \<Rightarrow> i | None \<Rightarrow> db_next_id db)"

definition unique_fields :: "'n ipnet \<Rightarrow> PeerId \<Rightarrow> 'n ControlNode \<Rightarrow> (PeerId \<rightharpoonup> 'n ControlNode) \<Rightarrow> bool" where
  "unique_fields N pid new peers \<longleftrightarrow> no_clash (\<lambda>n. {nd_node_key n}) pid new peers \<and> no_clash (\<lambda>n. {nd_id n}) pid new peers \<and>
     no_clash disco_keys pid new peers \<and> no_clash fqdn_keys pid new peers \<and> no_clash (ip_keys N) pid new peers"

lemma update_routes_spec:
  assumes "ipnet_ok N" and "tbl_ok N t" and "route_ok N peers (tbl_routes N t)" and "node_ok N new"
    and ok: "\<And>old. peers pid = Some old \<Longrightarrow> node_ok N old"
  shows "\<exists>t'. update_routes N pid new (peers pid) t = Some t' \<and> tbl_ok N t' \<and> route_ok N (peers(pid \<mapsto> new)) (tbl_routes N t')"
proof -
  have add: "\<exists>t'. add_routes N (nd_accepted_routes new) pid t0 = Some t' \<and> tbl_ok N t' \<and> route_ok N (peers(pid \<mapsto> new)) (tbl_routes N t')"
    if t0: "tbl_ok N t0" "route_ok N (peers(pid := None)) (tbl_routes N t0)" for t0
  proof -
    obtain t' where t': "add_routes N (nd_accepted_routes new) pid t0 = Some t'" "tbl_ok N t'"
      "tbl_routes N t' = routes_with pid (route_keys N new) (tbl_routes N t0)"
      using add_routes_spec [OF assms(1) t0(1), of "nd_accepted_routes new" pid] assms(4)
      by (auto simp: node_ok_def routes_with_def route_keys_def)
    with route_ok_add [OF t0(2), of pid new] show ?thesis by simp
  qed
  show ?thesis
  proof (cases "peers pid")
    case None
    then have "peers(pid := None) = peers" by auto
    with add [of t] assms(2,3) None show ?thesis by (simp add: update_routes_def maybe_update_def)
  next
    case (Some old)
    show ?thesis
    proof (cases "nd_accepted_routes old = nd_accepted_routes new")
      case True
      then have "route_keys N old = route_keys N new" by (simp add: route_keys_def)
      then have "route_ok N (peers(pid \<mapsto> new)) (tbl_routes N t)" using assms(3) Some by (auto simp: route_ok_def)
      with True Some assms(2) show ?thesis by (simp add: update_routes_def maybe_update_def)
    next
      case False
      have "pid \<in> set (entry_list (tbl_routes N t) (net_key N r))" if "r \<in> set (nd_accepted_routes old)" for r
        using assms(3) Some that unfolding route_ok_def route_keys_def by blast
      then obtain t0 where t0: "remove_routes N (nd_accepted_routes old) pid t = Some t0" "tbl_ok N t0"
        "tbl_routes N t0 = routes_without pid (route_keys N old) (tbl_routes N t)"
        using remove_routes_spec [OF assms(1,2), of "nd_accepted_routes old" pid] ok [OF Some]
        by (auto simp: node_ok_def routes_without_def route_keys_def)
      with add [OF t0(2)] route_ok_del [OF assms(3) Some] False Some show ?thesis
        by (simp add: update_routes_def maybe_update_def del: fun_upd_apply)
    qed
  qed
qed

lemma word_less_succ: "(i :: u32) < n \<or> i = n \<Longrightarrow> checked_add n 1 = Some m \<Longrightarrow> i < m"
  by (auto simp: checked_add_def word_less_nat_alt unat_word_ariths split: if_splits)

lemma checked_add_succ: "(n :: u32) \<noteq> - 1 \<Longrightarrow> checked_add n 1 = Some (n + 1)"
proof -
  assume "n \<noteq> - 1"
  then have "unat n \<noteq> unat (- 1 :: u32)" by (simp only: word_unat_eq_iff [symmetric] not_False_eq_True)
  moreover have "unat (- 1 :: u32) = 4294967295" by (simp add: unsigned_minus_1_eq_mask mask_eq_exp_minus_1)
  ultimately show ?thesis using unsigned_less [where ?'a = nat, of n] by (simp add: checked_add_def)
qed

lemma db_okD:
  assumes "db_ok N db"
  shows "\<And>i n. db_peers db i = Some n \<Longrightarrow> node_ok N n" and "\<And>i n. db_peers db i = Some n \<Longrightarrow> i < db_next_id db"
    and "idx_ok (\<lambda>n. {nd_node_key n}) (db_peers db) (ix_nk (db_index db))"
    and "idx_ok (\<lambda>n. {nd_stable_id n}) (db_peers db) (ix_stableid (db_index db))"
    and "idx_ok (\<lambda>n. {nd_id n}) (db_peers db) (ix_control (db_index db))"
    and "idx_ok disco_keys (db_peers db) (ix_disco (db_index db))" and "name_ok (db_peers db) (ix_name (db_index db))"
    and "tbl_ok N (ix_ip (db_index db))" and "idx_ok (ip_keys N) (db_peers db) (tbl_routes N (ix_ip (db_index db)))"
    and "tbl_ok N (ix_route (db_index db))" and "route_ok N (db_peers db) (tbl_routes N (ix_route (db_index db)))"
  using assms by (simp_all add: db_ok_def Let_def)

lemma stable_no_clash:
  assumes "idx_ok (\<lambda>n. {nd_stable_id n}) (db_peers db) (ix_stableid (db_index db))"
  shows "no_clash (\<lambda>n. {nd_stable_id n}) (assigned_id db new) new (db_peers db)"
  unfolding no_clash_def
proof (intro allI impI)
  fix j m
  assume j: "db_peers db j = Some m" "j \<noteq> assigned_id db new"
  then have "ix_stableid (db_index db) (nd_stable_id m) = Some j" using idx_okD [OF assms j(1)] by simp
  with j(2) show "{nd_stable_id m} \<inter> {nd_stable_id new} = {}" by (auto simp: assigned_id_def)
qed

lemma upsert_spec:
  assumes N: "ipnet_ok N" and ok: "db_ok N db" and new: "node_ok N new"
    and unique: "unique_fields N (assigned_id db new) new (db_peers db)"
    and room: "ix_stableid (db_index db) (nd_stable_id new) = None \<Longrightarrow> db_next_id db \<noteq> - 1"
  shows "\<exists>db'. PeerDb_upsert N new db = Some (assigned_id db new, db') \<and> db_ok N db' \<and> db_peers db' = (db_peers db)(assigned_id db new \<mapsto> new)"
proof -
  let ?p = "assigned_id db new" and ?peers = "db_peers db" and ?ix = "db_index db"
  note D = db_okD [OF ok]
  obtain nx where nx: "(case ix_stableid ?ix (nd_stable_id new) of Some i \<Rightarrow> Some (i, db_next_id db)
      | None \<Rightarrow> do { n \<leftarrow> checked_add (db_next_id db) 1; Some (db_next_id db, n) }) = Some (?p, nx)"
    and lt: "\<And>i. i < db_next_id db \<Longrightarrow> i < nx" "?p < nx"
  proof (cases "ix_stableid ?ix (nd_stable_id new)")
    case None
    note add = checked_add_succ [OF room [OF None]]
    then show ?thesis using None that [of "db_next_id db + 1"] word_less_succ [OF _ add] by (simp add: assigned_id_def)
  next
    case (Some i)
    then obtain n where "?peers i = Some n" using D(4) by (auto simp: idx_ok_def)
    with Some D(2) show ?thesis using that [of "db_next_id db"] by (simp add: assigned_id_def)
  qed
  show ?thesis
  proof (cases "?peers ?p = Some new")
    case True
    then have "?peers(?p \<mapsto> new) = ?peers" by auto
    with True nx lt ok show ?thesis by (auto simp: PeerDb_upsert_def Let_def db_ok_def)
  next
    case False
    note clash = unique [unfolded unique_fields_def]
    obtain name where name: "update_name ?p new (?peers ?p) (ix_name ?ix) = Some name" "name_ok (?peers(?p \<mapsto> new)) name"
      using name_ok_put [OF D(7), of ?p new] clash new D(1) by (auto simp: node_ok_def)
    obtain ip where ip: "update_ip N ?p new (?peers ?p) (ix_ip ?ix) = Some ip" "tbl_ok N ip"
      "tbl_routes N ip = idx_step (ip_keys N) ?p (Some new) (?peers ?p) (tbl_routes N (ix_ip ?ix))"
      using update_ip_step [OF N D(8,9), of ?p new] D(1) by (auto simp: node_ok_def)
    obtain route where route: "update_routes N ?p new (?peers ?p) (ix_route ?ix) = Some route" "tbl_ok N route"
      "route_ok N (?peers(?p \<mapsto> new)) (tbl_routes N route)"
      using update_routes_spec [OF N D(10,11) new, of ?p] D(1) by blast
    let ?db = "db\<lparr>db_next_id := nx, db_peers := ?peers(?p \<mapsto> new), db_index :=
        \<lparr>ix_nk = idx_step (\<lambda>n. {nd_node_key n}) ?p (Some new) (?peers ?p) (ix_nk ?ix),
         ix_disco = idx_step disco_keys ?p (Some new) (?peers ?p) (ix_disco ?ix),
         ix_stableid = idx_step (\<lambda>n. {nd_stable_id n}) ?p (Some new) (?peers ?p) (ix_stableid ?ix),
         ix_control = idx_step (\<lambda>n. {nd_id n}) ?p (Some new) (?peers ?p) (ix_control ?ix),
         ix_name = name, ix_ip = ip, ix_route = route\<rparr>\<rparr>"
    have "PeerDb_upsert N new db = Some (?p, ?db)"
      using False by (simp add: PeerDb_upsert_def Let_def nx maybe_update_idx_step [OF D(3)] maybe_update_idx_step [OF D(4)]
          maybe_update_idx_step [OF D(5)] update_disco_step [OF D(6)] name(1) ip(1) route(1))
    moreover have "db_ok N ?db"
      using idx_ok_put [OF D(3)] idx_ok_put [OF D(4) stable_no_clash [OF D(4)]] idx_ok_put [OF D(5)] idx_ok_put [OF D(6)] idx_ok_put [OF D(9)]
        clash name(2) ip(2,3) route(2,3) new lt D(1,2)
      by (simp add: db_ok_def)
    ultimately show ?thesis by simp
  qed
qed

lemma IndexState_remove_spec:
  assumes N: "ipnet_ok N" and ok: "db_ok N db" and node: "db_peers db pid = Some node"
  shows "\<exists>ix. IndexState_remove N pid node (db_index db) = Some ix \<and>
    db_ok N (db\<lparr>db_peers := (db_peers db)(pid := None), db_index := ix\<rparr>)"
proof -
  let ?ix = "db_index db" and ?peers = "db_peers db"
  note D = db_okD [OF ok] and node_ok = db_okD(1) [OF ok node, unfolded node_ok_def]
  obtain ip ip' where ip: "tbl_remove N (ix_ip ?ix) (ta_ipv4 (nd_tailnet_address node)) =
        Some (tbl_routes N (ix_ip ?ix) (net_key N (ta_ipv4 (nd_tailnet_address node))), ip)"
      "tbl_remove N ip (ta_ipv6 (nd_tailnet_address node)) = Some (tbl_routes N (ix_ip ?ix) (net_key N (ta_ipv6 (nd_tailnet_address node))), ip')"
      "tbl_ok N ip'" "tbl_routes N ip' = idx_step (ip_keys N) pid None (Some node) (tbl_routes N (ix_ip ?ix))"
    using node_ok by (blast intro: ip_remove [OF N D(8), of node pid])
  have "pid \<in> set (entry_list (tbl_routes N (ix_route ?ix)) (net_key N r))" if "r \<in> set (nd_accepted_routes node)" for r
    using D(11) node that unfolding route_ok_def route_keys_def by blast
  then obtain route where route: "remove_routes N (nd_accepted_routes node) pid (ix_route ?ix) = Some route" "tbl_ok N route"
    "tbl_routes N route = routes_without pid (route_keys N node) (tbl_routes N (ix_route ?ix))"
    using remove_routes_spec [OF N D(10), of "nd_accepted_routes node" pid] node_ok by (auto simp: routes_without_def route_keys_def)
  let ?ix' = "\<lparr>ix_nk = idx_step (\<lambda>n. {nd_node_key n}) pid None (Some node) (ix_nk ?ix),
     ix_disco = idx_step disco_keys pid None (Some node) (ix_disco ?ix),
     ix_stableid = idx_step (\<lambda>n. {nd_stable_id n}) pid None (Some node) (ix_stableid ?ix),
     ix_control = idx_step (\<lambda>n. {nd_id n}) pid None (Some node) (ix_control ?ix),
     ix_name = unname pid node (ix_name ?ix), ix_ip = ip', ix_route = route\<rparr>"
  have single: "idx_step (\<lambda>n. {f n}) pid None (Some node) M = M(f node := None)" for f :: "'a ControlNode \<Rightarrow> 'k" and M
    by (auto simp: idx_step_def fun_eq_iff)
  have disco: "idx_step disco_keys pid None (Some node) M = (case nd_disco_key node of Some k \<Rightarrow> M(k := None) | None \<Rightarrow> M)" for M
    by (auto simp: idx_step_def fun_eq_iff split: option.split)
  have "IndexState_remove N pid node ?ix = Some ?ix'"
    by (simp add: IndexState_remove_def ip(1,2) route(1) unname_def Let_def single disco split: option.split)
  moreover have "db_ok N (db\<lparr>db_peers := ?peers(pid := None), db_index := ?ix'\<rparr>)"
    using idx_ok_del [OF D(3) node] idx_ok_del [OF D(4) node] idx_ok_del [OF D(5) node] idx_ok_del [OF D(6) node]
      idx_ok_del [OF D(9) node] name_ok_del [OF D(7) node] node_ok ip(3,4) route(2,3) route_ok_del [OF D(11) node] D(1,2)
    by (simp add: db_ok_def)
  ultimately show ?thesis by blast
qed

lemma db_ok_default: "db_ok N PeerDb_default"
  by (simp add: db_ok_def PeerDb_default_def Let_def idx_ok_def name_ok_def dotted_part_def route_ok_def tbl_ok_EMPTY entry_list_def)

definition retained :: "(PeerId \<Rightarrow> 'p \<Rightarrow> bool) \<Rightarrow> PeerId set \<Rightarrow> (PeerId \<rightharpoonup> 'p) \<Rightarrow> (PeerId \<rightharpoonup> 'p)" where
  "retained keep S peers = (\<lambda>i. if i \<in> S \<and> (\<exists>n\<in>set_option (peers i). \<not> keep i n) then None else peers i)"

lemma retain_spec:
  assumes N: "ipnet_ok N" and "db_ok N db"
  shows "\<exists>db'. PeerDb_retain N keep order db = Some db' \<and> db_ok N db' \<and> db_peers db' = retained keep (set order) (db_peers db)"
  using assms(2)
proof (induction order arbitrary: db)
  case Nil
  then show ?case by (simp add: retained_def)
next
  case (Cons pid order)
  show ?case
  proof (cases "\<exists>n. db_peers db pid = Some n \<and> \<not> keep pid n")
    case True
    then obtain n where n: "db_peers db pid = Some n" "\<not> keep pid n" by blast
    from IndexState_remove_spec [OF N Cons.prems n(1)] obtain ix where
      ix: "IndexState_remove N pid n (db_index db) = Some ix" "db_ok N (db\<lparr>db_peers := (db_peers db)(pid := None), db_index := ix\<rparr>)" by blast
    have "retained keep (set order) ((db_peers db)(pid := None)) = retained keep (set (pid # order)) (db_peers db)"
      using n by (auto simp: retained_def fun_eq_iff)
    with Cons.IH [OF ix(2)] ix(1) n show ?thesis by (simp del: fun_upd_apply)
  next
    case False
    then have "PeerDb_retain N keep (pid # order) db = PeerDb_retain N keep order db" by (auto split: option.split)
    moreover have "retained keep (set (pid # order)) (db_peers db) = retained keep (set order) (db_peers db)"
      using False by (auto simp: retained_def fun_eq_iff)
    ultimately show ?thesis using Cons.IH [OF Cons.prems] by simp
  qed
qed

section \<open>Properties\<close>

text \<open>
  C10. The peer database.  As long as no two nodes share an indexed field, upserting, removing and
  retaining never fail an assertion, change exactly the peers they should and keep every index
  exact: by node key, stable id, node id, disco key, full name, address and accepted route.  A
  known stable id keeps its peer id and a new one gets an id that was never used before.
\<close>

theorem peer_db_updates:
  assumes "ipnet_ok N" and "db_ok N db"
  shows "(node_ok N new \<and> unique_fields N (assigned_id db new) new (db_peers db) \<and>
      (ix_stableid (db_index db) (nd_stable_id new) = None \<longrightarrow> db_next_id db \<noteq> - 1) \<longrightarrow>
      (\<exists>db'. PeerDb_upsert N new db = Some (assigned_id db new, db') \<and> db_ok N db' \<and> db_peers db' = (db_peers db)(assigned_id db new \<mapsto> new))) \<and>
    (db_peers db pid = Some node \<longrightarrow>
      (\<exists>db'. PeerDb_remove N (ByPeerId pid) db = Some (Some (pid, node), db') \<and> db_ok N db' \<and> db_peers db' = (db_peers db)(pid := None))) \<and>
    (\<exists>db'. PeerDb_retain N keep order db = Some db' \<and> db_ok N db' \<and> db_peers db' = retained keep (set order) (db_peers db)) \<and>
    db_ok N PeerDb_default"
proof -
  have up: "node_ok N new \<and> unique_fields N (assigned_id db new) new (db_peers db) \<and>
      (ix_stableid (db_index db) (nd_stable_id new) = None \<longrightarrow> db_next_id db \<noteq> - 1) \<longrightarrow>
      (\<exists>db'. PeerDb_upsert N new db = Some (assigned_id db new, db') \<and> db_ok N db' \<and> db_peers db' = (db_peers db)(assigned_id db new \<mapsto> new))"
    by (intro impI, elim conjE, rule upsert_spec [OF assms]) simp_all
  have rm: "db_peers db pid = Some node \<longrightarrow>
      (\<exists>db'. PeerDb_remove N (ByPeerId pid) db = Some (Some (pid, node), db') \<and> db_ok N db' \<and> db_peers db' = (db_peers db)(pid := None))"
    using IndexState_remove_spec [OF assms, of pid node] by (auto simp: PeerDb_remove_def)
  show ?thesis by (intro conjI up rm retain_spec [OF assms] db_ok_default)
qed

text \<open>The peers a field stands for; a plain host name may stand for several, an address for a host route.\<close>

fun has_field :: "'n ipnet \<Rightarrow> IndexedField \<Rightarrow> PeerId \<Rightarrow> 'n ControlNode \<Rightarrow> bool" where
  "has_field N (ByPeerId j) i n = (i = j)"
| "has_field N (ByNodeKey k) i n = (nd_node_key n = k)"
| "has_field N (ByDiscoKey k) i n = (nd_disco_key n = Some k)"
| "has_field N (ByStableId k) i n = (nd_stable_id n = k)"
| "has_field N (ByNodeId k) i n = (nd_id n = k)"
| "has_field N (ByName k) i n = (fqdn_opt False n = Some k)"
| "has_field N (ByIp a) i n = ((is_ipv4 a, ip_bits a) \<in> ip_keys N n)"

fun exact_field :: "IndexedField \<Rightarrow> bool" where
  "exact_field (ByName k) = dotted k"
| "exact_field (ByIp a) = ip_wf a"
| "exact_field _ = True"

definition host_routes :: "'n ipnet \<Rightarrow> 'n PeerDb \<Rightarrow> bool" where
  "host_routes N db \<longleftrightarrow> (\<forall>i n k. db_peers db i = Some n \<longrightarrow> k \<in> ip_keys N n \<longrightarrow> length (snd k) = 8 * ip_width (fst k))"

lemma best_match_host:
  assumes "\<And>bs. R bs \<noteq> None \<Longrightarrow> length bs = length a"
  shows "best_match R a = R a"
proof (rule best_matchI)
  have "q = a" if "Sublist.prefix q a" "R q \<noteq> None" for q
    using that assms [OF that(2)] by (auto simp: prefix_def)
  then show "is_lpm R a (R a)" unfolding is_lpm_def by (cases "R a") (fastforce split: option.splits)+
qed

lemma db_lookup_iff:
  assumes "ipnet_ok N" and ok: "db_ok N db" and "host_routes N db" and "exact_field f"
  shows "\<exists>r. db_lookup N f db = Some r \<and> (\<forall>i. r = Some i \<longleftrightarrow> (\<exists>n. db_peers db i = Some n \<and> has_field N f i n))"
proof (cases f)
  case (ByIp a)
  let ?R = "tbl_routes N (ix_ip (db_index db))"
  note D = db_okD [OF ok]
  have wf: "ip_wf a" using assms(4) ByIp by simp
  have "length bs = length (ip_bits a)" if bs: "?R (is_ipv4 a, bs) \<noteq> None" for bs
  proof -
    obtain i n where n: "db_peers db i = Some n" "(is_ipv4 a, bs) \<in> ip_keys N n" using bs D(9) unfolding idx_ok_def by blast
    then have "length (snd (is_ipv4 a, bs)) = 8 * ip_width (fst (is_ipv4 a, bs))" using assms(3) unfolding host_routes_def by blast
    then show ?thesis using ip_wf_bits [OF wf] by simp
  qed
  then have "best_match (\<lambda>bs. ?R (is_ipv4 a, bs)) (ip_bits a) = ?R (is_ipv4 a, ip_bits a)" by (rule best_match_host)
  then have "db_lookup N f db = Some (?R (is_ipv4 a, ip_bits a))"
    using tbl_lookup_spec [OF assms(1) D(8) wf] by (simp add: ByIp)
  moreover have "?R (is_ipv4 a, ip_bits a) = Some i \<longleftrightarrow> (\<exists>n. db_peers db i = Some n \<and> has_field N f i n)" for i
    using D(9) by (simp add: idx_ok_def ByIp)
  ultimately show ?thesis by blast
next
  case (ByName k)
  then have "dotted k" using assms(4) by simp
  then have "ix_name (db_index db) k = Some i \<longleftrightarrow> (\<exists>n. db_peers db i = Some n \<and> fqdn_opt False n = Some k)" for i
    using db_okD(7) [OF ok, unfolded name_ok_def idx_ok_def, THEN conjunct1, rule_format, of k i] by (simp add: dotted_part_def)
  then show ?thesis by (simp add: ByName)
qed (use db_okD(3-6) [OF ok] in \<open>auto simp: idx_ok_def\<close>)


section \<open>Where the database fails\<close>

lemma count_list_distinct: "distinct xs \<Longrightarrow> x \<in> set xs \<Longrightarrow> count_list xs x = 1"
  by (induction xs) (auto simp: count_list_0_iff)

lemma upsert_fresh_entry:
  assumes "ipnet_ok N" and "tbl_ok N (ix_ip (db_index db))" and "tbl_ok N (ix_route (db_index db))"
    and "ix_stableid (db_index db) (nd_stable_id new) = Some pid" and "db_peers db pid = None"
    and "distinct (map (net_key N) (nd_accepted_routes new))"
  obtains db' where "PeerDb_upsert N new db = Some (pid, db')" and "db_peers db' = (db_peers db)(pid \<mapsto> new)"
    and "ix_nk (db_index db') = (ix_nk (db_index db))(nd_node_key new \<mapsto> pid)"
    and "tbl_routes N (ix_route (db_index db')) = routes_with pid (route_keys N new) (tbl_routes N (ix_route (db_index db)))"
proof -
  obtain ip where ip: "update_ip N pid new None (ix_ip (db_index db)) = Some ip"
    using ip_insert [OF assms(1,2), of new pid] by (auto simp: update_ip_def maybe_update_def)
  obtain route where route: "update_routes N pid new None (ix_route (db_index db)) = Some route"
    "tbl_routes N route = routes_with pid (route_keys N new) (tbl_routes N (ix_route (db_index db)))"
    using add_routes_spec [OF assms(1,3,6), of pid] by (auto simp: update_routes_def maybe_update_def routes_with_def route_keys_def)
  obtain disco name where "update_disco pid new None (ix_disco (db_index db)) = Some disco" "update_name pid new None (ix_name (db_index db)) = Some name"
    by (cases "nd_disco_key new"; cases "fqdn_opt False new") (simp_all add: update_disco_def update_name_def maybe_update_def Let_def)
  moreover define db' where "db' = db\<lparr>db_peers := (db_peers db)(pid \<mapsto> new), db_index :=
      \<lparr>ix_nk = (ix_nk (db_index db))(nd_node_key new \<mapsto> pid), ix_disco = disco, ix_stableid = (ix_stableid (db_index db))(nd_stable_id new \<mapsto> pid),
       ix_control = (ix_control (db_index db))(nd_id new \<mapsto> pid), ix_name = name, ix_ip = ip, ix_route = route\<rparr>\<rparr>"
  ultimately show thesis using ip route assms(4,5)
    by (intro that [of db']) (simp_all add: PeerDb_upsert_def Let_def maybe_update_idx_def maybe_update_def)
qed

text \<open>
  C35. Patching a node does not unindex its old fields: the node is taken out of the peer map
  before the upsert looks for the previous version.  After a patch that changes the node key,
  the old key still leads to the node, and every accepted route lists the node twice.
\<close>

theorem patch_leaves_stale_entries:
  assumes "ipnet_ok N" and "db_ok N db" and "db_peers db i = Some n" and "nu_id u = nd_id n"
    and "nu_node_key u = Some k" and "k \<noteq> nd_node_key n"
  shows "\<exists>db' n'. PeerDb_patch N u db = Some (i, db') \<and> db_peers db' i = Some n' \<and> nd_node_key n' = k \<and>
    PeerDb_get N (ByNodeKey (nd_node_key n)) db' = Some (Some (i, n')) \<and>
    (\<forall>r\<in>set (nd_accepted_routes n). count_list (entry_list (tbl_routes N (ix_route (db_index db'))) (net_key N r)) i = 2)"
proof -
  note D = db_okD [OF assms(2)]
  obtain n' where n': "node_apply_update u n = Some n'" "nd_node_key n' = k" "nd_stable_id n' = nd_stable_id n"
    "nd_accepted_routes n' = nd_accepted_routes n" using assms(4,5) by (simp add: node_apply_update_def or_keep_def)
  let ?db0 = "db\<lparr>db_peers := (db_peers db)(i := None)\<rparr>"
  have stable: "ix_stableid (db_index ?db0) (nd_stable_id n') = Some i" using idx_okD [OF D(4) assms(3)] n'(3) by simp
  have idx: "ix_control (db_index db) (nu_id u) = Some i" "ix_nk (db_index db) (nd_node_key n) = Some i"
    using idx_okD [OF D(5) assms(3)] idx_okD [OF D(3) assms(3)] assms(4) by simp_all
  have tables: "tbl_ok N (ix_ip (db_index ?db0))" "tbl_ok N (ix_route (db_index ?db0))" "db_peers ?db0 i = None"
    "distinct (map (net_key N) (nd_accepted_routes n'))" using D(8,10) D(1) [OF assms(3)] n'(4) by (simp_all add: node_ok_def)
  obtain db' where db': "PeerDb_upsert N n' ?db0 = Some (i, db')" "db_peers db' = (db_peers ?db0)(i \<mapsto> n')"
    "ix_nk (db_index db') = (ix_nk (db_index ?db0))(nd_node_key n' \<mapsto> i)"
    "tbl_routes N (ix_route (db_index db')) = routes_with i (route_keys N n') (tbl_routes N (ix_route (db_index ?db0)))"
    by (rule upsert_fresh_entry [OF assms(1) tables(1,2) stable tables(3,4)])
  have "PeerDb_patch N u db = Some (i, db')" using db'(1) n'(1) idx(1) assms(3) by (simp add: PeerDb_patch_def)
  moreover have "PeerDb_get N (ByNodeKey (nd_node_key n)) db' = Some (Some (i, n'))"
    using db'(2,3) idx(2) n'(2) assms(6) by (simp add: PeerDb_get_def)
  moreover have "count_list (entry_list (tbl_routes N (ix_route (db_index db'))) (net_key N r)) i = 2" if "r \<in> set (nd_accepted_routes n)" for r
  proof -
    let ?R = "tbl_routes N (ix_route (db_index db))"
    have "net_key N r \<in> route_keys N n" "net_key N r \<in> route_keys N n'" using that n'(4) by (simp_all add: route_keys_def)
    moreover from this have "distinct (entry_list ?R (net_key N r))" "i \<in> set (entry_list ?R (net_key N r))"
      using D(11) assms(3) unfolding route_ok_def by blast+
    ultimately show ?thesis using db'(4) by (simp add: count_list_distinct)
  qed
  ultimately show ?thesis using db'(2) n'(2) by auto
qed

text \<open>
  C36. A field cannot be handed over in one update.  When a node takes over the node key of another
  and is upserted before the other one gets its new key, the second upsert fails its assertion
  and panics, although the keys are unique before and after the update.
\<close>

theorem key_handover_panics:
  assumes "db_ok N db" and "db_peers db i = Some a" and "db_peers db j = Some b" and "i \<noteq> j"
    and "nd_stable_id b' = nd_stable_id b" and "nd_node_key b' = nd_node_key a"
    and "nd_stable_id a' = nd_stable_id a" and "nd_node_key a' \<noteq> nd_node_key a"
  shows "do { (_, db1) \<leftarrow> PeerDb_upsert N b' db; PeerDb_upsert N a' db1 } = None"
proof -
  note D = db_okD [OF assms(1)]
  have st: "ix_stableid (db_index db) (nd_stable_id a) = Some i" "ix_stableid (db_index db) (nd_stable_id b) = Some j"
    using idx_okD [OF D(4) assms(2)] idx_okD [OF D(4) assms(3)] by simp_all
  have nk: "ix_nk (db_index db) (nd_node_key a) = Some i" "ix_nk (db_index db) (nd_node_key b) = Some j"
    using idx_okD [OF D(3) assms(2)] idx_okD [OF D(3) assms(3)] by simp_all
  then have keys: "nd_node_key b \<noteq> nd_node_key a" "a' \<noteq> a" "b' \<noteq> b" using assms(4,6,8) by auto
  have "PeerDb_upsert N a' db1 = None" if up: "PeerDb_upsert N b' db = Some (k, db1)" for k db1
  proof -
    have "ix_nk (db_index db1) (nd_node_key a) = Some j" "ix_stableid (db_index db1) = ix_stableid (db_index db)"
      "db_peers db1 i = Some a"
      using up assms(2-6) st nk keys
      by (auto simp: PeerDb_upsert_def Let_def maybe_update_idx_def maybe_update_def bind_eq_Some_conv)
    with st assms(4,7,8) keys(2) show ?thesis
      by (simp add: PeerDb_upsert_def Let_def maybe_update_idx_def maybe_update_def)
  qed
  then show ?thesis by (cases "PeerDb_upsert N b' db") auto
qed

text \<open>
  Routes that truncate to the same prefix.  A node that lists a prefix twice is recorded twice
  and taken out at once, so unindexing its second route fails the assertion and panics when
  another peer accepts the prefix too.
\<close>

theorem repeated_route_panics:
  assumes "ipnet_ok N" and "tbl_ok N t" and "tbl_routes N t (net_key N r) = Some ids" and "ids \<noteq> []" and "pid \<notin> set ids"
    and "net_key N r' = net_key N r"
  shows "do { t1 \<leftarrow> add_routes N [r, r'] pid t; remove_routes N [r, r'] pid t1 } = None"
proof -
  obtain t1 where t1: "add_route N r pid t = Some t1" "tbl_ok N t1" "tbl_routes N t1 (net_key N r) = Some (ids @ [pid])"
    using add_route_spec [OF assms(1,2), of r pid] assms(3) by (auto simp: entry_list_def)
  obtain t2 where t2: "add_route N r' pid t1 = Some t2" "tbl_ok N t2" "tbl_routes N t2 (net_key N r) = Some (ids @ [pid, pid])"
    using add_route_spec [OF assms(1) t1(2), of r' pid] t1(3) assms(6) by (auto simp: entry_list_def)
  have "filter (\<lambda>x. x \<noteq> pid) (ids @ [pid, pid]) = ids" using assms(5) by (auto simp: filter_id_conv)
  then obtain t3 where t3: "remove_route N r pid t2 = Some t3" "tbl_ok N t3" "tbl_routes N t3 (net_key N r') = Some ids"
    using remove_route_spec [OF assms(1) t2(2,3), of pid] assms(4,6) by (auto simp: drop_ids_def Let_def)
  with remove_route_spec [OF assms(1) t3(2,3), of pid] assms(5) t1(1) t2(1) show ?thesis by simp
qed

section \<open>Examples\<close>

definition host4 :: "u8 \<Rightarrow> plain_net" where
  "host4 c = plain_of (V4 [100, 64, 0, c]) 32"

definition host6 :: "u8 \<Rightarrow> plain_net" where
  "host6 c = plain_of (V6 (replicate 15 0 @ [c])) 128"

lemma host_keys:
  "net_key plain_ipnet (host4 c) = (True, ip_bits (V4 [100, 64, 0, c]))"
  "net_key plain_ipnet (host6 c) = (False, ip_bits (V6 (replicate 15 0 @ [c])))"
proof -
  have "unat (32 :: u8) = 32" "unat (128 :: u8) = 128" by simp_all
  then show "net_key plain_ipnet (host4 c) = (True, ip_bits (V4 [100, 64, 0, c]))"
    "net_key plain_ipnet (host6 c) = (False, ip_bits (V6 (replicate 15 0 @ [c])))"
    by (simp_all add: net_key_def net_bits_def host4_def host6_def plain_of_sel ip_wf_def is_ipv4_def ip_bits_def ip_octets_def)
qed

definition sample_node :: "u8 \<Rightarrow> plain_net list \<Rightarrow> plain_net ControlNode" where
  "sample_node c rs = \<lparr>nd_id = ucast c, nd_stable_id = [char_of (unat c)], nd_hostname = ''host'', nd_capability_version = 1,
     nd_status = NodeUnknown, nd_tailnet = None, nd_capabilities = [], nd_tags = [],
     nd_tailnet_address = \<lparr>ta_ipv4 = host4 c, ta_ipv6 = host6 c\<rparr>, nd_node_key = [c], nd_node_key_expiry = None, nd_machine_key = None,
     nd_disco_key = None, nd_tailnet_lock_key_signature = None, nd_accepted_routes = rs, nd_underlay_addresses = [], nd_derp_region = None\<rparr>"

lemma sample_node_sel:
  "nd_id (sample_node c rs) = ucast c" "nd_stable_id (sample_node c rs) = [char_of (unat c)]" "nd_node_key (sample_node c rs) = [c]"
  "nd_disco_key (sample_node c rs) = None" "nd_tailnet (sample_node c rs) = None" "nd_accepted_routes (sample_node c rs) = rs"
  by (simp_all add: sample_node_def)

lemma sample_node_keys: "ip_keys plain_ipnet (sample_node c rs) = {(True, ip_bits (V4 [100, 64, 0, c])), (False, ip_bits (V6 (replicate 15 0 @ [c])))}"
  by (simp add: ip_keys_def sample_node_def host_keys)

lemma sample_node_ok: "distinct (map (net_key plain_ipnet) rs) \<Longrightarrow> node_ok plain_ipnet (sample_node c rs)"
  using host_keys [of c] by (auto simp: node_ok_def families_ok_def sample_node_def net_key_def)

lemma sample_db:
  "\<exists>db. db_ok plain_ipnet db \<and> db_peers db = [0 \<mapsto> sample_node 1 [host4 9], 1 \<mapsto> sample_node 2 [host4 9]] \<and> host_routes plain_ipnet db"
proof -
  let ?a = "sample_node 1 [host4 9]" and ?b = "sample_node 2 [host4 9]" and ?d = "PeerDb_default :: plain_net PeerDb"
  have ok: "node_ok plain_ipnet ?a" "node_ok plain_ipnet ?b" by (simp_all add: sample_node_ok)
  have id0: "assigned_id ?d ?a = 0" "db_peers ?d = Map.empty" "db_next_id ?d = 0" "ix_stableid (db_index ?d) = Map.empty"
    by (simp_all add: assigned_id_def PeerDb_default_def)
  then obtain db1 where db1: "PeerDb_upsert plain_ipnet ?a ?d = Some (0, db1)" "db_ok plain_ipnet db1" "db_peers db1 = [0 \<mapsto> ?a]"
    using upsert_spec [OF plain_ipnet_ok db_ok_default ok(1)] by (auto simp: unique_fields_def no_clash_def)
  have nid: "db_next_id db1 = 1"
    using db1(1) id0 by (auto simp: PeerDb_upsert_def Let_def bind_eq_Some_conv checked_add_def split: if_splits)
  have st: "ix_stableid (db_index db1) (nd_stable_id ?b) = None"
    using db_okD(4) [OF db1(2)] db1(3) by (cases "ix_stableid (db_index db1) (nd_stable_id ?b)") (auto simp: idx_ok_def sample_node_def split: if_splits)
  then have id1: "assigned_id db1 ?b = 1" using nid by (simp add: assigned_id_def)
  have "ip_keys plain_ipnet ?a \<inter> ip_keys plain_ipnet ?b = {}"
    by (auto simp: sample_node_keys ip_bits_def ip_octets_def byte_bits_inject)
  then have "unique_fields plain_ipnet 1 ?b (db_peers db1)"
    unfolding unique_fields_def no_clash_def db1(3) by (auto simp: sample_node_sel fqdn_opt_def split: if_splits)
  then obtain db2 where db2: "db_ok plain_ipnet db2" "db_peers db2 = [0 \<mapsto> ?a, 1 \<mapsto> ?b]"
    using upsert_spec [OF plain_ipnet_ok db1(2) ok(2)] id1 nid db1(3) by auto
  moreover have "host_routes plain_ipnet db2"
    unfolding host_routes_def db2(2) by (auto simp: sample_node_keys ip_bits_def ip_octets_def ip_width_def split: if_splits)
  ultimately show ?thesis by blast
qed

theorem peer_db_updates_witness:
  "\<exists>db db'. db_ok plain_ipnet db \<and> db_peers db 1 = Some (sample_node 2 [host4 9]) \<and>
     PeerDb_remove plain_ipnet (ByPeerId 1) db = Some (Some (1, sample_node 2 [host4 9]), db') \<and>
     db_ok plain_ipnet db' \<and> db_peers db' = [0 \<mapsto> sample_node 1 [host4 9]]"
proof -
  obtain db where db: "db_ok plain_ipnet db" "db_peers db = [0 \<mapsto> sample_node 1 [host4 9], 1 \<mapsto> sample_node 2 [host4 9]]"
    using sample_db by blast
  have one: "db_peers db 1 = Some (sample_node 2 [host4 9])" by (simp add: db(2))
  with peer_db_updates [OF plain_ipnet_ok db(1), of "sample_node 2 [host4 9]" 1 "sample_node 2 [host4 9]"]
  obtain db' where db': "PeerDb_remove plain_ipnet (ByPeerId 1) db = Some (Some (1, sample_node 2 [host4 9]), db')" "db_ok plain_ipnet db'"
    "db_peers db' = (db_peers db)(1 := None)" by blast
  moreover have "(db_peers db)(1 := None) = [0 \<mapsto> sample_node 1 [host4 9]]" by (simp add: db(2) fun_eq_iff)
  ultimately show ?thesis using db(1) one by metis
qed


theorem patch_leaves_stale_entries_witness:
  "\<exists>db db' n'. db_peers db 0 = Some (sample_node 1 [host4 9]) \<and>
     PeerDb_patch plain_ipnet \<lparr>nu_id = 1, nu_status = NodeOnline, nu_derp_region = None, nu_cap = None, nu_cap_map = None, nu_node_key = Some [5],
       nu_node_key_expiry = None, nu_disco_key = None, nu_tailnet_lock_key_signature = None, nu_underlay_addresses = None\<rparr> db = Some (0, db') \<and>
     nd_node_key n' = [5] \<and> PeerDb_get plain_ipnet (ByNodeKey [1]) db' = Some (Some (0, n'))"
proof -
  obtain db where db: "db_ok plain_ipnet db" "db_peers db = [0 \<mapsto> sample_node 1 [host4 9], 1 \<mapsto> sample_node 2 [host4 9]]"
    using sample_db by blast
  let ?u = "\<lparr>nu_id = 1, nu_status = NodeOnline, nu_derp_region = None, nu_cap = None, nu_cap_map = None, nu_node_key = Some [5],
       nu_node_key_expiry = None, nu_disco_key = None, nu_tailnet_lock_key_signature = None, nu_underlay_addresses = None\<rparr>"
  have "db_peers db 0 = Some (sample_node 1 [host4 9])" "nu_id ?u = nd_id (sample_node 1 [host4 9])" "nu_node_key ?u = Some [5]"
    "[5] \<noteq> nd_node_key (sample_node 1 [host4 9])" by (simp_all add: db(2) sample_node_sel)
  from this(1) patch_leaves_stale_entries [OF plain_ipnet_ok db(1) this] show ?thesis unfolding sample_node_sel by blast
qed

theorem key_handover_panics_witness:
  "\<exists>db. db_ok plain_ipnet db \<and>
     do { (_, db1) \<leftarrow> PeerDb_upsert plain_ipnet ((sample_node 2 [host4 9])\<lparr>nd_node_key := [1]\<rparr>) db;
          PeerDb_upsert plain_ipnet ((sample_node 1 [host4 9])\<lparr>nd_node_key := [3]\<rparr>) db1 } = None"
proof -
  obtain db where db: "db_ok plain_ipnet db" "db_peers db = [0 \<mapsto> sample_node 1 [host4 9], 1 \<mapsto> sample_node 2 [host4 9]]"
    using sample_db by blast
  have "db_peers db 0 = Some (sample_node 1 [host4 9])" "db_peers db 1 = Some (sample_node 2 [host4 9])" by (simp_all add: db(2))
  from db(1) key_handover_panics [OF db(1) this, of "(sample_node 2 [host4 9])\<lparr>nd_node_key := [1]\<rparr>" "(sample_node 1 [host4 9])\<lparr>nd_node_key := [3]\<rparr>"]
  show ?thesis by (intro exI [of _ db]) (simp add: sample_node_sel)
qed

theorem repeated_route_panics_witness:
  "\<exists>t. tbl_routes plain_ipnet t = [net_key plain_ipnet (host4 9) \<mapsto> [7]] \<and>
     do { t1 \<leftarrow> add_routes plain_ipnet [host4 9, host4 9] 5 t; remove_routes plain_ipnet [host4 9, host4 9] 5 t1 } = None"
proof -
  obtain t where t: "tbl_ok plain_ipnet t" "tbl_routes plain_ipnet t = [net_key plain_ipnet (host4 9) \<mapsto> [7 :: PeerId]]"
    using tbl_insert_spec [OF plain_ipnet_ok tbl_ok_EMPTY(1), of "host4 9" "[7]"] by (auto simp: tbl_ok_EMPTY(2))
  then have "tbl_routes plain_ipnet t (net_key plain_ipnet (host4 9)) = Some [7]" by simp
  from repeated_route_panics [OF plain_ipnet_ok t(1) this, of 5 "host4 9"] t(2) show ?thesis by (intro exI [of _ t]) simp
qed

end
