(* ===== verification/Runtime_Actors.thy ===== *)
theory Runtime_Actors
  imports Data_Plane Peer_Db
begin

text \<open>
  The actors of the runtime that keep the data plane up to date (\<open>ts_runtime/src\<close>): the peer
  tracker, the route updater, the source filter updater and the handlers of the data plane actor.
  Messages between actors are arguments and results; a hash set or map is iterated in an order
  that is an argument.  The region lookup of the multi-DERP actor is a parameter.
\<close>

section \<open>The peer tracker\<close>

datatype 'n PeerUpdate = Full "'n ControlNode list" | Delta "NodeUpdate list" "i64 list" "'n ControlNode list"

record 'n PeerState =
  ps_deletions :: "PeerId set"
  ps_upserts :: "PeerId set"
  ps_peers :: "'n PeerDb"

fun upsert_nodes :: "'n ipnet \<Rightarrow> 'n ControlNode list \<Rightarrow> PeerId set \<Rightarrow> 'n PeerDb \<Rightarrow> (PeerId set \<times> 'n PeerDb) option" where
  "upsert_nodes N [] upserts db = Some (upserts, db)"
| "upsert_nodes N (node # nodes) upserts db =
     do { (peer, db') \<leftarrow> PeerDb_upsert N node db; upsert_nodes N nodes (insert peer upserts) db' }"

fun patch_nodes :: "'n ipnet \<Rightarrow> NodeUpdate list \<Rightarrow> PeerId set \<Rightarrow> 'n PeerDb \<Rightarrow> (PeerId set \<times> 'n PeerDb) option" where
  "patch_nodes N [] upserts db = Some (upserts, db)"
| "patch_nodes N (update # updates) upserts db =
     do { (peer, db') \<leftarrow> PeerDb_patch N update db; patch_nodes N updates (insert peer upserts) db' }"

fun remove_nodes :: "'n ipnet \<Rightarrow> i64 list \<Rightarrow> PeerId set \<Rightarrow> 'n PeerDb \<Rightarrow> (PeerId set \<times> 'n PeerDb) option" where
  "remove_nodes N [] deletions db = Some (deletions, db)"
| "remove_nodes N (node_id # node_ids) deletions db =
     do {
       (removed, db') \<leftarrow> PeerDb_remove N (ByNodeId node_id) db;
       remove_nodes N node_ids (case removed of None \<Rightarrow> deletions | Some (peer, _) \<Rightarrow> insert peer deletions) db'
     }"

definition tracker_handle :: "'n ipnet \<Rightarrow> PeerId list \<Rightarrow> 'n PeerUpdate \<Rightarrow> 'n PeerDb \<Rightarrow> 'n PeerState option" where
  "tracker_handle N order update db =
     (case update of
        Full new_nodes \<Rightarrow>
          (let new_ids = set (map nd_stable_id new_nodes);
               keep = (\<lambda>_ peer. nd_stable_id peer \<in> new_ids);
               deletions = {i \<in> set order. \<exists>n\<in>set_option (db_peers db i). \<not> keep i n}
           in do {
                db1 \<leftarrow> PeerDb_retain N keep order db;
                (upserts, db2) \<leftarrow> upsert_nodes N new_nodes {} db1;
                Some \<lparr>ps_deletions = deletions, ps_upserts = upserts, ps_peers = db2\<rparr>
              })
      | Delta patch remove upsert \<Rightarrow>
          do {
            (deletions, db1) \<leftarrow> remove_nodes N remove {} db;
            (upserts, db2) \<leftarrow> upsert_nodes N upsert {} db1;
            (upserts', db3) \<leftarrow> patch_nodes N patch upserts db2;
            Some \<lparr>ps_deletions = deletions, ps_upserts = upserts', ps_peers = db3\<rparr>
          })"

section \<open>Routes and the source filter\<close>

fun insert_routes :: "'n ipnet \<Rightarrow> 'n list \<Rightarrow> 'v \<Rightarrow> ('n, 'v) SplitStackTable \<Rightarrow> ('n, 'v) SplitStackTable option" where
  "insert_routes N [] v t = Some t"
| "insert_routes N (route # rs) v t = do { (_, t') \<leftarrow> tbl_insert N t route v; insert_routes N rs v t' }"

fun peer_routes ::
  "'n ipnet \<Rightarrow> (u32 \<Rightarrow> UnderlayTransportId option) \<Rightarrow> (PeerId \<times> 'n ControlNode) list \<Rightarrow>
   ('n, OutRouteAction) SplitStackTable \<Rightarrow> (PeerId \<rightharpoonup> UnderlayTransportId) \<Rightarrow>
   (('n, OutRouteAction) SplitStackTable \<times> (PeerId \<rightharpoonup> UnderlayTransportId)) option" where
  "peer_routes N transport_for [] overlay_out underlay_out = Some (overlay_out, underlay_out)"
| "peer_routes N transport_for ((peer, node) # rest) overlay_out underlay_out =
     (case nd_derp_region node of
        None \<Rightarrow> peer_routes N transport_for rest overlay_out underlay_out
      | Some region \<Rightarrow>
          do {
            overlay_out' \<leftarrow> insert_routes N (nd_accepted_routes node) (OutWireguard peer) overlay_out;
            peer_routes N transport_for rest overlay_out'
              (case transport_for region of Some transport_id \<Rightarrow> underlay_out(peer \<mapsto> transport_id) | None \<Rightarrow> underlay_out)
          })"

definition route_updater_peers ::
  "'n ipnet \<Rightarrow> (u32 \<Rightarrow> UnderlayTransportId option) \<Rightarrow> PeerId list \<Rightarrow> 'n PeerState \<Rightarrow>
   (('n, OutRouteAction) SplitStackTable \<times> (PeerId \<rightharpoonup> UnderlayTransportId)) option" where
  "route_updater_peers N transport_for order msg =
     peer_routes N transport_for (map_iter order (db_peers (ps_peers msg))) SplitStackTable_EMPTY Map.empty"

definition route_updater_self :: "'n ipnet \<Rightarrow> OverlayTransportId \<Rightarrow> 'n ControlNode \<Rightarrow> ('n, InRouteAction) SplitStackTable option" where
  "route_updater_self N default_overlay_transport node =
     insert_routes N (nd_accepted_routes node) (ToOverlay default_overlay_transport) SplitStackTable_EMPTY"

fun src_filter_routes :: "'n ipnet \<Rightarrow> (PeerId \<times> 'n ControlNode) list \<Rightarrow> ('n, PeerId) SplitStackTable \<Rightarrow> ('n, PeerId) SplitStackTable option" where
  "src_filter_routes N [] t = Some t"
| "src_filter_routes N ((peer, node) # rest) t =
     do { t' \<leftarrow> insert_routes N (nd_accepted_routes node) peer t; src_filter_routes N rest t' }"

definition src_filter_updater :: "'n ipnet \<Rightarrow> PeerId list \<Rightarrow> 'n PeerState \<Rightarrow> ('n, PeerId) SplitStackTable option" where
  "src_filter_updater N order msg = src_filter_routes N (map_iter order (db_peers (ps_peers msg))) SplitStackTable_EMPTY"

section \<open>The data plane actor\<close>

definition actor_peer_routes ::
  "('n, OutRouteAction) SplitStackTable \<Rightarrow> (PeerId \<rightharpoonup> UnderlayTransportId) \<Rightarrow> 'n DataPlane \<Rightarrow> 'n DataPlane" where
  "actor_peer_routes overlay_out_routes underlay_routes dp =
     dp\<lparr>dp_or_out := snd (OutRouter_swap overlay_out_routes (dp_or_out dp)), dp_ur_out := (dp_ur_out dp)\<lparr>ur_table := underlay_routes\<rparr>\<rparr>"

definition actor_self_routes :: "('n, InRouteAction) SplitStackTable \<Rightarrow> 'n DataPlane \<Rightarrow> 'n DataPlane" where
  "actor_self_routes overlay_in_routes dp = dp\<lparr>dp_or_in := snd (InRouter_swap overlay_in_routes (dp_or_in dp))\<rparr>"

definition actor_packet_filter :: "filter_fn \<Rightarrow> 'n DataPlane \<Rightarrow> 'n DataPlane" where
  "actor_packet_filter f dp = dp\<lparr>dp_packet_filter := f\<rparr>"

definition actor_src_filter :: "('n, PeerId) SplitStackTable \<Rightarrow> 'n DataPlane \<Rightarrow> 'n DataPlane" where
  "actor_src_filter t dp = dp\<lparr>dp_src_filter_in := t\<rparr>"

definition runtime_config :: "'n ControlNode \<Rightarrow> PeerConfig" where
  "runtime_config node = \<lparr>cfg_key = nd_node_key node, cfg_psk = replicate 32 0\<rparr>"

fun actor_upserts :: "tunnel_env \<Rightarrow> 'n PeerDb \<Rightarrow> PeerId list \<Rightarrow> Tunnel \<Rightarrow> dp_fault + Tunnel" where
  "actor_upserts env peers [] t = Inr t"
| "actor_upserts env peers (peer # rest) t =
     bind_dp (of_option (db_peers peers peer)) (\<lambda>node.
     bind_dp (of_tunnel (Tunnel_upsert_peer env peer (runtime_config node) t)) (\<lambda>(_, t'). actor_upserts env peers rest t'))"

fun actor_deletions :: "PeerId list \<Rightarrow> Tunnel \<Rightarrow> dp_fault + Tunnel" where
  "actor_deletions [] t = Inr t"
| "actor_deletions (peer # rest) t = bind_dp (of_tunnel (Tunnel_remove_peer peer t)) (\<lambda>(_, t'). actor_deletions rest t')"

definition actor_peer_state ::
  "tunnel_env \<Rightarrow> PeerId list \<Rightarrow> PeerId list \<Rightarrow> 'n PeerState \<Rightarrow> 'n DataPlane \<Rightarrow> dp_fault + 'n DataPlane" where
  "actor_peer_state env upserts deletions msg dp =
     bind_dp (actor_upserts env (ps_peers msg) upserts (dp_tunnel dp)) (\<lambda>t.
     bind_dp (actor_deletions deletions t) (\<lambda>t'. Inr (dp\<lparr>dp_tunnel := t'\<rparr>)))"

section \<open>The tables the actors build\<close>

lemma insert_routes_spec:
  assumes "ipnet_ok N" and "tbl_ok N t"
  shows "\<exists>t'. insert_routes N rs v t = Some t' \<and> tbl_ok N t' \<and>
    tbl_routes N t' = (\<lambda>key. if key \<in> net_key N ` set rs then Some v else tbl_routes N t key)"
  using assms(2)
proof (induction rs arbitrary: t)
  case (Cons r rs)
  obtain t1 where t1: "tbl_insert N t r v = Some (tbl_routes N t (net_key N r), t1)" "tbl_ok N t1"
    "tbl_routes N t1 = (tbl_routes N t)(net_key N r \<mapsto> v)" using tbl_insert_spec [OF assms(1) Cons.prems] by blast
  from Cons.IH [OF t1(2)] obtain t2 where t2: "insert_routes N rs v t1 = Some t2" "tbl_ok N t2"
    "tbl_routes N t2 = (\<lambda>key. if key \<in> net_key N ` set rs then Some v else tbl_routes N t1 key)" by blast
  have "tbl_routes N t2 = (\<lambda>key. if key \<in> net_key N ` set (r # rs) then Some v else tbl_routes N t key)"
    unfolding t2(3) t1(3) by (rule ext) auto
  with t1(1) t2(1,2) show ?case by simp
qed simp

text \<open>The peer that owns a prefix: the last one, in iteration order, that accepts it.\<close>

fun claims :: "'n ipnet \<Rightarrow> (PeerId \<times> 'n ControlNode) list \<Rightarrow> (bool \<times> bool list \<rightharpoonup> PeerId) \<Rightarrow> (bool \<times> bool list \<rightharpoonup> PeerId)" where
  "claims N [] R = R"
| "claims N ((p, n) # L) R = claims N L (\<lambda>key. if key \<in> route_keys N n then Some p else R key)"

lemma claims_member: "claims N L R key = Some p \<Longrightarrow> R key = Some p \<or> (\<exists>n. (p, n) \<in> set L \<and> key \<in> route_keys N n)"
  by (induction N L R rule: claims.induct) (auto split: if_splits)

lemma src_filter_routes_spec:
  assumes "ipnet_ok N" and "tbl_ok N t"
  shows "\<exists>t'. src_filter_routes N L t = Some t' \<and> tbl_ok N t' \<and> tbl_routes N t' = claims N L (tbl_routes N t)"
  using assms(2)
proof (induction L arbitrary: t)
  case (Cons x L)
  obtain p n where x: "x = (p, n)" by (cases x)
  obtain t1 where "insert_routes N (nd_accepted_routes n) p t = Some t1" "tbl_ok N t1"
    "tbl_routes N t1 = (\<lambda>key. if key \<in> route_keys N n then Some p else tbl_routes N t key)"
    using insert_routes_spec [OF assms(1) Cons.prems] unfolding route_keys_def by blast
  with Cons.IH [of t1] x show ?case by simp
qed simp

abbreviation with_region :: "PeerId \<times> 'n ControlNode \<Rightarrow> bool" where
  "with_region x \<equiv> nd_derp_region (snd x) \<noteq> None"

lemma peer_routes_spec:
  assumes "ipnet_ok N" and "tbl_ok N t" and "tbl_routes N t = map_option OutWireguard \<circ> R"
  shows "\<exists>t' u'. peer_routes N tf L t u = Some (t', u') \<and> tbl_ok N t' \<and>
    tbl_routes N t' = map_option OutWireguard \<circ> claims N (filter with_region L) R"
  using assms(2,3)
proof (induction L arbitrary: t u R)
  case (Cons x L)
  obtain p n where x: "x = (p, n)" by (cases x)
  show ?case
  proof (cases "nd_derp_region n")
    case None
    with Cons x show ?thesis by simp
  next
    case (Some region)
    obtain t1 where t1: "insert_routes N (nd_accepted_routes n) (OutWireguard p) t = Some t1" "tbl_ok N t1"
      "tbl_routes N t1 = (\<lambda>key. if key \<in> route_keys N n then Some (OutWireguard p) else tbl_routes N t key)"
      using insert_routes_spec [OF assms(1) Cons.prems(1)] unfolding route_keys_def by blast
    have "tbl_routes N t1 = map_option OutWireguard \<circ> (\<lambda>key. if key \<in> route_keys N n then Some p else R key)"
      unfolding t1(3) Cons.prems(2) by (rule ext) simp
    from Cons.IH [OF t1(2) this] Some t1(1) x show ?thesis by simp
  qed
qed simp

lemma peer_routes_underlay:
  "peer_routes N tf L t u = Some (t', u') \<Longrightarrow> distinct (map fst L) \<Longrightarrow>
    u' p = (case map_of L p of None \<Rightarrow> u p
      | Some n \<Rightarrow> (case Option.bind (nd_derp_region n) tf of None \<Rightarrow> u p | Some tr \<Rightarrow> Some tr))"
proof (induction N tf L t u rule: peer_routes.induct)
  case (2 N tf peer node rest t u)
  have none: "map_of rest peer = None" using 2(4) by (simp add: map_of_eq_None_iff)
  show ?case
  proof (cases "nd_derp_region node")
    case None
    with 2(1) 2(3-) none show ?thesis by (auto split: option.splits)
  next
    case (Some region)
    then obtain t1 where "insert_routes N (nd_accepted_routes node) (OutWireguard peer) t = Some t1"
      "peer_routes N tf rest t1 (case tf region of Some tr \<Rightarrow> u(peer \<mapsto> tr) | None \<Rightarrow> u) = Some (t', u')"
      using 2(3) by (auto simp: bind_eq_Some_conv)
    from 2(2) [OF Some this] 2(4) none Some show ?thesis by (cases "tf region") (auto split: option.splits)
  qed
qed simp

lemma best_match_map: "best_match (\<lambda>bs. map_option f (R bs)) a = map_option f (best_match R a)"
proof (rule best_matchI)
  have "is_lpm R a (best_match R a)" by (rule best_match_lpm)
  then show "is_lpm (\<lambda>bs. map_option f (R bs)) a (map_option f (best_match R a))"
    by (cases "best_match R a") (force simp: is_lpm_def)+
qed

lemma best_match_member: "best_match R a = Some v \<Longrightarrow> \<exists>q. Sublist.prefix q a \<and> R q = Some v"
  using best_match_lpm [of R a] by (auto simp: is_lpm_def)

lemma key_contains:
  assumes "ipnet_ok N" and "ip_wf a" and "net_key N r = (is_ipv4 a, q)" and "Sublist.prefix q (ip_bits a)"
  shows "net_contains N r a"
proof -
  have r: "is_ipv4 (net_addr N r) = is_ipv4 a" "net_bits N r = q" using assms(3) by (simp_all add: net_key_def)
  have "net_fits N r" and c: "net_contains N r a = (is_ipv4 a = is_ipv4 (net_addr N r) \<and> take (unat (net_len N r)) (ip_bits a) = net_bits N r)"
    using assms(1,2) unfolding ipnet_ok_def by blast+
  then have "length q = unat (net_len N r)" using r(2) by (auto simp: net_fits_def net_bits_def)
  then show ?thesis using c r assms(4) by (auto simp: prefix_def)
qed

lemma map_iter_simps:
  "set (map_iter order m) = {(k, v). k \<in> set order \<and> m k = Some v}"
  "distinct order \<Longrightarrow> distinct (map fst (map_iter order m))"
  "map_of (map_iter order m) p = (if p \<in> set order then m p else None)"
proof -
  have fst: "fst ` set (map_iter order m) \<subseteq> set order" for order
    by (induction order) (auto simp: map_iter_def map_filter_simps split: option.splits)
  show "set (map_iter order m) = {(k, v). k \<in> set order \<and> m k = Some v}"
    by (induction order) (auto simp: map_iter_def map_filter_simps split: option.splits)
  show "distinct (map fst (map_iter order m))" if "distinct order"
    using that
  proof (induction order)
    case (Cons k order)
    with fst [of order] show ?case by (auto simp: map_iter_def map_filter_simps split: option.splits)
  qed (simp add: map_iter_def map_filter_simps)
  show "map_of (map_iter order m) p = (if p \<in> set order then m p else None)"
    by (induction order) (auto simp: map_iter_def map_filter_simps split: option.splits)
qed

section \<open>Routing by peers\<close>

lemma owner_accepts:
  assumes "ipnet_ok N" and "ip_wf a" and "best_match (\<lambda>bs. claims N L Map.empty (is_ipv4 a, bs)) (ip_bits a) = Some p"
  shows "\<exists>n r. (p, n) \<in> set L \<and> r \<in> set (nd_accepted_routes n) \<and> net_contains N r a"
proof -
  obtain q where q: "Sublist.prefix q (ip_bits a)" "claims N L Map.empty (is_ipv4 a, q) = Some p" using best_match_member [OF assms(3)] by blast
  then obtain n where n: "(p, n) \<in> set L" "(is_ipv4 a, q) \<in> route_keys N n" using claims_member [OF q(2)] by auto
  then obtain r where "r \<in> set (nd_accepted_routes n)" "net_key N r = (is_ipv4 a, q)" by (auto simp: route_keys_def)
  with n(1) key_contains [OF assms(1,2) _ q(1)] show ?thesis by blast
qed


section \<open>The data plane actor as a sequence of peer operations\<close>

definition state_ops :: "'n PeerDb \<Rightarrow> PeerId list \<Rightarrow> PeerId list \<Rightarrow> table_op list" where
  "state_ops db upserts deletions = map (\<lambda>i. AddPeer i (runtime_config (the (db_peers db i)))) upserts @ map DropPeer deletions"

lemma peers_run_append: "peers_run up rm (xs @ ys) t = bind_res (peers_run up rm xs t) (peers_run up rm ys)"
proof (induction up rm xs t rule: peers_run.induct)
  case (2 up rm i cfg ops e)
  then show ?case by (cases "up i cfg e") auto
next
  case (3 up rm i ops e)
  then show ?case by (cases "rm i e") auto
qed simp

lemma actor_upserts_run:
  "(\<And>i. i \<in> set ups \<Longrightarrow> db_peers db i \<noteq> None) \<Longrightarrow> actor_upserts env db ups t =
    of_tunnel (peers_run (Tunnel_upsert_peer env) Tunnel_remove_peer (map (\<lambda>i. AddPeer i (runtime_config (the (db_peers db i)))) ups) t)"
proof (induction ups arbitrary: t)
  case (Cons i ups)
  obtain n where "db_peers db i = Some n" using Cons.prems [of i] by auto
  with Cons show ?case by (cases "Tunnel_upsert_peer env i (runtime_config n) t") auto
qed simp

lemma actor_deletions_run: "actor_deletions dels t = of_tunnel (peers_run up Tunnel_remove_peer (map DropPeer dels) t)"
proof (induction dels arbitrary: t)
  case (Cons i dels)
  then show ?case by (cases "Tunnel_remove_peer i t") auto
qed simp

lemma actor_peer_state_run:
  assumes "\<And>i. i \<in> set ups \<Longrightarrow> db_peers (ps_peers msg) i \<noteq> None"
  shows "actor_peer_state env ups dels msg dp =
    bind_dp (of_tunnel (peers_run (Tunnel_upsert_peer env) Tunnel_remove_peer (state_ops (ps_peers msg) ups dels) (dp_tunnel dp)))
      (\<lambda>t. Inr (dp\<lparr>dp_tunnel := t\<rparr>))"
proof -
  let ?up = "Tunnel_upsert_peer env" and ?adds = "map (\<lambda>i. AddPeer i (runtime_config (the (db_peers (ps_peers msg) i)))) ups"
  have "actor_upserts env (ps_peers msg) ups (dp_tunnel dp) = of_tunnel (peers_run ?up Tunnel_remove_peer ?adds (dp_tunnel dp))"
    by (rule actor_upserts_run) (rule assms)
  then show ?thesis
    by (cases "peers_run ?up Tunnel_remove_peer ?adds (dp_tunnel dp)")
      (auto simp: actor_peer_state_def state_ops_def peers_run_append actor_deletions_run [where up = ?up])
qed

text \<open>A peer state that keeps every node key with its peer.\<close>

definition state_allowed :: "Tunnel \<Rightarrow> PeerId list \<Rightarrow> PeerId list \<Rightarrow> 'n PeerState \<Rightarrow> bool" where
  "state_allowed t ups dels msg \<longleftrightarrow> (\<forall>i\<in>set ups. db_peers (ps_peers msg) i \<noteq> None) \<and>
     table_run_allowed (state_ops (ps_peers msg) ups dels) (\<lambda>i. Tunnel_peer_key i t)"

lemma actor_peer_state_ok:
  assumes "tunnel_inv (dp_tunnel dp)" and "state_allowed (dp_tunnel dp) ups dels msg"
  obtains t where "actor_peer_state env ups dels msg dp = Inr (dp\<lparr>dp_tunnel := t\<rparr>)" and "tunnel_inv t"
    and "(\<lambda>i. Tunnel_peer_key i t) = fold table_step (state_ops (ps_peers msg) ups dels) (\<lambda>i. Tunnel_peer_key i (dp_tunnel dp))"
proof -
  obtain t where t: "peers_run (Tunnel_upsert_peer env) Tunnel_remove_peer (state_ops (ps_peers msg) ups dels) (dp_tunnel dp) = Inr t" "tunnel_inv t"
    "(\<lambda>i. Tunnel_peer_key i t) = fold table_step (state_ops (ps_peers msg) ups dels) (\<lambda>i. Tunnel_peer_key i (dp_tunnel dp))"
    using tunnel.run_refines [OF assms(1)] assms(2) unfolding state_allowed_def by blast
  moreover have "actor_peer_state env ups dels msg dp = Inr (dp\<lparr>dp_tunnel := t\<rparr>)"
    using assms(2) t(1) by (subst actor_peer_state_run) (auto simp: state_allowed_def)
  ultimately show thesis using that by blast
qed

section \<open>Reachable data planes\<close>

inductive plane_reachable :: "'n ipnet \<Rightarrow> 'n DataPlane \<Rightarrow> bool" for N where
  plane_new: "plane_reachable N (fst (DataPlane_new env ent g protocol key))"
| plane_outbound: "plane_reachable N dp \<Longrightarrow> env_ok env \<Longrightarrow> de_net env = N \<Longrightarrow> distinct dests \<Longrightarrow> set dests = dom (by_dest packets) \<Longrightarrow>
    process_outbound env dests order order' packets dp g = Inr (res, dp', g') \<Longrightarrow> plane_reachable N dp'"
| plane_inbound: "plane_reachable N dp \<Longrightarrow> env_ok env \<Longrightarrow> de_net env = N \<Longrightarrow>
    process_inbound env sessions peers order order' packets dp = Inr (res', dp') \<Longrightarrow> plane_reachable N dp'"
| plane_events: "plane_reachable N dp \<Longrightarrow> env_ok env \<Longrightarrow> de_net env = N \<Longrightarrow>
    process_events env order dp = Inr (routed, dp') \<Longrightarrow> plane_reachable N dp'"
| plane_peer_routes: "plane_reachable N dp \<Longrightarrow> tbl_ok N out \<Longrightarrow> plane_reachable N (actor_peer_routes out underlay dp)"
| plane_self_routes: "plane_reachable N dp \<Longrightarrow> tbl_ok N inr \<Longrightarrow> plane_reachable N (actor_self_routes inr dp)"
| plane_packet_filter: "plane_reachable N dp \<Longrightarrow> (\<forall>info caps. f info caps \<noteq> None) \<Longrightarrow> plane_reachable N (actor_packet_filter f dp)"
| plane_src_filter: "plane_reachable N dp \<Longrightarrow> tbl_ok N src \<Longrightarrow> plane_reachable N (actor_src_filter src dp)"
| plane_peer_state: "plane_reachable N dp \<Longrightarrow> state_allowed (dp_tunnel dp) ups dels msg \<Longrightarrow>
    actor_peer_state tenv ups dels msg dp = Inr dp' \<Longrightarrow> plane_reachable N dp'"

abbreviation net_env :: "'n ipnet \<Rightarrow> 'n dp_env" where
  "net_env N \<equiv> \<lparr>de_tunnel = sample_env, de_net = N, de_from_ip = (\<lambda>_. None)\<rparr>"

lemma dp_inv_net: "de_net env = N \<Longrightarrow> dp_inv env dp = dp_inv (net_env N) dp"
  by (simp add: dp_inv_def)

lemma safe_dp_InrD: "safe_dp r Q \<Longrightarrow> r = Inr x \<Longrightarrow> Q x"
  by simp

lemma timer_start: "sched_events Scheduler_default = []"
  by (simp add: Scheduler_default_def)

lemma plane_inv: "plane_reachable N dp \<Longrightarrow> dp_inv (net_env N) dp"
proof (induction rule: plane_reachable.induct)
  case (plane_new env ent g protocol key)
  show ?case using tunnel_inv_new [of "de_tunnel env" ent g protocol key]
    by (cases "Tunnel_new (de_tunnel env) ent g protocol key")
      (simp add: DataPlane_new_def dp_inv_def timer_inv_def sched_inv_default OutRouter_default_def InRouter_default_def tbl_ok_EMPTY(1) timer_start)
next
  case (plane_outbound dp env dests packets order order' g res dp' g')
  have "dp_inv env dp" using plane_outbound.IH dp_inv_net [OF plane_outbound.hyps(3), of dp] by blast
  from safe_process_outbound [OF plane_outbound.hyps(2) this plane_outbound.hyps(4,5), of order order' g]
  show ?case using dp_inv_net [OF plane_outbound.hyps(3), of dp'] unfolding plane_outbound.hyps(6) by (simp add: good_def)
next
  case (plane_inbound dp env sessions peers order order' packets res' dp')
  have "dp_inv env dp" using plane_inbound.IH dp_inv_net [OF plane_inbound.hyps(3), of dp] by blast
  from safe_process_inbound [OF plane_inbound.hyps(2) this, of sessions peers order order' packets]
  show ?case using dp_inv_net [OF plane_inbound.hyps(3), of dp'] unfolding plane_inbound.hyps(4) by (simp add: good_def)
next
  case (plane_events dp env order routed dp')
  have "dp_inv env dp" using plane_events.IH dp_inv_net [OF plane_events.hyps(3), of dp] by blast
  from safe_process_events [OF this, of order]
  show ?case using dp_inv_net [OF plane_events.hyps(3), of dp'] unfolding plane_events.hyps(4) by (simp add: good_def)
next
  case (plane_peer_state dp ups dels msg tenv dp')
  have "tunnel_inv (dp_tunnel dp)" using plane_peer_state.IH by (simp add: dp_inv_def)
  then obtain t where "actor_peer_state tenv ups dels msg dp = Inr (dp\<lparr>dp_tunnel := t\<rparr>)" "tunnel_inv t"
    using plane_peer_state.hyps(2) by (rule actor_peer_state_ok)
  then show ?case using plane_peer_state.IH plane_peer_state.hyps(3) by (auto simp: dp_inv_def)
qed (simp_all add: dp_inv_def timer_inv_def actor_peer_routes_def actor_self_routes_def actor_packet_filter_def actor_src_filter_def
    OutRouter_swap_def InRouter_swap_def)

text \<open>How an operation of the data plane may end.\<close>

definition fine :: "'n ipnet \<Rightarrow> dp_fault + 'n DataPlane \<Rightarrow> bool" where
  "fine N r = (case r of
      Inl (TunnelFault e) \<Rightarrow> e = SessionIdsStarved \<or> e = NonceExhausted
    | Inl DpPanic \<Rightarrow> False
    | Inr dp \<Rightarrow> plane_reachable N dp \<and> (\<forall>r. Tunnel_next_event (dp_tunnel dp) = Some r \<longrightarrow> dp_next_event dp = Some (tr_end r)))"

lemma fineI:
  assumes "safe_dp r (\<lambda>x. good env (h x))" and "\<And>x. r = Inr x \<Longrightarrow> plane_reachable N (h x)"
  shows "fine N (map_sum (\<lambda>e. e) h r)"
proof (cases r)
  case (Inl e)
  with assms(1) show ?thesis by (cases e) (auto simp: fine_def safe_dp_def tolerated_def)
next
  case (Inr x)
  with assms have "good env (h x)" "plane_reachable N (h x)" by simp_all
  moreover have "dp_next_event (h x) = Some (tr_end r)" if "good env (h x)" "Tunnel_next_event (dp_tunnel (h x)) = Some r" for r
    using that by (intro armed_next_event Tunnel_next_event_ordered [OF that(2)]) (simp add: good_def timer_set_def)
  ultimately show ?thesis by (simp add: Inr fine_def)
qed

lemma reachable_inv: "plane_reachable N dp \<Longrightarrow> de_net env = N \<Longrightarrow> dp_inv env dp"
  using plane_inv [of N dp] dp_inv_net [of env N dp] by blast

lemma outbound_fine:
  assumes "plane_reachable N dp" and "env_ok env" and "de_net env = N" and "distinct dests" and "set dests = dom (by_dest packets)"
  shows "fine N (map_sum (\<lambda>e. e) (\<lambda>(_, dp', _). dp') (process_outbound env dests order order' packets dp g))"
proof (rule fineI)
  show "safe_dp (process_outbound env dests order order' packets dp g) (\<lambda>x. good env ((\<lambda>(_, dp', _). dp') x))"
    using safe_process_outbound [OF assms(2) reachable_inv [OF assms(1,3)] assms(4,5), of order order' g] by (simp only: split_beta')
  show "plane_reachable N ((\<lambda>(_, dp', _). dp') x)" if "process_outbound env dests order order' packets dp g = Inr x" for x
    using that plane_outbound [OF assms(1-5)] by (cases x) auto
qed

lemma inbound_fine:
  assumes "plane_reachable N dp" and "env_ok env" and "de_net env = N"
  shows "fine N (map_sum (\<lambda>e. e) snd (process_inbound env sessions peers order order' packets dp))"
proof (rule fineI)
  show "safe_dp (process_inbound env sessions peers order order' packets dp) (\<lambda>x. good env (snd x))"
    using safe_process_inbound [OF assms(2) reachable_inv [OF assms(1,3)], of sessions peers order order' packets] by (simp only: split_beta')
  show "plane_reachable N (snd x)" if "process_inbound env sessions peers order order' packets dp = Inr x" for x
    using that plane_inbound [OF assms(1-3)] by (cases x) auto
qed

lemma events_fine:
  assumes "plane_reachable N dp" and "env_ok env" and "de_net env = N"
  shows "fine N (map_sum (\<lambda>e. e) snd (process_events env order dp))"
proof (rule fineI)
  show "safe_dp (process_events env order dp) (\<lambda>x. good env (snd x))"
    using safe_process_events [OF reachable_inv [OF assms(1,3)], of order] by (simp only: split_beta')
  show "plane_reachable N (snd x)" if "process_events env order dp = Inr x" for x
    using that plane_events [OF assms(1-3)] by (cases x) auto
qed

text \<open>
  C6. The data plane never panics.  From a fresh data plane on, in any interleaving of packets,
  timer events and updates of its routes, filters and peers, processing packets or events either
  succeeds or stops at the deliberate limit of \<open>2^64\<close> packets of one session (or the model's
  exhausted supply of random session ids).  Afterwards the event loop is told to wake up for the
  next event of the tunnel.  The conditions say that tables come from the routing library, that
  the filter itself answers, and that a peer update gives no node key to two peers.
\<close>

theorem data_plane_never_panics:
  assumes "plane_reachable N dp" and "env_ok env" and "de_net env = N" and "distinct dests" and "set dests = dom (by_dest packets)"
  shows "fine N (map_sum (\<lambda>e. e) (\<lambda>(_, dp', _). dp') (process_outbound env dests order order' packets dp g)) \<and>
    fine N (map_sum (\<lambda>e. e) snd (process_inbound env sessions peers order order' packets dp)) \<and>
    fine N (map_sum (\<lambda>e. e) snd (process_events env order dp))"
  by (intro conjI outbound_fine inbound_fine events_fine assms)

section \<open>The tunnel follows the peer database\<close>

lemma upsert_result:
  assumes "PeerDb_upsert N n db = Some (i, db')" and "idx_ok (\<lambda>n. {nd_stable_id n}) (db_peers db) (ix_stableid (db_index db))"
  shows "db_peers db' = (db_peers db)(i \<mapsto> n)" and "i = assigned_id db n" and "db_next_id db \<le> db_next_id db'"
    and "idx_ok (\<lambda>n. {nd_stable_id n}) (db_peers db') (ix_stableid (db_index db'))"
proof -
  let ?st = "ix_stableid (db_index db) (nd_stable_id n)"
  obtain nx where nx: "(case ?st of Some i \<Rightarrow> Some (i, db_next_id db)
      | None \<Rightarrow> do { n \<leftarrow> checked_add (db_next_id db) 1; Some (db_next_id db, n) }) = Some (i, nx)" and nx': "db_next_id db' = nx"
    and peers: "db_peers db i = Some n \<and> db_peers db' = db_peers db \<and> db_index db' = db_index db \<or>
      db_peers db' = (db_peers db)(i \<mapsto> n) \<and> maybe_update_idx n (db_peers db i) nd_stable_id (ix_stableid (db_index db)) i = Some (ix_stableid (db_index db'))"
    using assms(1) unfolding PeerDb_upsert_def Let_def
    by (auto simp: bind_eq_Some_conv split: if_splits option.splits)
  show "db_peers db' = (db_peers db)(i \<mapsto> n)" using peers by auto
  show i: "i = assigned_id db n" using nx by (auto simp: assigned_id_def bind_eq_Some_conv split: option.splits)
  show "db_next_id db \<le> db_next_id db'"
    using nx nx' word_less_succ [of "db_next_id db" "db_next_id db"] by (auto simp: bind_eq_Some_conv split: option.splits)
  from idx_ok_put [OF assms(2) stable_no_clash [OF assms(2)], of n] i peers assms(2) maybe_update_idx_step [OF assms(2), of n i]
  show "idx_ok (\<lambda>n. {nd_stable_id n}) (db_peers db') (ix_stableid (db_index db'))" by auto
qed

lemma upsert_nodes_result:
  assumes "upsert_nodes N nodes ups db = Some (ups', db')"
    and "idx_ok (\<lambda>n. {nd_stable_id n}) (db_peers db) (ix_stableid (db_index db))" and "\<forall>i\<in>ups. db_peers db i \<noteq> None"
  shows "ups \<subseteq> ups' \<and> (\<forall>i\<in>ups'. (i \<in> ups \<or> db_peers db i \<noteq> None \<or> db_next_id db \<le> i) \<and> db_peers db' i \<noteq> None) \<and>
    (\<forall>i. i \<notin> ups' \<longrightarrow> db_peers db' i = db_peers db i)"
  using assms
proof (induction N nodes ups db rule: upsert_nodes.induct)
  case (2 N node nodes ups db)
  obtain p db1 where p: "PeerDb_upsert N node db = Some (p, db1)" "upsert_nodes N nodes (insert p ups) db1 = Some (ups', db')"
    using 2(2) by (auto simp: bind_eq_Some_conv)
  note r = upsert_result [OF p(1) 2(3)]
  have ins: "\<forall>i\<in>insert p ups. db_peers db1 i \<noteq> None" using r(1) 2(4) by auto
  note IH = 2(1) [OF p(1) refl p(2) r(4) ins]
  have "db_peers db p \<noteq> None \<or> db_next_id db \<le> p"
    using r(2) 2(3) by (auto simp: assigned_id_def idx_ok_def split: option.splits)
  then show ?case using IH r(1,3) by (auto split: if_splits)
qed auto

definition in_sync :: "Tunnel \<Rightarrow> 'n PeerDb \<Rightarrow> bool" where
  "in_sync t db \<longleftrightarrow> (\<forall>i. Tunnel_peer_key i t = map_option nd_node_key (db_peers db i))"

definition new_key :: "'n PeerState \<Rightarrow> PeerId \<Rightarrow> bytes" where
  "new_key msg i = nd_node_key (the (db_peers (ps_peers msg) i))"

text \<open>No peer gets the key that another one has, or gets, in the update.\<close>

definition keys_stay :: "Tunnel \<Rightarrow> 'n PeerState \<Rightarrow> bool" where
  "keys_stay t msg \<longleftrightarrow> (\<forall>i\<in>ps_upserts msg. \<forall>j. j \<noteq> i \<longrightarrow> Tunnel_peer_key j t \<noteq> Some (new_key msg i) \<and>
     (j \<in> ps_upserts msg \<longrightarrow> new_key msg j \<noteq> new_key msg i))"

lemma adds_allowed:
  assumes "\<And>i j. i \<in> set ups \<Longrightarrow> j \<noteq> i \<Longrightarrow> m j \<noteq> Some (cfg_key (c i)) \<and> (j \<in> set ups \<longrightarrow> cfg_key (c j) \<noteq> cfg_key (c i))"
  shows "table_run_allowed (map (\<lambda>i. AddPeer i (c i)) ups @ map DropPeer dels) m"
  using assms
proof (induction ups arbitrary: m)
  case Nil
  have "table_run_allowed (map DropPeer dels) m" for m by (induction dels arbitrary: m) simp_all
  then show ?case by simp
next
  case (Cons i ups)
  have "table_run_allowed (map (\<lambda>i. AddPeer i (c i)) ups @ map DropPeer dels) (m(i \<mapsto> cfg_key (c i)))"
    by (rule Cons.IH) (use Cons.prems in \<open>auto split: if_splits\<close>)
  moreover have "\<forall>j. m j = Some (cfg_key (c i)) \<longrightarrow> j = i" using Cons.prems [of i] by auto
  ultimately show ?case by simp
qed

lemma fold_state_ops:
  "fold table_step (map (\<lambda>i. AddPeer i (c i)) ups @ map DropPeer dels) m =
     (\<lambda>j. if j \<in> set dels then None else if j \<in> set ups then Some (cfg_key (c j)) else m j)"
proof -
  have "fold table_step (map (\<lambda>i. AddPeer i (c i)) ups) m = (\<lambda>j. if j \<in> set ups then Some (cfg_key (c j)) else m j)" for m
    by (induction ups arbitrary: m) (auto simp: fun_eq_iff)
  moreover have "fold table_step (map DropPeer dels) m = (\<lambda>j. if j \<in> set dels then None else m j)" for m
    by (induction dels arbitrary: m) (auto simp: fun_eq_iff)
  ultimately show ?thesis by simp
qed

lemma full_update_result:
  assumes "ipnet_ok N" and "db_ok N db" and "set order = dom (db_peers db)" and "tracker_handle N order (Full nodes) db = Some msg"
  shows "ps_upserts msg \<inter> ps_deletions msg = {}" and "\<And>i. i \<in> ps_upserts msg \<Longrightarrow> db_peers (ps_peers msg) i \<noteq> None"
    and "\<And>i. i \<in> ps_deletions msg \<Longrightarrow> db_peers (ps_peers msg) i = None"
    and "\<And>i. i \<notin> ps_upserts msg \<Longrightarrow> i \<notin> ps_deletions msg \<Longrightarrow> db_peers (ps_peers msg) i = db_peers db i"
proof -
  let ?keep = "\<lambda>(_ :: PeerId) peer. nd_stable_id peer \<in> set (map nd_stable_id nodes)"
  obtain db1 where db1: "PeerDb_retain N ?keep order db = Some db1" "db_ok N db1" "db_peers db1 = retained ?keep (set order) (db_peers db)"
    using retain_spec [OF assms(1,2)] by blast
  from assms(4) db1(1) obtain ups db2 where up: "upsert_nodes N nodes {} db1 = Some (ups, db2)"
    and msg: "ps_upserts msg = ups" "ps_peers msg = db2"
      "ps_deletions msg = {i \<in> set order. \<exists>n\<in>set_option (db_peers db i). \<not> ?keep i n}"
    by (auto simp: tracker_handle_def Let_def bind_eq_Some_conv)
  note r = upsert_nodes_result [OF up db_okD(4) [OF db1(2)]]
  have nx: "db_next_id db1 = db_next_id db"
    using db1(1)
  proof -
    have "PeerDb_retain N keep ord d = Some d' \<Longrightarrow> db_next_id d' = db_next_id d" for keep ord and d d' :: "'a PeerDb"
      by (induction N keep ord d rule: PeerDb_retain.induct) (auto simp: bind_eq_Some_conv split: option.splits if_splits)
    then show ?thesis using db1(1) by blast
  qed
  have del: "db_peers db1 i = None" "i < db_next_id db1" if "i \<in> ps_deletions msg" for i
    using that db_okD(2) [OF assms(2), of i] by (auto simp: msg(3) db1(3) retained_def nx)
  show disj: "ps_upserts msg \<inter> ps_deletions msg = {}"
  proof -
    have "\<not> i \<in> ups" if "i \<in> ps_deletions msg" for i using r del [OF that] by force
    then show ?thesis using msg(1) by auto
  qed
  show "db_peers (ps_peers msg) i \<noteq> None" if "i \<in> ps_upserts msg" for i using that r by (simp add: msg)
  show "db_peers (ps_peers msg) i = None" if "i \<in> ps_deletions msg" for i
    using that r del(1) [OF that] disj by (auto simp: msg(1,2))
  show "db_peers (ps_peers msg) i = db_peers db i" if "i \<notin> ps_upserts msg" "i \<notin> ps_deletions msg" for i
  proof -
    have "db_peers db1 i = db_peers db i" using that(2) unfolding db1(3) msg(3) retained_def by auto
    with r that(1) show ?thesis by (simp add: msg(1,2))
  qed
qed

text \<open>
  C11. The tunnel follows the peer database.  When the tunnel's keys are those of the peers in the
  database and the control server sends a full list of nodes that moves no key between peers,
  the tracker's new state can be applied in any order of its sets without a panic, and the
  tunnel's keys are again those of the peers in the new database.
\<close>

theorem tunnel_follows_peer_db:
  assumes "ipnet_ok N" and "db_ok N db" and "set order = dom (db_peers db)" and "tracker_handle N order (Full nodes) db = Some msg"
    and "tunnel_inv (dp_tunnel dp)" and "in_sync (dp_tunnel dp) db" and "keys_stay (dp_tunnel dp) msg"
    and "set ups = ps_upserts msg" and "set dels = ps_deletions msg"
  shows "\<exists>dp'. actor_peer_state env ups dels msg dp = Inr dp' \<and> tunnel_inv (dp_tunnel dp') \<and> in_sync (dp_tunnel dp') (ps_peers msg)"
proof -
  note R = full_update_result [OF assms(1-4)]
  let ?c = "\<lambda>i. runtime_config (the (db_peers (ps_peers msg) i))" and ?t = "dp_tunnel dp"
  have key: "cfg_key (?c i) = new_key msg i" for i by (simp add: runtime_config_def new_key_def)
  have "table_run_allowed (state_ops (ps_peers msg) ups dels) (\<lambda>i. Tunnel_peer_key i ?t)"
    unfolding state_ops_def by (rule adds_allowed) (use assms(7,8) in \<open>auto simp: keys_stay_def key\<close>)
  then have "state_allowed ?t ups dels msg" using R(2) assms(8) by (simp add: state_allowed_def)
  then obtain t where t: "actor_peer_state env ups dels msg dp = Inr (dp\<lparr>dp_tunnel := t\<rparr>)" "tunnel_inv t"
    "(\<lambda>i. Tunnel_peer_key i t) = fold table_step (state_ops (ps_peers msg) ups dels) (\<lambda>i. Tunnel_peer_key i ?t)"
    by (rule actor_peer_state_ok [OF assms(5)])
  have "Tunnel_peer_key i t = map_option nd_node_key (db_peers (ps_peers msg) i)" for i
  proof -
    have "Tunnel_peer_key i t = (if i \<in> set dels then None else if i \<in> set ups then Some (new_key msg i) else Tunnel_peer_key i ?t)"
      using fun_cong [OF t(3), of i] unfolding state_ops_def fold_state_ops by (simp add: key)
    moreover have "Some (new_key msg i) = map_option nd_node_key (db_peers (ps_peers msg) i)" if "i \<in> ps_upserts msg"
      using R(2) [OF that] by (auto simp: new_key_def)
    ultimately show ?thesis using R assms(6,8,9) by (auto simp: in_sync_def)
  qed
  with t(1,2) show ?thesis by (auto simp: in_sync_def)
qed

section \<open>Where the runtime fails\<close>

lemma upsert_taken_key:
  assumes "tunnel_inv t" and "Tunnel_peer_key i t = Some k" and "Tunnel_peer_key j t = None" and "cfg_key c = k"
  shows "Tunnel_upsert_peer env j c t = Inl NodeKeyCollision"
proof (cases t)
  case (Wireguard e)
  then have "peer_id k e = Some i" "ep_peers e j = None" using assms wg.index [of e k i] by (auto simp: peer_key_def)
  with assms(4) Wireguard show ?thesis by (simp add: upsert_peer_def peer_id_def get_by_nodekey_def add_peer_def)
next
  case (Shadowvpn e)
  then have "sve_by_key e k = Some i" "i \<noteq> j" using assms sv.index [of e k i] by (auto simp: sv_peer_id_def)
  with assms(4) Shadowvpn show ?thesis by (simp add: sv_upsert_peer_def)
qed

text \<open>
  C33. Replacing a peer panics.  The data plane actor applies the upserts of a peer state before its
  deletions.  When a node comes back under a new stable id with its old node key, the database
  removes the old entry first and stays consistent, but the actor adds the new peer while the old
  one still has the key, and the assertion of the tunnel fails, whatever the protocol.
\<close>

theorem peer_replacement_panics:
  assumes "tunnel_inv (dp_tunnel dp)" and "Tunnel_peer_key i (dp_tunnel dp) = Some (nd_node_key n)" and "Tunnel_peer_key j (dp_tunnel dp) = None"
    and "db_peers (ps_peers msg) j = Some n"
  shows "actor_peer_state env (j # ups) dels msg dp = Inl (TunnelFault NodeKeyCollision)"
  using upsert_taken_key [OF assms(1-3), of "runtime_config n"] assms(4) by (simp add: actor_peer_state_def runtime_config_def)

lemma actor_deletions_shadowvpn:
  "\<exists>e'. actor_deletions dels (Shadowvpn e) = Inr (Shadowvpn e') \<and> sve_cipher e' = sve_cipher e \<and>
     (\<forall>i. i \<notin> set dels \<longrightarrow> sve_peers e' i = sve_peers e i)"
proof (induction dels arbitrary: e)
  case (Cons d dels)
  obtain b e1 where e1: "sv_remove_peer d e = (b, e1)" by fastforce
  then have "sve_cipher e1 = sve_cipher e" "\<forall>i. i \<noteq> d \<longrightarrow> sve_peers e1 i = sve_peers e i"
    by (auto simp: sv_remove_peer_def split: option.splits)
  with Cons [of e1] e1 show ?case by force
qed simp

lemma actor_upserts_shadowvpn:
  "actor_upserts env db ups (Shadowvpn e) = Inr t \<Longrightarrow>
    \<exists>e'. t = Shadowvpn e' \<and> sve_cipher e' = sve_cipher e \<and>
      (\<forall>i. if i \<in> set ups then \<exists>c. cfg_psk c = replicate 32 0 \<and> sve_peers e' i = Some (SvPeer_new i c (sve_cipher e))
            else sve_peers e' i = sve_peers e i)"
proof (induction ups arbitrary: e)
  case (Cons i ups)
  then obtain n where n: "db_peers db i = Some n" by (cases "db_peers db i") auto
  let ?c = "runtime_config n"
  obtain old e1 where e1: "sv_upsert_peer i ?c e = Inr (old, e1)" "actor_upserts env db ups (Shadowvpn e1) = Inr t"
    using Cons.prems n by (cases "sv_upsert_peer i ?c e") auto
  then have "sve_cipher e1 = sve_cipher e" "sve_peers e1 = (sve_peers e)(i \<mapsto> SvPeer_new i ?c (sve_cipher e))"
    by (auto simp: sv_upsert_peer_def Let_def split: option.splits if_splits)
  moreover have "cfg_psk ?c = replicate 32 0" by (simp add: runtime_config_def)
  ultimately show ?case using Cons.IH [OF e1(2)] by (auto split: if_splits)
qed auto

text \<open>
  C34. Over ShadowVPN all peers of the runtime share one known key.  The data plane actor configures
  every peer with a pre-shared key of zeros, which is the whole key material of this protocol:
  every datagram that any peer or bystander seals with it opens, and it is attributed to whichever
  peer comes first in the iteration of the peer map.
\<close>

theorem shadowvpn_peers_share_zero_key:
  assumes "dp_tunnel dp = Shadowvpn e" and "actor_peer_state env ups dels msg dp = Inr dp'" and "i \<in> set ups" and "i \<notin> set dels"
  shows "\<exists>e' peer. dp_tunnel dp' = Shadowvpn e' \<and> sve_peers e' i = Some peer \<and> svp_id peer = i \<and>
    svp_master_key peer = replicate (key_len (sve_cipher e')) 0 \<and>
    (\<forall>order d p. decrypt_packet S (sve_cipher e') (replicate (key_len (sve_cipher e')) 0) d = Inr p \<longrightarrow>
       sv_trial S (sve_cipher e') (List.map_filter (sve_peers e') (i # order)) d = Some (peer, p))"
proof -
  obtain t where t: "actor_upserts env (ps_peers msg) ups (Shadowvpn e) = Inr t" "bind_dp (actor_deletions dels t) (\<lambda>t'. Inr (dp\<lparr>dp_tunnel := t'\<rparr>)) = Inr dp'"
    using assms(1,2) by (cases "actor_upserts env (ps_peers msg) ups (Shadowvpn e)") (auto simp: actor_peer_state_def)
  obtain e1 c where e1: "t = Shadowvpn e1" "sve_cipher e1 = sve_cipher e" "cfg_psk c = replicate 32 0"
    "sve_peers e1 i = Some (SvPeer_new i c (sve_cipher e))" using actor_upserts_shadowvpn [OF t(1)] assms(3) by metis
  obtain e2 where e2: "actor_deletions dels t = Inr (Shadowvpn e2)" "sve_cipher e2 = sve_cipher e1" "sve_peers e2 i = sve_peers e1 i"
    using actor_deletions_shadowvpn [of dels e1] assms(4) e1(1) by blast
  have "key_len (sve_cipher e) \<le> 32" by (cases "sve_cipher e") simp_all
  then have "svp_master_key (SvPeer_new i c (sve_cipher e)) = replicate (key_len (sve_cipher e2)) 0"
    using e1(2,3) e2(2) by (simp add: SvPeer_new_def min_def)
  moreover have "dp_tunnel dp' = Shadowvpn e2" using t(2) e2(1) by auto
  ultimately show ?thesis using e1(4) e2(3)
    by (intro exI [of _ e2] exI [of _ "SvPeer_new i c (sve_cipher e)"]) (simp add: map_filter_simps SvPeer_new_def)
qed

section \<open>Examples\<close>

definition sample_state :: "(PeerId \<rightharpoonup> plain_net ControlNode) \<Rightarrow> plain_net PeerState" where
  "sample_state peers = \<lparr>ps_deletions = {}, ps_upserts = dom peers, ps_peers = PeerDb_default\<lparr>db_peers := peers\<rparr>\<rparr>"


abbreviation fresh_plane :: "plain_net DataPlane" where
  "fresh_plane \<equiv> fst (DataPlane_new plain_env \<lparr>en_ids = [11, 12], en_keys = (\<lambda>_. [9]), en_next = 0\<rparr> sample_rng Wireguard_p (keypair sample_crypto [1]))"

theorem data_plane_never_panics_witness:
  "fine plain_ipnet (map_sum (\<lambda>e. e) snd (process_inbound plain_env [] [] [] [] [addressed [10, 0, 0, 1] [10, 0, 0, 2]] fresh_plane)) \<and>
   fine plain_ipnet (map_sum (\<lambda>e. e) (\<lambda>(_, dp', _). dp')
     (process_outbound plain_env [V4 [10, 0, 0, 2]] [] [] [addressed [10, 0, 0, 1] [10, 0, 0, 2]] fresh_plane sample_rng))"
proof -
  have dom: "set [V4 [10, 0, 0, 2]] = dom (by_dest [addressed [10, 0, 0, 1] [10, 0, 0, 2]])"
    by (auto simp: dom_by_dest addressed_addrs(2))
  have net: "de_net plain_env = plain_ipnet" by (simp add: plain_env_def)
  from data_plane_never_panics [OF plane_new plain_env_ok net _ dom] show ?thesis by simp
qed

definition two_peers :: SvEndpoint where
  "two_peers = \<lparr>sve_my_key = \<lparr>kp_private = [], kp_public = []\<rparr>, sve_cipher = Aes128Gcm, sve_obfs = ObfsNone,
     sve_peers = [0 \<mapsto> SvPeer_new 0 \<lparr>cfg_key = [1], cfg_psk = [5]\<rparr> Aes128Gcm, 1 \<mapsto> SvPeer_new 1 \<lparr>cfg_key = [2], cfg_psk = [6]\<rparr> Aes128Gcm],
     sve_by_key = [[1] \<mapsto> 0, [2] \<mapsto> 1]\<rparr>"

theorem tunnel_follows_peer_db_witness:
  "\<exists>db msg dp'. db_peers db = [0 \<mapsto> sample_node 1 [host4 9], 1 \<mapsto> sample_node 2 [host4 9]] \<and>
     tracker_handle plain_ipnet [0, 1] (Full [sample_node 1 [host4 9]]) db = Some msg \<and>
     actor_peer_state sample_env [0] [1] msg ((peer4_plane SplitStackTable_EMPTY SplitStackTable_EMPTY)\<lparr>dp_tunnel := Shadowvpn two_peers\<rparr>) = Inr dp' \<and>
     in_sync (dp_tunnel dp') (ps_peers msg)"
proof -
  let ?a = "sample_node 1 [host4 9]" and ?b = "sample_node 2 [host4 9]" and ?dp = "(peer4_plane SplitStackTable_EMPTY SplitStackTable_EMPTY)\<lparr>dp_tunnel := Shadowvpn two_peers\<rparr>"
  let ?keep = "\<lambda>(_ :: PeerId) peer. nd_stable_id peer \<in> set (map nd_stable_id [?a])"
  obtain db where db: "db_ok plain_ipnet db" "db_peers db = [0 \<mapsto> ?a, 1 \<mapsto> ?b]" using sample_db by blast
  have order: "set [0, 1] = dom (db_peers db)" by (auto simp: db(2))
  obtain db1 where db1: "PeerDb_retain plain_ipnet ?keep [0, 1] db = Some db1" "db_ok plain_ipnet db1" "db_peers db1 = retained ?keep (set [0, 1]) (db_peers db)"
    using retain_spec [OF plain_ipnet_ok db(1)] by blast
  have peers1: "db_peers db1 = [0 \<mapsto> ?a]" unfolding db1(3) db(2) retained_def by (rule ext) (auto simp: sample_node_sel)
  have st: "ix_stableid (db_index db1) (nd_stable_id ?a) = Some 0" using idx_okD [OF db_okD(4) [OF db1(2)], of 0 ?a] by (simp add: peers1)
  then have id: "assigned_id db1 ?a = 0" by (simp add: assigned_id_def)
  have "unique_fields plain_ipnet 0 ?a (db_peers db1)" unfolding unique_fields_def no_clash_def peers1 by (simp add: if_splits)
  then obtain db2 where db2: "PeerDb_upsert plain_ipnet ?a db1 = Some (0, db2)" "db_peers db2 = [0 \<mapsto> ?a]"
    using upsert_spec [OF plain_ipnet_ok db1(2), of ?a] st by (auto simp: sample_node_ok peers1 id)
  let ?msg = "\<lparr>ps_deletions = {1}, ps_upserts = {0}, ps_peers = db2\<rparr>"
  have del: "{i \<in> insert 0 (insert 1 {}). \<exists>n\<in>set_option (db_peers db i). \<not> ?keep i n} = {1}" by (auto simp: db(2) sample_node_sel)
  have msg: "tracker_handle plain_ipnet [0, 1] (Full [?a]) db = Some ?msg"
    unfolding tracker_handle_def Let_def PeerUpdate.case db1(1) list.set del by (simp add: db2(1))
  have inv: "tunnel_inv (dp_tunnel ?dp)" by (auto simp: sv_inv_def two_peers_def SvPeer_new_def)
  have key: "Tunnel_peer_key i (dp_tunnel ?dp) = [0 \<mapsto> [1], 1 \<mapsto> [2]] i" for i
    by (auto simp: two_peers_def sv_peer_key_def SvPeer_new_def)
  have sync: "in_sync (dp_tunnel ?dp) db" unfolding in_sync_def key db(2) by (simp add: sample_node_sel)
  have stay: "keys_stay (dp_tunnel ?dp) ?msg" unfolding keys_stay_def key by (simp add: new_key_def db2(2) sample_node_sel)
  from tunnel_follows_peer_db [OF plain_ipnet_ok db(1) order msg inv sync stay, of "[0]" "[1]" sample_env]
  obtain dp' where "actor_peer_state sample_env [0] [1] ?msg ?dp = Inr dp'" "in_sync (dp_tunnel dp') (ps_peers ?msg)" by auto
  with db(2) msg show ?thesis by blast
qed

lemma peer4_key: "Tunnel_peer_key i (dp_tunnel (peer4_plane src inr)) = [4 \<mapsto> [1]] i"
  by (auto simp: peer4_plane_def peer4_endpoint_def sv_peer_key_def SvPeer_new_def)

theorem peer_replacement_panics_witness:
  "actor_peer_state sample_env [5] [4] (sample_state [5 \<mapsto> sample_node 1 []]) (peer4_plane SplitStackTable_EMPTY SplitStackTable_EMPTY) =
     Inl (TunnelFault NodeKeyCollision)"
proof -
  let ?dp = "peer4_plane SplitStackTable_EMPTY SplitStackTable_EMPTY" and ?n = "sample_node 1 []"
  have "tunnel_inv (dp_tunnel ?dp)" using peer4_plane_inv [OF tbl_ok_EMPTY(1) tbl_ok_EMPTY(1)] by (simp add: dp_inv_def)
  moreover have "Tunnel_peer_key 4 (dp_tunnel ?dp) = Some (nd_node_key ?n)" "Tunnel_peer_key 5 (dp_tunnel ?dp) = None"
    unfolding peer4_key by (simp_all add: sample_node_sel)
  moreover have "db_peers (ps_peers (sample_state [5 \<mapsto> ?n])) 5 = Some ?n" by (simp add: sample_state_def)
  ultimately show ?thesis by (rule peer_replacement_panics)
qed

theorem shadowvpn_peers_share_zero_key_witness:
  "\<exists>dp' e' peer. actor_peer_state sample_env [4] [] (sample_state [4 \<mapsto> sample_node 1 []]) (peer4_plane SplitStackTable_EMPTY SplitStackTable_EMPTY) = Inr dp' \<and>
     dp_tunnel dp' = Shadowvpn e' \<and> sve_peers e' 4 = Some peer \<and> svp_master_key peer = replicate (key_len (sve_cipher e')) 0"
proof -
  let ?dp = "peer4_plane SplitStackTable_EMPTY SplitStackTable_EMPTY" and ?msg = "sample_state [4 \<mapsto> sample_node 1 []]"
  have t: "dp_tunnel ?dp = Shadowvpn peer4_endpoint" by (simp add: peer4_plane_def)
  obtain dp' where dp': "actor_peer_state sample_env [4] [] ?msg ?dp = Inr dp'"
    by (simp add: actor_peer_state_def sample_state_def t sv_upsert_peer_def peer4_endpoint_def runtime_config_def sample_node_sel SvPeer_new_def Let_def)
  obtain e' peer where "dp_tunnel dp' = Shadowvpn e'" "sve_peers e' 4 = Some peer" "svp_master_key peer = replicate (key_len (sve_cipher e')) 0"
    using shadowvpn_peers_share_zero_key [OF t dp', of 4 sample_sv_crypto] by auto
  with dp' show ?thesis by blast
qed

end
