(* ===== verification/Peer_Requests.thy ===== *)
theory Peer_Requests
  imports Runtime_Actors
begin

text \<open>
  The requests to the peer tracker (\<open>ts_runtime/src/peer_tracker/mod.rs\<close>).  A request that arrives
  before the first peer update waits in a queue and is answered by that update.  A reply sender is
  a value of any type, and sending a reply adds a pair of sender and answer to the output.
\<close>

section \<open>Definitions\<close>

datatype Request = PeerByName string | PeerByAcceptedRoute IpAddr | PeerByTailnetIp IpAddr

datatype 'n Answer = OneNode "'n ControlNode option" | AllNodes "'n ControlNode list"

record ('n, 'r) PeerTracker =
  pt_peer_db :: "'n PeerDb"
  pt_seen_state_update :: bool
  pt_pending_requests :: "(Request \<times> 'r) list"

definition PeerTracker_new :: "('n, 'r) PeerTracker" where
  "PeerTracker_new = \<lparr>pt_peer_db = PeerDb_default, pt_seen_state_update = False, pt_pending_requests = []\<rparr>"

definition trim_end_matches :: "char \<Rightarrow> string \<Rightarrow> string" where
  [rust_std]: "trim_end_matches c s = rev (dropWhile (\<lambda>x. x = c) (rev s))"

definition peer_by_name_opt :: "'n ipnet \<Rightarrow> string \<Rightarrow> 'n PeerDb \<Rightarrow> 'n ControlNode option option" where
  "peer_by_name_opt N name db = do { found \<leftarrow> PeerDb_get N (ByName (trim_end_matches CHR ''.'' name)) db; Some (map_option snd found) }"

definition peer_by_tailnet_ip_opt :: "'n ipnet \<Rightarrow> IpAddr \<Rightarrow> 'n PeerDb \<Rightarrow> 'n ControlNode option option" where
  "peer_by_tailnet_ip_opt N ip db = do { found \<leftarrow> PeerDb_get N (ByIp ip) db; Some (map_option snd found) }"

text \<open>The conversion of an address into a prefix gives the prefix of full length.\<close>

definition host_net :: "'n ipnet \<Rightarrow> IpAddr \<Rightarrow> 'n option" where
  "host_net N ip = net_new_assert N ip (if is_ipv4 ip then 32 else 128)"

definition peer_by_accepted_route :: "'n ipnet \<Rightarrow> IpAddr \<Rightarrow> 'n PeerDb \<Rightarrow> 'n ControlNode list option" where
  "peer_by_accepted_route N ip db = do { net \<leftarrow> host_net N ip; found \<leftarrow> get_route N net db; Some (map snd found) }"

fun answer :: "'n ipnet \<Rightarrow> 'n PeerDb \<Rightarrow> Request \<Rightarrow> 'n Answer option" where
  "answer N db (PeerByName name) = map_option OneNode (peer_by_name_opt N name db)"
| "answer N db (PeerByTailnetIp ip) = map_option OneNode (peer_by_tailnet_ip_opt N ip db)"
| "answer N db (PeerByAcceptedRoute ip) = map_option AllNodes (peer_by_accepted_route N ip db)"

fun tracker_request ::
  "'n ipnet \<Rightarrow> Request \<Rightarrow> 'r option \<Rightarrow> ('n, 'r) PeerTracker \<Rightarrow> (('r \<times> 'n Answer) list \<times> ('n, 'r) PeerTracker) option" where
  "tracker_request N req None t = Some ([], t)"
| "tracker_request N req (Some reply) t =
     (if \<not> pt_seen_state_update t then Some ([], t\<lparr>pt_pending_requests := pt_pending_requests t @ [(req, reply)]\<rparr>)
      else do { a \<leftarrow> answer N (pt_peer_db t) req; Some ([(reply, a)], t) })"

fun answer_all :: "'n ipnet \<Rightarrow> 'n PeerDb \<Rightarrow> (Request \<times> 'r) list \<Rightarrow> ('r \<times> 'n Answer) list option" where
  "answer_all N db [] = Some []"
| "answer_all N db ((req, reply) # rest) = do { a \<leftarrow> answer N db req; as \<leftarrow> answer_all N db rest; Some ((reply, a) # as) }"

definition service_pending_requests :: "'n ipnet \<Rightarrow> ('n, 'r) PeerTracker \<Rightarrow> (('r \<times> 'n Answer) list \<times> ('n, 'r) PeerTracker) option" where
  "service_pending_requests N t =
     (if pt_seen_state_update t then Some ([], t)
      else do {
        replies \<leftarrow> answer_all N (pt_peer_db t) (pt_pending_requests t);
        Some (replies, t\<lparr>pt_seen_state_update := True, pt_pending_requests := []\<rparr>)
      })"

definition tracker_update ::
  "'n ipnet \<Rightarrow> PeerId list \<Rightarrow> 'n PeerUpdate option \<Rightarrow> ('n, 'r) PeerTracker \<Rightarrow>
   ('n PeerState option \<times> ('r \<times> 'n Answer) list \<times> ('n, 'r) PeerTracker) option" where
  "tracker_update N order peer_update t =
     (case peer_update of
        None \<Rightarrow> Some (None, [], t)
      | Some update \<Rightarrow>
          do {
            state \<leftarrow> tracker_handle N order update (pt_peer_db t);
            (replies, t') \<leftarrow> service_pending_requests N (t\<lparr>pt_peer_db := ps_peers state\<rparr>);
            Some (Some state, replies, t')
          })"

section \<open>Sequences of messages\<close>

datatype ('n, 'r) TrackerMsg = Ask Request "'r option" | StateUpdate "PeerId list" "'n PeerUpdate option"

fun tracker_run ::
  "'n ipnet \<Rightarrow> ('n, 'r) TrackerMsg list \<Rightarrow> ('n, 'r) PeerTracker \<Rightarrow> (('r \<times> 'n Answer) list \<times> ('n, 'r) PeerTracker) option" where
  "tracker_run N [] t = Some ([], t)"
| "tracker_run N (Ask req rep # msgs) t =
     do { (rs, t1) \<leftarrow> tracker_request N req rep t; (rs', t2) \<leftarrow> tracker_run N msgs t1; Some (rs @ rs', t2) }"
| "tracker_run N (StateUpdate order u # msgs) t =
     do { (_, rs, t1) \<leftarrow> tracker_update N order u t; (rs', t2) \<leftarrow> tracker_run N msgs t1; Some (rs @ rs', t2) }"

text \<open>
  The specification: a tracker that answers every request at once, run on the messages in an order
  where the first peer update comes before the requests that preceded it.
\<close>

fun direct_run :: "'n ipnet \<Rightarrow> ('n, 'r) TrackerMsg list \<Rightarrow> 'n PeerDb \<Rightarrow> (('r \<times> 'n Answer) list \<times> 'n PeerDb) option" where
  "direct_run N [] db = Some ([], db)"
| "direct_run N (Ask req None # msgs) db = direct_run N msgs db"
| "direct_run N (Ask req (Some r) # msgs) db =
     do { a \<leftarrow> answer N db req; (rs, db') \<leftarrow> direct_run N msgs db; Some ((r, a) # rs, db') }"
| "direct_run N (StateUpdate order None # msgs) db = direct_run N msgs db"
| "direct_run N (StateUpdate order (Some u) # msgs) db = do { state \<leftarrow> tracker_handle N order u db; direct_run N msgs (ps_peers state) }"

fun senders_of :: "('n, 'r) TrackerMsg list \<Rightarrow> (Request \<times> 'r) list" where
  "senders_of (Ask req (Some r) # msgs) = (req, r) # senders_of msgs"
| "senders_of (_ # msgs) = senders_of msgs"
| "senders_of [] = []"

fun has_update :: "('n, 'r) TrackerMsg list \<Rightarrow> bool" where
  "has_update [] = False"
| "has_update (StateUpdate order (Some u) # msgs) = True"
| "has_update (_ # msgs) = has_update msgs"

fun update_first :: "('n, 'r) TrackerMsg list \<Rightarrow> (Request \<times> 'r) list \<Rightarrow> ('n, 'r) TrackerMsg list" where
  "update_first [] waiting = []"
| "update_first (StateUpdate order (Some u) # msgs) waiting = StateUpdate order (Some u) # map (\<lambda>(q, r). Ask q (Some r)) waiting @ msgs"
| "update_first (StateUpdate order None # msgs) waiting = update_first msgs waiting"
| "update_first (Ask q (Some r) # msgs) waiting = update_first msgs (waiting @ [(q, r)])"
| "update_first (Ask q None # msgs) waiting = update_first msgs waiting"

lemma direct_run_asks:
  "direct_run N (map (\<lambda>(q, r). Ask q (Some r)) waiting @ msgs) db =
     do { rs \<leftarrow> answer_all N db waiting; (rs', db') \<leftarrow> direct_run N msgs db; Some (rs @ rs', db') }"
proof (induction waiting)
  case Nil
  show ?case by (cases "direct_run N msgs db") auto
next
  case (Cons w waiting)
  obtain q r where w: "w = (q, r)" by (cases w)
  show ?case
    using Cons by (cases "answer N db q"; cases "answer_all N db waiting"; cases "direct_run N msgs db") (auto simp: w)
qed

lemma run_seen:
  "pt_seen_state_update t \<Longrightarrow> pt_pending_requests t = [] \<Longrightarrow>
     tracker_run N msgs t = map_option (\<lambda>(rs, db). (rs, t\<lparr>pt_peer_db := db\<rparr>)) (direct_run N msgs (pt_peer_db t))"
proof (induction msgs arbitrary: t)
  case (Cons m msgs)
  show ?case
  proof (cases m)
    case (Ask q s)
    with Cons show ?thesis by (cases s) (auto split: Option.bind_split option.split)
  next
    case (StateUpdate order u)
    with Cons show ?thesis by (cases u) (auto simp: tracker_update_def service_pending_requests_def split: Option.bind_split)
  qed
qed simp

lemma run_unseen:
  "\<not> pt_seen_state_update t \<Longrightarrow> tracker_run N msgs t =
     (if has_update msgs
      then map_option (\<lambda>(rs, db). (rs, \<lparr>pt_peer_db = db, pt_seen_state_update = True, pt_pending_requests = []\<rparr>))
        (direct_run N (update_first msgs (pt_pending_requests t)) (pt_peer_db t))
      else Some ([], t\<lparr>pt_pending_requests := pt_pending_requests t @ senders_of msgs\<rparr>))"
proof (induction msgs arbitrary: t)
  case (Cons m msgs)
  show ?case
  proof (cases m)
    case (Ask q s)
    with Cons show ?thesis by (cases s) (auto split: option.split)
  next
    case (StateUpdate order u)
    show ?thesis
    proof (cases u)
      case None
      with Cons StateUpdate show ?thesis by (simp add: tracker_update_def split: option.split)
    next
      case (Some u')
      with Cons.prems StateUpdate show ?thesis
        by (auto simp: tracker_update_def service_pending_requests_def direct_run_asks run_seen split: Option.bind_split option.split)
    qed
  qed
qed simp

lemma direct_run_replies: "direct_run N msgs db = Some (rs, db') \<Longrightarrow> map fst rs = map snd (senders_of msgs)"
  by (induction N msgs db arbitrary: rs db' rule: direct_run.induct) (auto simp: bind_eq_Some_conv)

lemma senders_update_first: "has_update msgs \<Longrightarrow> senders_of (update_first msgs waiting) = waiting @ senders_of msgs"
proof (induction msgs waiting rule: update_first.induct)
  case (2 order u msgs waiting)
  have "senders_of (map (\<lambda>(q, r). Ask q (Some r)) waiting @ msgs) = waiting @ senders_of msgs" by (induction waiting) auto
  then show ?case by simp
qed auto

text \<open>
  C23. Requests to the peer tracker.  Over any sequence of requests and updates, a tracker that has
  seen no peer update keeps all requests waiting, in order.  Otherwise it behaves exactly like a
  tracker that answers at once and received the first peer update ahead of the requests before
  it; so every request with a reply channel is answered exactly once, in the order of arrival,
  and none is left waiting.
\<close>

theorem tracker_answers_all:
  "tracker_run N msgs PeerTracker_new =
      (if has_update msgs
       then map_option (\<lambda>(rs, db). (rs, \<lparr>pt_peer_db = db, pt_seen_state_update = True, pt_pending_requests = []\<rparr>))
         (direct_run N (update_first msgs []) PeerDb_default)
       else Some ([], PeerTracker_new\<lparr>pt_pending_requests := senders_of msgs\<rparr>)) \<and>
   (\<forall>rs t. tracker_run N msgs PeerTracker_new = Some (rs, t) \<and> has_update msgs \<longrightarrow> map fst rs = map snd (senders_of msgs))"
proof -
  have run: "tracker_run N msgs PeerTracker_new =
      (if has_update msgs
       then map_option (\<lambda>(rs, db). (rs, \<lparr>pt_peer_db = db, pt_seen_state_update = True, pt_pending_requests = []\<rparr>))
         (direct_run N (update_first msgs []) PeerDb_default)
       else Some ([], PeerTracker_new\<lparr>pt_pending_requests := senders_of msgs\<rparr>))"
    by (subst run_unseen) (simp_all add: PeerTracker_new_def)
  have "map fst rs = map snd (senders_of msgs)" if "tracker_run N msgs PeerTracker_new = Some (rs, t) \<and> has_update msgs" for rs t
    using that unfolding run by (auto dest!: direct_run_replies simp: senders_update_first)
  with run show ?thesis by blast
qed

text \<open>A request for an unknown name waits for the first update and is then answered.\<close>

theorem tracker_answers_all_witness:
  "\<exists>rs t. tracker_run plain_ipnet [Ask (PeerByName ''a.'') (Some (7 :: nat)), StateUpdate [] None, StateUpdate [] (Some (Full [])), Ask (PeerByName ''b'') (Some 8)] PeerTracker_new =
     Some (rs, t) \<and> map fst rs = [7, 8]"
proof -
  let ?msgs = "[Ask (PeerByName ''a.'') (Some (7 :: nat)), StateUpdate [] None, StateUpdate [] (Some (Full [])), Ask (PeerByName ''b'') (Some 8)]"
  have "tracker_run plain_ipnet ?msgs PeerTracker_new \<noteq> None"
    by (simp add: tracker_update_def tracker_handle_def service_pending_requests_def PeerTracker_new_def peer_by_name_opt_def PeerDb_get_def)
  then obtain rs t where run: "tracker_run plain_ipnet ?msgs PeerTracker_new = Some (rs, t)" by auto
  have "has_update ?msgs" "map snd (senders_of ?msgs) = [7, 8]" by simp_all
  then have "map fst rs = [7, 8]" using tracker_answers_all [of plain_ipnet ?msgs, THEN conjunct2, rule_format, of rs t] run by metis
  with run show ?thesis by (intro exI conjI)
qed

end
