(* ===== verification/Async_Plane.thy ===== *)
theory Async_Plane
  imports Runtime_Actors
begin

text \<open>
  The event loop around the data plane (\<open>ts_dataplane/src/async_tokio.rs\<close>).  An unbounded channel
  is its queue and whether the receiver still exists; which branch of \<open>select\<close> completes, and the
  orders in which hash maps are iterated, are arguments.  A mutex is held for a whole operation, so
  operations are steps that interleave.
\<close>

section \<open>Definitions\<close>

record 'a Channel =
  ch_queue :: "'a list"
  ch_open :: bool

definition unbounded_channel :: "'a Channel" where
  "unbounded_channel = \<lparr>ch_queue = [], ch_open = True\<rparr>"

definition ch_send :: "'a \<Rightarrow> 'a Channel \<Rightarrow> 'a Channel option" where
  "ch_send x c = (if ch_open c then Some (c\<lparr>ch_queue := ch_queue c @ [x]\<rparr>) else None)"

record 'n AsyncPlane =
  ap_sync :: "'n DataPlane"
  ap_overlay_transports :: "OverlayTransportId \<rightharpoonup> bytes list Channel"
  ap_underlay_transports :: "UnderlayTransportId \<rightharpoonup> (PeerId \<times> bytes list) Channel"
  ap_from_overlay :: "bytes list list"
  ap_from_underlay :: "(PeerId \<times> bytes list) list"
  ap_next_underlay_transport :: u32
  ap_next_overlay_transport :: u32

definition AsyncPlane_new :: "'n dp_env \<Rightarrow> Entropy \<Rightarrow> Rng \<Rightarrow> Protocol \<Rightarrow> X25519KeyPair \<Rightarrow> 'n AsyncPlane \<times> Rng" where
  "AsyncPlane_new env ent g protocol my_key =
     (case DataPlane_new env ent g protocol my_key of (sync, g') \<Rightarrow>
        (\<lparr>ap_sync = sync, ap_overlay_transports = Map.empty, ap_underlay_transports = Map.empty, ap_from_overlay = [],
          ap_from_underlay = [], ap_next_underlay_transport = 0, ap_next_overlay_transport = 0\<rparr>, g'))"

definition new_underlay_transport :: "'n AsyncPlane \<Rightarrow> UnderlayTransportId \<times> 'n AsyncPlane" where
  "new_underlay_transport ap =
     (let i = ap_next_underlay_transport ap
      in (i, ap\<lparr>ap_next_underlay_transport := i + 1,
                ap_underlay_transports := (ap_underlay_transports ap)(i \<mapsto> unbounded_channel)\<rparr>))"

definition new_overlay_transport :: "'n AsyncPlane \<Rightarrow> OverlayTransportId \<times> 'n AsyncPlane" where
  "new_overlay_transport ap =
     (let i = ap_next_overlay_transport ap
      in (i, ap\<lparr>ap_next_overlay_transport := i + 1,
                ap_overlay_transports := (ap_overlay_transports ap)(i \<mapsto> unbounded_channel)\<rparr>))"

datatype SelectResult = OverlayDown "bytes list" | UnderlayUp PeerId "bytes list" | TransportsChanged | TimerEvent

text \<open>The branch that completes; the deadline was read when the step began.\<close>

datatype Branch = RecvOverlay | RecvUnderlay | Notified | Sleep

fun select :: "instant \<Rightarrow> instant option \<Rightarrow> Branch \<Rightarrow> 'n AsyncPlane \<Rightarrow> (SelectResult \<times> 'n AsyncPlane) option" where
  "select now deadline RecvOverlay ap =
     (case ap_from_overlay ap of [] \<Rightarrow> None | p # ps \<Rightarrow> Some (OverlayDown p, ap\<lparr>ap_from_overlay := ps\<rparr>))"
| "select now deadline RecvUnderlay ap =
     (case ap_from_underlay ap of [] \<Rightarrow> None | (peer, p) # ps \<Rightarrow> Some (UnderlayUp peer p, ap\<lparr>ap_from_underlay := ps\<rparr>))"
| "select now deadline Notified ap = Some (TransportsChanged, ap)"
| "select now deadline Sleep ap =
     (case deadline of Some d \<Rightarrow> if d \<le> now then Some (TimerEvent, ap) else None | None \<Rightarrow> None)"

record StepOrders =
  so_dests :: "IpAddr list"
  so_sessions :: "SessionId list"
  so_peers :: "PeerId list"
  so_batches :: "PeerId list"
  so_replies :: "PeerId list"
  so_underlay :: "(UnderlayTransportId \<times> PeerId) list"
  so_overlay :: "OverlayTransportId list"

fun process_selected ::
  "'n dp_env \<Rightarrow> StepOrders \<Rightarrow> SelectResult \<Rightarrow> 'n DataPlane \<Rightarrow> Rng \<Rightarrow>
   dp_fault + underlay_result option \<times> (OverlayTransportId \<rightharpoonup> bytes list) option \<times> 'n DataPlane \<times> Rng" where
  "process_selected env so (OverlayDown p) dp g =
     bind_dp (process_outbound env (so_dests so) (so_batches so) (so_replies so) p dp g) (\<lambda>(res, dp', g').
       Inr (Some (ob_to_peers res), Some (ob_loopback res), dp', g'))"
| "process_selected env so (UnderlayUp peer p) dp g =
     bind_dp (process_inbound env (so_sessions so) (so_peers so) (so_batches so) (so_replies so) p dp) (\<lambda>(res, dp').
       Inr (Some (ib_to_peers res), Some (ib_to_local res), dp', g))"
| "process_selected env so TimerEvent dp g =
     bind_dp (process_events env (so_replies so) dp) (\<lambda>(to_peers, dp'). Inr (Some to_peers, None, dp', g))"
| "process_selected env so TransportsChanged dp g = Inr (None, None, dp, g)"

fun write_each :: "('k \<times> 'x) list \<Rightarrow> ('k \<rightharpoonup> 'x Channel) \<Rightarrow> ('k \<rightharpoonup> 'x Channel) option" where
  "write_each [] ts = Some ts"
| "write_each ((k, x) # rest) ts =
     (case ts k of
        None \<Rightarrow> write_each rest ts
      | Some queue \<Rightarrow> do { queue' \<leftarrow> ch_send x queue; write_each rest (ts(k \<mapsto> queue')) })"

definition write_to_overlay ::
  "OverlayTransportId list \<Rightarrow> (OverlayTransportId \<rightharpoonup> bytes list) \<Rightarrow> (OverlayTransportId \<rightharpoonup> bytes list Channel) \<Rightarrow>
   (OverlayTransportId \<rightharpoonup> bytes list Channel) option" where
  "write_to_overlay order packets ts = write_each (map_iter order packets) ts"

definition write_to_underlay ::
  "(UnderlayTransportId \<times> PeerId) list \<Rightarrow> underlay_result \<Rightarrow> (UnderlayTransportId \<rightharpoonup> (PeerId \<times> bytes list) Channel) \<Rightarrow>
   (UnderlayTransportId \<rightharpoonup> (PeerId \<times> bytes list) Channel) option" where
  "write_to_underlay order packets ts = write_each (map (\<lambda>((tid, peer), p). (tid, (peer, p))) (map_iter order packets)) ts"

text \<open>One step of the loop; \<open>None\<close> while the chosen branch is not ready.\<close>

definition async_step ::
  "'n dp_env \<Rightarrow> StepOrders \<Rightarrow> instant option \<Rightarrow> Branch \<Rightarrow> 'n AsyncPlane \<Rightarrow> Rng \<Rightarrow> (dp_fault + 'n AsyncPlane \<times> Rng) option" where
  "async_step env so deadline branch ap g =
     (case select (te_now (de_tunnel env)) deadline branch ap of
        None \<Rightarrow> None
      | Some (sel, ap1) \<Rightarrow> Some (
          bind_dp (process_selected env so sel (ap_sync ap1) g) (\<lambda>(to_peers, to_local, sync, g').
          bind_dp (of_option (case to_peers of Some m \<Rightarrow> write_to_underlay (so_underlay so) m (ap_underlay_transports ap1)
                                             | None \<Rightarrow> Some (ap_underlay_transports ap1))) (\<lambda>underlay.
          bind_dp (of_option (case to_local of Some m \<Rightarrow> write_to_overlay (so_overlay so) m (ap_overlay_transports ap1)
                                             | None \<Rightarrow> Some (ap_overlay_transports ap1))) (\<lambda>overlay.
            Inr (ap1\<lparr>ap_sync := sync, ap_underlay_transports := underlay, ap_overlay_transports := overlay\<rparr>, g'))))))"

section \<open>Writing to channels\<close>

definition all_open :: "('k \<rightharpoonup> 'x Channel) \<Rightarrow> bool" where
  "all_open ts \<longleftrightarrow> (\<forall>c\<in>ran ts. ch_open c)"

definition delivered :: "('k \<times> 'x) list \<Rightarrow> ('k \<rightharpoonup> 'x Channel) \<Rightarrow> ('k \<rightharpoonup> 'x Channel)" where
  "delivered xs ts = (\<lambda>k. map_option (\<lambda>c. c\<lparr>ch_queue := ch_queue c @ map snd (filter (\<lambda>x. fst x = k) xs)\<rparr>) (ts k))"

lemma all_openD: "all_open ts \<Longrightarrow> ts k = Some c \<Longrightarrow> ch_open c"
  by (auto simp: all_open_def ran_def)

lemma all_open_upd [intro]: "all_open ts \<Longrightarrow> ch_open c \<Longrightarrow> all_open (ts(k \<mapsto> c))"
  by (auto simp: all_open_def ran_def)

lemma all_open_take [intro]: "all_open ts \<Longrightarrow> ts k = Some c \<Longrightarrow> all_open (ts(k \<mapsto> c\<lparr>ch_queue := xs\<rparr>))"
  by (force simp: all_open_def ran_def)

lemma all_open_delivered [simp]: "all_open (delivered xs ts) = all_open ts"
  by (force simp: all_open_def delivered_def ran_def)

lemma write_each_open: "all_open ts \<Longrightarrow> write_each xs ts = Some (delivered xs ts)"
proof (induction xs ts rule: write_each.induct)
  case (1 ts)
  have "map_option (\<lambda>c. c) (ts k) = ts k" for k by (cases "ts k") auto
  then show ?case by (simp add: delivered_def)
next
  case (2 k x rest ts)
  show ?case
  proof (cases "ts k")
    case None
    then have "delivered ((k, x) # rest) ts = delivered rest ts" by (auto simp: delivered_def fun_eq_iff)
    with 2 None show ?thesis by simp
  next
    case (Some c)
    then have c: "ch_open c" using 2(3) by (rule all_openD [rotated])
    let ?ts = "ts(k \<mapsto> c\<lparr>ch_queue := ch_queue c @ [x]\<rparr>)"
    have "delivered rest ?ts = delivered ((k, x) # rest) ts" using Some by (auto simp: delivered_def fun_eq_iff)
    moreover have "all_open ?ts" using 2(3) c by auto
    ultimately show ?thesis using 2(2) [OF Some] Some c by (simp add: ch_send_def del: fun_upd_apply)
  qed
qed

lemma write_each_closed: "(k, x) \<in> set xs \<Longrightarrow> ts k = Some c \<Longrightarrow> \<not> ch_open c \<Longrightarrow> write_each xs ts = None"
proof (induction xs arbitrary: ts)
  case (Cons y xs)
  obtain j z where y: "y = (j, z)" by (cases y)
  show ?case
  proof (cases "j = k")
    case True
    with Cons.prems y show ?thesis by (simp add: ch_send_def)
  next
    case False
    with Cons.prems y Cons.IH show ?thesis by (auto split: option.split Option.bind_split)
  qed
qed simp

lemma map_iter_filter:
  assumes "distinct order" and "k \<in> set order"
  shows "map snd (filter (\<lambda>x. fst x = k) (map_iter order m)) = (case m k of Some v \<Rightarrow> [v] | None \<Rightarrow> [])"
proof -
  have "k \<notin> set order \<Longrightarrow> filter (\<lambda>x. fst x = k) (map_iter order m) = []" for order
    by (auto simp: filter_empty_conv map_iter_simps(1))
  with assms show ?thesis
    by (induction order) (auto simp: map_iter_def map_filter_simps split: option.split)
qed

section \<open>Reachable states\<close>

text \<open>What the runtime does to the data plane through \<open>inner\<close>.\<close>

inductive plane_update :: "'n ipnet \<Rightarrow> 'n DataPlane \<Rightarrow> 'n DataPlane \<Rightarrow> bool" for N where
  upd_peer_routes: "tbl_ok N out \<Longrightarrow> plane_update N dp (actor_peer_routes out underlay dp)"
| upd_self_routes: "tbl_ok N inr \<Longrightarrow> plane_update N dp (actor_self_routes inr dp)"
| upd_packet_filter: "(\<forall>info caps. f info caps \<noteq> None) \<Longrightarrow> plane_update N dp (actor_packet_filter f dp)"
| upd_src_filter: "tbl_ok N src \<Longrightarrow> plane_update N dp (actor_src_filter src dp)"
| upd_peer_state: "state_allowed (dp_tunnel dp) ups dels msg \<Longrightarrow> actor_peer_state tenv ups dels msg dp = Inr dp' \<Longrightarrow> plane_update N dp dp'"

lemma plane_update_reachable: "plane_update N dp dp' \<Longrightarrow> plane_reachable N dp \<Longrightarrow> plane_reachable N dp'"
  by (induction rule: plane_update.induct)
    (blast intro: plane_peer_routes plane_self_routes plane_packet_filter plane_src_filter plane_peer_state)+

text \<open>The destinations of an outgoing batch are visited once each.\<close>

fun orders_ok :: "StepOrders \<Rightarrow> SelectResult \<Rightarrow> bool" where
  "orders_ok so (OverlayDown p) \<longleftrightarrow> distinct (so_dests so) \<and> set (so_dests so) = dom (by_dest p)"
| "orders_ok so _ \<longleftrightarrow> True"

inductive loop_reachable :: "'n ipnet \<Rightarrow> 'n AsyncPlane \<Rightarrow> bool" for N where
  loop_new: "loop_reachable N (fst (AsyncPlane_new env ent g protocol key))"
| loop_new_underlay: "loop_reachable N ap \<Longrightarrow> loop_reachable N (snd (new_underlay_transport ap))"
| loop_new_overlay: "loop_reachable N ap \<Longrightarrow> loop_reachable N (snd (new_overlay_transport ap))"
| loop_from_overlay: "loop_reachable N ap \<Longrightarrow> loop_reachable N (ap\<lparr>ap_from_overlay := ap_from_overlay ap @ [p]\<rparr>)"
| loop_from_underlay: "loop_reachable N ap \<Longrightarrow> loop_reachable N (ap\<lparr>ap_from_underlay := ap_from_underlay ap @ [b]\<rparr>)"
| loop_take_overlay: "loop_reachable N ap \<Longrightarrow> ap_overlay_transports ap i = Some c \<Longrightarrow> ch_queue c = x # xs \<Longrightarrow>
    loop_reachable N (ap\<lparr>ap_overlay_transports := (ap_overlay_transports ap)(i \<mapsto> c\<lparr>ch_queue := xs\<rparr>)\<rparr>)"
| loop_take_underlay: "loop_reachable N ap \<Longrightarrow> ap_underlay_transports ap j = Some d \<Longrightarrow> ch_queue d = y # ys \<Longrightarrow>
    loop_reachable N (ap\<lparr>ap_underlay_transports := (ap_underlay_transports ap)(j \<mapsto> d\<lparr>ch_queue := ys\<rparr>)\<rparr>)"
| loop_inner: "loop_reachable N ap \<Longrightarrow> plane_update N (ap_sync ap) dp' \<Longrightarrow> loop_reachable N (ap\<lparr>ap_sync := dp'\<rparr>)"
| loop_step: "loop_reachable N ap \<Longrightarrow> env_ok env \<Longrightarrow> de_net env = N \<Longrightarrow>
    select (te_now (de_tunnel env)) deadline branch ap = Some (sel, ap1) \<Longrightarrow> orders_ok so sel \<Longrightarrow>
    async_step env so deadline branch ap g = Some (Inr (ap', g')) \<Longrightarrow> loop_reachable N ap'"

lemma select_kept:
  "select now deadline branch ap = Some (sel, ap1) \<Longrightarrow> ap_sync ap1 = ap_sync ap \<and>
     ap_overlay_transports ap1 = ap_overlay_transports ap \<and> ap_underlay_transports ap1 = ap_underlay_transports ap"
  by (cases branch) (auto split: list.splits option.splits if_splits)

fun taken_overlay :: "SelectResult \<Rightarrow> bytes list list" where
  "taken_overlay (OverlayDown p) = [p]"
| "taken_overlay _ = []"

fun taken_underlay :: "SelectResult \<Rightarrow> (PeerId \<times> bytes list) list" where
  "taken_underlay (UnderlayUp peer p) = [(peer, p)]"
| "taken_underlay _ = []"

lemma select_takes:
  "select now deadline branch ap = Some (sel, ap1) \<Longrightarrow> ap_from_overlay ap = taken_overlay sel @ ap_from_overlay ap1 \<and>
     ap_from_underlay ap = taken_underlay sel @ ap_from_underlay ap1"
  by (cases branch) (auto split: list.splits option.splits if_splits)

lemma process_selected_fine:
  assumes "plane_reachable N dp" and "env_ok env" and "de_net env = N" and "orders_ok so sel"
  shows "(\<exists>e. process_selected env so sel dp g = Inl (TunnelFault e) \<and> tolerated e) \<or>
    (\<exists>to_peers to_local dp' g'. process_selected env so sel dp g = Inr (to_peers, to_local, dp', g') \<and> plane_reachable N dp')"
proof (cases sel)
  case (OverlayDown p)
  with outbound_fine [OF assms(1-3), of "so_dests so" p "so_batches so" "so_replies so" g] assms(4) show ?thesis
    by (auto simp: fine_def tolerated_def bind_dp_def split: sum.splits dp_fault.splits prod.splits)
next
  case (UnderlayUp peer p)
  with inbound_fine [OF assms(1-3), of "so_sessions so" "so_peers so" "so_batches so" "so_replies so" p] show ?thesis
    by (auto simp: fine_def tolerated_def bind_dp_def split: sum.splits dp_fault.splits prod.splits)
next
  case TimerEvent
  with events_fine [OF assms(1-3), of "so_replies so"] show ?thesis
    by (auto simp: fine_def tolerated_def bind_dp_def split: sum.splits dp_fault.splits prod.splits)
qed (use assms(1) in simp)

text \<open>What a step puts into the channels of the transports.\<close>

definition overlay_batches :: "StepOrders \<Rightarrow> (OverlayTransportId \<rightharpoonup> bytes list) option \<Rightarrow> (OverlayTransportId \<times> bytes list) list" where
  "overlay_batches so to_local = (case to_local of Some m \<Rightarrow> map_iter (so_overlay so) m | None \<Rightarrow> [])"

definition underlay_batches_of :: "StepOrders \<Rightarrow> underlay_result option \<Rightarrow> (UnderlayTransportId \<times> PeerId \<times> bytes list) list" where
  "underlay_batches_of so to_peers =
     (case to_peers of Some m \<Rightarrow> map (\<lambda>((tid, peer), p). (tid, (peer, p))) (map_iter (so_underlay so) m) | None \<Rightarrow> [])"

lemma async_step_unfold:
  assumes "select (te_now (de_tunnel env)) deadline branch ap = Some (sel, ap1)"
    and "process_selected env so sel (ap_sync ap) g = Inr (to_peers, to_local, dp', g')"
  shows "async_step env so deadline branch ap g = Some (
    bind_dp (of_option (write_each (underlay_batches_of so to_peers) (ap_underlay_transports ap))) (\<lambda>underlay.
    bind_dp (of_option (write_each (overlay_batches so to_local) (ap_overlay_transports ap))) (\<lambda>overlay.
      Inr (ap1\<lparr>ap_sync := dp', ap_underlay_transports := underlay, ap_overlay_transports := overlay\<rparr>, g'))))"
  using assms select_kept [OF assms(1)]
  by (auto simp: async_step_def write_to_underlay_def write_to_overlay_def underlay_batches_of_def overlay_batches_def split: option.split)

lemma async_step_open:
  assumes "select (te_now (de_tunnel env)) deadline branch ap = Some (sel, ap1)"
    and "process_selected env so sel (ap_sync ap) g = Inr (to_peers, to_local, dp', g')"
    and "all_open (ap_underlay_transports ap)" and "all_open (ap_overlay_transports ap)"
  shows "async_step env so deadline branch ap g = Some (Inr (ap1\<lparr>ap_sync := dp',
    ap_underlay_transports := delivered (underlay_batches_of so to_peers) (ap_underlay_transports ap),
    ap_overlay_transports := delivered (overlay_batches so to_local) (ap_overlay_transports ap)\<rparr>, g'))"
  by (simp add: async_step_unfold [OF assms(1,2)] write_each_open [OF assms(3)] write_each_open [OF assms(4)])

lemma loop_inv: "loop_reachable N ap \<Longrightarrow> plane_reachable N (ap_sync ap) \<and> all_open (ap_underlay_transports ap) \<and> all_open (ap_overlay_transports ap)"
proof (induction rule: loop_reachable.induct)
  case (loop_new env ent g protocol key)
  show ?case using plane_new [of N env ent g protocol key]
    by (cases "DataPlane_new env ent g protocol key") (simp add: AsyncPlane_new_def all_open_def)
next
  case (loop_step ap env deadline branch sel ap1 so g ap' g')
  have r: "plane_reachable N (ap_sync ap)" and o: "all_open (ap_underlay_transports ap)" "all_open (ap_overlay_transports ap)"
    using loop_step.IH by blast+
  note sel = loop_step.hyps(4)
  from process_selected_fine [OF r loop_step.hyps(2,3,5), of g]
  show ?case
  proof (elim disjE exE conjE)
    fix e
    assume "process_selected env so sel (ap_sync ap) g = Inl (TunnelFault e)"
    then show ?thesis using loop_step.hyps(6) select_kept [OF sel] by (simp add: async_step_def sel)
  next
    fix to_peers to_local dp' g1
    assume p: "process_selected env so sel (ap_sync ap) g = Inr (to_peers, to_local, dp', g1)" and "plane_reachable N dp'"
    then show ?thesis using loop_step.hyps(6) o by (auto simp: async_step_open [OF sel p o])
  qed
qed (auto simp: new_underlay_transport_def new_overlay_transport_def unbounded_channel_def Let_def intro: plane_update_reachable dest: all_openD simp del: fun_upd_apply)


text \<open>
  C32. A dropped transport stops the loop.  Once a transport has dropped its receiver, the first
  step that has packets for it panics, although packets for a transport that never existed are
  ignored; there is no operation that removes a transport.
\<close>

theorem dropped_transport_panics:
  assumes "select (te_now (de_tunnel env)) deadline branch ap = Some (sel, ap1)"
    and "process_selected env so sel (ap_sync ap) g = Inr (to_peers, Some m, dp', g')"
    and "all_open (ap_underlay_transports ap)"
    and "ap_overlay_transports ap i = Some c" and "\<not> ch_open c" and "m i = Some packets" and "i \<in> set (so_overlay so)"
  shows "async_step env so deadline branch ap g = Some (Inl DpPanic)"
proof -
  have "(i, packets) \<in> set (overlay_batches so (Some m))" using assms(6,7) by (simp add: overlay_batches_def map_iter_simps(1))
  from write_each_closed [where ts = "ap_overlay_transports ap", OF this assms(4,5)] show ?thesis
    by (simp add: async_step_unfold [OF assms(1,2)] write_each_open [OF assms(3)])
qed

section \<open>Examples\<close>

text \<open>A loop with one overlay transport, to which packets for \<open>10.0.0.0/8\<close> are looped back.\<close>

definition ping :: bytes where "ping = addressed [10, 0, 0, 1] [10, 0, 0, 2]"

definition loop_start :: "plain_net AsyncPlane" where
  "loop_start = snd (new_overlay_transport (fst (AsyncPlane_new plain_env \<lparr>en_ids = [], en_keys = (\<lambda>_. [9]), en_next = 0\<rparr> sample_rng Shadowvpn_p
     (keypair sample_crypto [1]))))"

definition loop_example :: "(plain_net, OutRouteAction) SplitStackTable \<Rightarrow> plain_net AsyncPlane" where
  "loop_example out = (let ap = loop_start\<lparr>ap_sync := actor_peer_routes out Map.empty (ap_sync loop_start)\<rparr>
     in ap\<lparr>ap_from_overlay := ap_from_overlay ap @ [[ping]]\<rparr>)"

definition loop_orders :: StepOrders where
  "loop_orders = \<lparr>so_dests = [V4 [10, 0, 0, 2]], so_sessions = [], so_peers = [], so_batches = [], so_replies = [], so_underlay = [], so_overlay = [0]\<rparr>"

lemma loop_example_reachable: "tbl_ok plain_ipnet out \<Longrightarrow> loop_reachable plain_ipnet (loop_example out)"
  unfolding loop_example_def loop_start_def Let_def
  by (intro loop_from_overlay loop_inner loop_new_overlay loop_new upd_peer_routes)

lemma loop_example_sel:
  "ap_from_overlay (loop_example out) = [[ping]]" "ap_overlay_transports (loop_example out) = [0 \<mapsto> unbounded_channel]"
  "ap_underlay_transports (loop_example out) = Map.empty" "or_out_table (dp_or_out (ap_sync (loop_example out))) = out"
  "\<exists>e. dp_tunnel (ap_sync (loop_example out)) = Shadowvpn e"
  by (simp_all add: loop_example_def loop_start_def new_overlay_transport_def AsyncPlane_new_def DataPlane_new_def Tunnel_new_def Let_def
      actor_peer_routes_def OutRouter_swap_def split: prod.split)

lemma loop_example_processed:
  assumes "tbl_ok plain_ipnet out" and "hop_of plain_ipnet out (V4 [10, 0, 0, 2]) = Some (OutLoopback 0)"
    and "ap_sync ap = ap_sync (loop_example out)"
  shows "\<exists>to_peers dp' g'. process_selected plain_env loop_orders (OverlayDown [ping]) (ap_sync ap) sample_rng = Inr (Some to_peers, Some [0 \<mapsto> [ping]], dp', g')"
proof -
  let ?dp = "ap_sync (loop_example out)"
  obtain e where e: "dp_tunnel ?dp = Shadowvpn e" using loop_example_sel(5) by blast
  have dst: "get_dst_addr ping = Some (V4 [10, 0, 0, 2])" by (simp add: ping_def addressed_addrs)
  then have by_dest: "by_dest [ping] (V4 [10, 0, 0, 2]) = Some [ping]"
    by (simp add: by_dest_def into_group_map_def entry_extend_def map_filter_simps)
  have look: "tbl_lookup plain_ipnet out (V4 [10, 0, 0, 2]) = Some (Some (OutLoopback 0))"
    using lookup_hop [OF plain_ipnet_ok assms(1), of "V4 [10, 0, 0, 2]"] assms(2) by (simp add: ip_wf_def)
  have "OutRouter_route plain_ipnet [V4 [10, 0, 0, 2]] [ping] (dp_or_out ?dp) = Some \<lparr>to_wireguard = Map.empty, loopback = [0 \<mapsto> [ping]]\<rparr>"
    by (simp add: OutRouter_route_def loop_example_sel(4) by_dest look entry_extend_def)
  moreover have net: "de_net plain_env = plain_ipnet" by (simp add: plain_env_def)
  ultimately show ?thesis
    by (simp add: assms(3) process_outbound_def loop_orders_def e net Let_def split: prod.split)
qed


theorem dropped_transport_panics_witness:
  "\<exists>out. async_step plain_env loop_orders None RecvOverlay ((loop_example out)\<lparr>ap_overlay_transports := [0 \<mapsto> \<lparr>ch_queue = [], ch_open = False\<rparr>]\<rparr>) sample_rng =
     Some (Inl DpPanic)"
proof -
  obtain out where out: "tbl_ok plain_ipnet out" "hop_of plain_ipnet out (V4 [10, 0, 0, 2]) = Some (OutLoopback 0)"
    using ten_table [of "OutLoopback 0"] by blast
  let ?ap = "(loop_example out)\<lparr>ap_overlay_transports := [0 \<mapsto> \<lparr>ch_queue = [], ch_open = False\<rparr>]\<rparr>"
  have sel: "select (te_now (de_tunnel plain_env)) None RecvOverlay ?ap = Some (OverlayDown [ping], ?ap\<lparr>ap_from_overlay := []\<rparr>)"
    by (simp add: loop_example_sel)
  obtain to_peers dp' g' where p: "process_selected plain_env loop_orders (OverlayDown [ping]) (ap_sync ?ap) sample_rng = Inr (Some to_peers, Some [0 \<mapsto> [ping]], dp', g')"
    using loop_example_processed [OF out, of ?ap] by auto
  have "all_open (ap_underlay_transports ?ap)" "ap_overlay_transports ?ap 0 = Some \<lparr>ch_queue = [], ch_open = False\<rparr>"
    "\<not> ch_open \<lparr>ch_queue = [], ch_open = False\<rparr>" "[0 \<mapsto> [ping]] 0 = Some [ping]" "0 \<in> set (so_overlay loop_orders)"
    by (simp_all add: loop_example_sel all_open_def loop_orders_def)
  from dropped_transport_panics [OF sel p this] show ?thesis by blast
qed

end
