(* ===== verification/Spec2Isabelle.thy ===== *)
theory Spec2Isabelle
  imports Wg_Conversation Peer_Requests Async_Plane
begin

text \<open>
  Verification of the data plane of \<open>tailscale-rs\<close> in its fork with a ShadowVPN backend.

  \<^bold>\<open>The program.\<close>  Packets from overlay transports go down: the outbound overlay router
  (\<open>ts_overlay_router\<close>) picks a peer by longest prefix match in a routing table (\<open>ts_bart\<close>), the
  tunnel (\<open>ts_tunnel\<close>: WireGuard or ShadowVPN) encrypts, the underlay router
  (\<open>ts_underlay_router\<close>) picks a transport.  Packets from underlay transports come up: the tunnel
  decrypts, the source filter and the packet filter (\<open>ts_packetfilter\<close>) decide, the inbound router
  delivers.  \<open>ts_dataplane\<close> composes this with a timer queue (\<open>ts_time\<close>) and runs it in an event
  loop.  The runtime (\<open>ts_runtime\<close>) keeps a database of peers up to date with the control server
  and derives the routes, the filters and the peers of the tunnel from it.

  \<^bold>\<open>The theories.\<close>  Definitions carry the names of the source.

  \<^item> \<open>Prelude\<close>: machine types, the parts of Rust's standard library that are used, shared lemmas.
  \<^item> \<open>Replay_Window\<close>, \<open>Tai_Clock\<close>, \<open>Wg_Messages\<close>, \<open>Wg_Macs\<close>, \<open>Wg_Session\<close>, \<open>Wg_Handshake\<close>: one file
    each of \<open>ts_tunnel/src/wireguard\<close>, on machine words where the code is.  They show that the
    window refines the set of accepted counters, that time stamps increase strictly, that messages
    survive printing and parsing, that nonces are never reused, that replays are dropped and
    reordered packets delivered, and that both ends of a handshake agree on their keys.
  \<^item> \<open>Crypto\<close>, \<open>Noise\<close>: the primitives as parameters with their documented laws; the patterns IK and
    IKpsk2 of \<open>ts_noise\<close>.
  \<^item> \<open>Scheduler\<close>: the event queue of \<open>ts_time\<close>; every event in range is delivered once.
  \<^item> \<open>Wg_Peer\<close>, \<open>Wg_Endpoint\<close>, \<open>Wg_Invariant\<close>, \<open>Wg_Conversation\<close>: \<open>wireguard/endpoint.rs\<close>.  Every
    handler keeps the invariant of session ids, node keys, windows and timers, so none of the
    assertions and unwraps of the code fails; the first packets for a new peer arrive through
    the handshake they trigger.
  \<^item> \<open>Sv_Crypto\<close>, \<open>Sv_Obfs\<close>, \<open>Sv_Endpoint\<close>: \<open>ts_tunnel/src/shadowvpn\<close>; what a peer sends is what
    the other side delivers.
  \<^item> \<open>Tunnel_Results\<close>, \<open>Tunnel\<close>: the dispatcher \<open>ts_tunnel/src/lib.rs\<close>; both backends keep their
    peers as a map with unique keys.
  \<^item> \<open>Bitset\<close>, \<open>Array256\<close>, \<open>Bart_Index\<close>, \<open>Bart_Net\<close>, \<open>Plain_Net\<close>, \<open>Bart_Node\<close>, \<open>Bart_Lookup\<close>,
    \<open>Bart_Update\<close>, \<open>Bart_Remove\<close>, \<open>Bart_Modify\<close>, \<open>Bart_Table\<close>: \<open>ts_bitset\<close>, \<open>ts_array256\<close> and
    \<open>ts_bart\<close>.  Insertion, removal with path compression and modification refine a map from
    prefixes, and a lookup is the longest match in this map.  \<open>Plain_Net\<close> is a concrete type of
    prefixes for the witnesses.
  \<^item> \<open>Packet\<close>, \<open>Routers\<close>, \<open>Packet_Filter\<close>, \<open>Data_Plane\<close>: \<open>ts_packet\<close>, the routers, the filters and
    the synchronous core \<open>ts_dataplane/src/lib.rs\<close>.  A packet is delivered exactly if tunnel,
    source filter, packet filter and route agree; the timer is armed for the next tunnel event.
  \<^item> \<open>Peer_Db\<close>, \<open>Peer_Requests\<close>: \<open>ts_control/src/node.rs\<close> and \<open>ts_runtime/src/peer_tracker\<close>.  The
    seven indices of the database stay exact under upserts, removals and retains; requests are
    answered once, in order.  The theory also shows where the database fails: patches, keys
    that move between nodes, repeated routes.
  \<^item> \<open>Runtime_Actors\<close>: the route updater, the source filter updater and the data plane actor of
    \<open>ts_runtime\<close>.  Addresses are attributed to the same peer in both directions, the tunnel's
    peers follow the database, and a reachable data plane does not panic.
  \<^item> \<open>Async_Plane\<close>: the event loop \<open>ts_dataplane/src/async_tokio.rs\<close> as steps that interleave with
    its users.

  Contracts between components are locales, each interpreted on the model: \<open>replay_guard\<close>,
  \<open>strict_clock\<close>, \<open>event_queue\<close>, \<open>carrier\<close>, \<open>keyed_peers\<close> (both backends and the dispatcher),
  \<open>bitset_ops\<close>, \<open>slot_map\<close>, \<open>prefix_table\<close> and \<open>rule_storage\<close>.

  \<^bold>\<open>Conventions.\<close>  A panic is a value: \<open>None\<close> in the containers, the routers and the database, a
  \<open>wg_fault\<close> in the tunnel, a \<open>dp_fault\<close> in the data plane.  An addition that overflows panics,
  as in a build with overflow checks, unless the source wraps.  Clocks and randomness
  are arguments, and one reading serves one call.  A hash map is a partial map, and a loop over it
  takes the order of the keys as an argument, so a theorem for all orders holds for every hash
  function.  Crates outside the repository (\<open>ipnet\<close>, \<open>etherparse\<close>, the cryptographic crates) are
  arguments with named hypotheses, and every theorem with such a hypothesis has a witness over a
  concrete instance.

  \<^bold>\<open>Bounds.\<close>  There is no fuel: recursions are structural or have a measure, and the loop of
  \<open>evp_bytes_to_key\<close>, a partial function, is proved to return.  Random session ids come from a list
  of draws; the retry loop that finds a free id stops with \<open>SessionIdsStarved\<close> when the list is
  used up, which a source of fresh ids never is.  The only other fault that the theorems allow is
  \<open>NonceExhausted\<close>, the panic that the source raises on purpose after \<open>2^64\<close> packets.

  \<^bold>\<open>Not modelled.\<close>  Logging, formatting and zeroization of keys; the buffer capacities of
  \<open>ts_packet\<close>; statistics and enumeration in \<open>ts_bart\<close>; the conversion of the control server's JSON
  and the connection to it (\<open>ts_control\<close> beyond nodes, \<open>ts_control_serde\<close>, \<open>ts_control_noise\<close>,
  \<open>ts_packetfilter_serde\<close>); the second filter implementation that only cross-checks the first
  (\<open>ts_bart_packetfilter\<close>, \<open>ts_dynbitset\<close>); the persistent store, the network stack on \<open>smoltcp\<close>, the
  relay client, the network monitor, the TUN device and the language bindings, which are input and
  output or wrappers; and the actor framework, whose message bus is the arguments and results
  of the handlers.
\<close>

end
